(* ===== verification/Prelude.thy ===== *)
theory Prelude
  imports Main "HOL-Library.Word" "HOL-Library.Char_ord" "HOL-Library.List_Lexorder"
begin

text \<open>
  Shared vocabulary of the development: the machine-integer types of the Go sources, the errno
  values of the filesystem engine, and the generic lemmas on list-shaped SQL tables.

  A table is the list of its rows in insertion order.  A statement is one of four functions over a
  key projection: \<open>sel\<close> (SELECT by key), \<open>upd\<close> (UPDATE by key), \<open>del\<close> (DELETE by key) and
  appending a row (INSERT).  The lemmas below say how each changes later selections, the key
  uniqueness that a PRIMARY KEY or UNIQUE clause promises, and the number of rows that satisfy a
  predicate, which is what link counts are about.
\<close>

section \<open>Collections of facts\<close>

named_theorems tx_simps \<open>evaluation of transactions on a fault-free schedule\<close>
named_theorems stmt_defs \<open>definitions of the SQL statements\<close>
named_theorems fault_intros \<open>introduction rules for fault monotonicity\<close>
named_theorems tree_simps \<open>effect of the statements on the directory tree\<close>

section \<open>Machine types\<close>

type_synonym u8 = "8 word"
type_synonym u16 = "16 word"
type_synonym u32 = "32 word"
type_synonym u64 = "64 word"
type_synonym bytes = "8 word list"

type_synonym Ino = u64
type_synonym name = string

text \<open>
  The errno values the engine reports; success is \<open>Inr\<close>.  \<open>DIVERGES\<close> is not an errno: it stands for a
  call that never returns (the ancestor walk of scope.go on a cyclic tree).
\<close>

datatype errno =
    ENOENT | EIO | EPERM | EACCES | EEXIST | ENOTDIR | EISDIR | EINVAL
  | ENOTEMPTY | ENOSYS | ESTALE | EAGAIN | ENODATA | ENAMETOOLONG | EBADF | DIVERGES

lemma uint_word_of_int_64: "0 \<le> w \<Longrightarrow> w < 2 ^ 64 \<Longrightarrow> uint (word_of_int w :: u64) = w"
  by (simp add: uint_word_of_int)

lemma sint_word_of_int_64: "- (2 ^ 63) \<le> w \<Longrightarrow> w < 2 ^ 63 \<Longrightarrow> sint (word_of_int w :: u64) = w"
  by (simp add: signed_of_int signed_take_bit_int_eq_self)

lemma sint_eq_uint_64: "uint (x :: u64) < 2 ^ 63 \<Longrightarrow> sint x = uint x"
  using sint_word_of_int_64 [of "uint x"] uint_ge_0 [of x] by (simp del: uint_ge_0)

lemma uint_word_of_int_32: "0 \<le> w \<Longrightarrow> w < 2 ^ 32 \<Longrightarrow> uint (word_of_int w :: u32) = w"
  by (simp add: uint_word_of_int)

lemma uint_add_nowrap:
  "uint a + uint b < 2 ^ LENGTH('a) \<Longrightarrow> uint (a + b) = uint a + uint (b :: 'a::len word)"
  by (simp add: uint_word_ariths)

lemma uint_sub_nowrap: "b \<le> a \<Longrightarrow> uint (a - b) = uint a - uint (b :: 'a::len word)"
  by (simp add: uint_word_ariths word_le_def)

section \<open>Tables\<close>

definition sel :: "('r \<Rightarrow> 'k) \<Rightarrow> 'k \<Rightarrow> 'r list \<Rightarrow> 'r option" where
  "sel key k rows = find (\<lambda>r. key r = k) rows"

definition upd :: "('r \<Rightarrow> 'k) \<Rightarrow> 'k \<Rightarrow> ('r \<Rightarrow> 'r) \<Rightarrow> 'r list \<Rightarrow> 'r list" where
  "upd key k f rows = map (\<lambda>r. if key r = k then f r else r) rows"

definition del :: "('r \<Rightarrow> 'k) \<Rightarrow> 'k \<Rightarrow> 'r list \<Rightarrow> 'r list" where
  "del key k rows = filter (\<lambda>r. key r \<noteq> k) rows"

text \<open>The number of rows a WHERE clause matches.\<close>

definition cnt :: "('r \<Rightarrow> bool) \<Rightarrow> 'r list \<Rightarrow> nat" where
  "cnt P rows = length (filter P rows)"

lemma sel_Nil [simp]: "sel key k [] = None"
  by (simp add: sel_def)

lemma sel_Cons [simp]: "sel key k (r # rows) = (if key r = k then Some r else sel key k rows)"
  by (simp add: sel_def)

lemma upd_Nil [simp]: "upd key k f [] = []"
  by (simp add: upd_def)

lemma upd_Cons [simp]:
  "upd key k f (r # rows) = (if key r = k then f r else r) # upd key k f rows"
  by (simp add: upd_def)

lemma del_Nil [simp]: "del key k [] = []"
  by (simp add: del_def)

lemma del_Cons [simp]:
  "del key k (r # rows) = (if key r = k then del key k rows else r # del key k rows)"
  by (simp add: del_def)

lemma cnt_Nil [simp]: "cnt P [] = 0"
  by (simp add: cnt_def)

lemma cnt_Cons [simp]: "cnt P (r # rows) = (if P r then Suc (cnt P rows) else cnt P rows)"
  by (simp add: cnt_def)

lemma cnt_append [simp]: "cnt P (xs @ ys) = cnt P xs + cnt P ys"
  by (simp add: cnt_def)

lemma sel_append [simp]:
  "sel key k (xs @ ys) = (case sel key k xs of None \<Rightarrow> sel key k ys | Some r \<Rightarrow> Some r)"
  by (induction xs) auto

lemma sel_SomeD: "sel key k rows = Some r \<Longrightarrow> r \<in> set rows \<and> key r = k"
  by (induction rows) (auto split: if_splits)

lemma sel_Some_key: "sel key k rows = Some r \<Longrightarrow> key r = k"
  by (drule sel_SomeD) simp

lemma sel_Some_in: "sel key k rows = Some r \<Longrightarrow> r \<in> set rows"
  by (drule sel_SomeD) simp

lemma sel_None_iff: "sel key k rows = None \<longleftrightarrow> k \<notin> key ` set rows"
  by (induction rows) auto

lemma sel_in_distinct:
  "distinct (map key rows) \<Longrightarrow> r \<in> set rows \<Longrightarrow> sel key (key r) rows = Some r"
  by (induction rows) (auto simp: image_iff)

lemma sel_upd:
  assumes "\<And>r. key (f r) = key r"
  shows "sel key k' (upd key k f rows) =
    (if k' = k then map_option f (sel key k rows) else sel key k' rows)"
  by (induction rows) (auto simp: assms)

lemma sel_upd_other_key:
  assumes "\<And>r. key r = k \<Longrightarrow> key2 (f r) = key2 r"
  shows "sel key2 k' (upd key k f rows) =
    map_option (\<lambda>r. if key r = k then f r else r) (sel key2 k' rows)"
  using assms by (induction rows) auto

lemma sel_del: "sel key k' (del key k rows) = (if k' = k then None else sel key k' rows)"
  by (induction rows) auto

lemma set_upd: "set (upd key k f rows) = (\<lambda>r. if key r = k then f r else r) ` set rows"
  by (simp add: upd_def)

lemma set_del: "set (del key k rows) = {r \<in> set rows. key r \<noteq> k}"
  by (auto simp: del_def)

lemma map_key_upd:
  assumes "\<And>r. key2 (f r) = key2 r"
  shows "map key2 (upd key k f rows) = map key2 rows"
  by (simp add: upd_def assms)

lemma distinct_map_upd:
  assumes "\<And>r. key2 (f r) = key2 r" and "distinct (map key2 rows)"
  shows "distinct (map key2 (upd key k f rows))"
  using assms by (simp add: map_key_upd)

lemma distinct_map_del: "distinct (map key2 rows) \<Longrightarrow> distinct (map key2 (del key k rows))"
  by (simp add: del_def distinct_map_filter)

lemma distinct_map_ins:
  "distinct (map key rows) \<Longrightarrow> sel key (key r) rows = None \<Longrightarrow> distinct (map key (rows @ [r]))"
  by (auto simp: sel_None_iff)

lemma upd_notin: "k \<notin> key ` set rows \<Longrightarrow> upd key k f rows = rows"
  by (induction rows) auto

lemma del_notin: "k \<notin> key ` set rows \<Longrightarrow> del key k rows = rows"
  by (induction rows) auto

lemma cnt_upd_same:
  assumes "\<And>r. r \<in> set rows \<Longrightarrow> key r = k \<Longrightarrow> P (f r) = P r"
  shows "cnt P (upd key k f rows) = cnt P rows"
  using assms by (induction rows) auto

lemma cnt_upd:
  assumes "distinct (map key rows)" and "sel key k rows = Some r"
  shows "cnt P (upd key k f rows) + (if P r then 1 else 0) = cnt P rows + (if P (f r) then 1 else 0)"
  using assms
proof (induction rows)
  case Nil
  then show ?case by simp
next
  case (Cons x rows)
  show ?case
  proof (cases "key x = k")
    case True
    then have "k \<notin> key ` set rows" using Cons.prems(1) by auto
    then have "upd key k f rows = rows" by (rule upd_notin)
    with True Cons.prems show ?thesis by auto
  next
    case False
    with Cons show ?thesis by auto
  qed
qed

lemma cnt_del:
  assumes "distinct (map key rows)" and "sel key k rows = Some r"
  shows "cnt P rows = cnt P (del key k rows) + (if P r then 1 else 0)"
  using assms
proof (induction rows)
  case Nil
  then show ?case by simp
next
  case (Cons x rows)
  show ?case
  proof (cases "key x = k")
    case True
    then have "k \<notin> key ` set rows" using Cons.prems(1) by auto
    then have "del key k rows = rows" by (rule del_notin)
    with True Cons.prems show ?thesis by auto
  next
    case False
    with Cons show ?thesis by auto
  qed
qed

lemma cnt_0_iff: "cnt P rows = 0 \<longleftrightarrow> (\<forall>r\<in>set rows. \<not> P r)"
  by (auto simp: cnt_def filter_empty_conv)

lemma cnt_pos_iff: "0 < cnt P rows \<longleftrightarrow> (\<exists>r\<in>set rows. P r)"
  using cnt_0_iff [of P rows] by auto

lemma cnt_cong: "(\<And>r. r \<in> set rows \<Longrightarrow> P r = Q r) \<Longrightarrow> cnt P rows = cnt Q rows"
  by (simp add: cnt_def cong: filter_cong)

lemma del_idem: "sel key k rows = None \<Longrightarrow> del key k rows = rows"
  by (simp add: sel_None_iff del_notin)

lemma upd_idem: "sel key k rows = None \<Longrightarrow> upd key k f rows = rows"
  by (simp add: sel_None_iff upd_notin)

text \<open>INSERT ... ON CONFLICT (key) DO UPDATE: the row replaces the one with its key, or is appended.\<close>

definition upsert :: "('r \<Rightarrow> 'k) \<Rightarrow> 'r \<Rightarrow> 'r list \<Rightarrow> 'r list" where
  "upsert key r rows =
    (if sel key (key r) rows = None then rows @ [r] else upd key (key r) (\<lambda>_. r) rows)"

lemma sel_upsert: "sel key k (upsert key r rows) = (if k = key r then Some r else sel key k rows)"
proof (cases "sel key (key r) rows")
  case None
  then show ?thesis by (auto simp: upsert_def split: option.splits)
next
  case (Some x)
  have "sel key k (upd key (key r) (\<lambda>_. r) rows) =
      (if k = key r then map_option (\<lambda>_. r) (sel key k rows) else sel key k rows)" for k
    by (induction rows) auto
  with Some show ?thesis by (simp add: upsert_def)
qed

lemma set_upsert: "set (upsert key r rows) = insert r {x \<in> set rows. key x \<noteq> key r}"
proof (cases "sel key (key r) rows")
  case None
  then have "key x \<noteq> key r" if "x \<in> set rows" for x using that by (auto simp: sel_None_iff image_iff)
  with None show ?thesis by (auto simp: upsert_def)
next
  case (Some y)
  then show ?thesis by (auto simp: upsert_def set_upd image_iff dest!: sel_SomeD)
qed

lemma map_key_upsert: "map key (upsert key r rows) = (if sel key (key r) rows = None then map key rows @ [key r] else map key rows)"
  by (auto simp: upsert_def upd_def)

lemma distinct_upsert: "distinct (map key rows) \<Longrightarrow> distinct (map key (upsert key r rows))"
  unfolding map_key_upsert by (auto simp: sel_None_iff)

end
