(* ===== verification/Sql_Tx.thy ===== *)
theory Sql_Tx
  imports Prelude
begin

text \<open>
  The transaction layer of the metadata engine (\<^verbatim>\<open>withTx\<close> of mlfs/internal/meta/schema.go).

  A transaction body is a function of a fault schedule and the database.  Every SQL statement
  consumes one entry of the schedule: \<open>True\<close> means that the statement fails with a driver or server
  error, so that the Go code takes its \<^verbatim>\<open>return err\<close> branch at that statement; an exhausted
  schedule means that nothing fails any more.  The body ends with \<open>tx_ret\<close> (commit), with
  \<open>tx_abort e\<close> (the \<^verbatim>\<open>out = e; return errAbort\<close> idiom) or with the SQL error of a failed
  statement.  Statements are in continuation-passing style: \<open>query\<close> hands the rows it read to the rest
  of the body, \<open>exec\<close> changes the tables, \<open>exec_may\<close> changes them unless a constraint refuses it.
\<close>

type_synonym faults = "bool list"

datatype txerr = SqlErr | Abort errno

type_synonym ('db, 'a) tx = "faults \<Rightarrow> 'db \<Rightarrow> (txerr + 'a \<times> 'db) \<times> faults"

definition tx_ret :: "'a \<Rightarrow> ('db, 'a) tx" where
  "tx_ret x = (\<lambda>fs db. (Inr (x, db), fs))"

definition tx_abort :: "errno \<Rightarrow> ('db, 'a) tx" where
  "tx_abort e = (\<lambda>fs db. (Inl (Abort e), fs))"

definition query :: "('db \<Rightarrow> 'q) \<Rightarrow> ('q \<Rightarrow> ('db, 'a) tx) \<Rightarrow> ('db, 'a) tx" where
  "query q k = (\<lambda>fs db. case fs of
      [] \<Rightarrow> k (q db) [] db
    | f # fs' \<Rightarrow> if f then (Inl SqlErr, fs') else k (q db) fs' db)"

definition exec :: "('db \<Rightarrow> 'db) \<Rightarrow> ('db, 'a) tx \<Rightarrow> ('db, 'a) tx" where
  "exec u k = (\<lambda>fs db. case fs of
      [] \<Rightarrow> k [] (u db)
    | f # fs' \<Rightarrow> if f then (Inl SqlErr, fs') else k fs' (u db))"

text \<open>A statement that a constraint may refuse (unique violation, value out of range).\<close>

definition exec_may :: "('db \<Rightarrow> 'db option) \<Rightarrow> ('db, 'a) tx \<Rightarrow> ('db, 'a) tx" where
  "exec_may u k = (\<lambda>fs db. case fs of
      [] \<Rightarrow> (case u db of None \<Rightarrow> (Inl SqlErr, []) | Some db' \<Rightarrow> k [] db')
    | f # fs' \<Rightarrow> if f then (Inl SqlErr, fs')
        else (case u db of None \<Rightarrow> (Inl SqlErr, fs') | Some db' \<Rightarrow> k fs' db'))"

text \<open>
  A statement that changes the tables and reports something: the row of a RETURNING clause (\<open>None\<close> when no
  row matched, which the Go code scans as an error) or the number of rows it affected.
\<close>

definition returning ::
  "('db \<Rightarrow> ('q \<times> 'db) option) \<Rightarrow> ('q \<Rightarrow> ('db, 'a) tx) \<Rightarrow> ('db, 'a) tx" where
  "returning u k = (\<lambda>fs db. case fs of
      [] \<Rightarrow> (case u db of None \<Rightarrow> (Inl SqlErr, []) | Some (x, db') \<Rightarrow> k x [] db')
    | f # fs' \<Rightarrow> if f then (Inl SqlErr, fs')
        else (case u db of None \<Rightarrow> (Inl SqlErr, fs') | Some (x, db') \<Rightarrow> k x fs' db'))"

text \<open>\<open>withTx\<close>: BEGIN and COMMIT are statements too; any error rolls back.\<close>

definition withTx :: "('db, 'a) tx \<Rightarrow> faults \<Rightarrow> 'db \<Rightarrow> (txerr + 'a) \<times> faults \<times> 'db" where
  "withTx fn fs db =
    (if fs \<noteq> [] \<and> hd fs then (Inl SqlErr, tl fs, db)
     else case fn (tl fs) db of
         (Inl e, fs') \<Rightarrow> (Inl e, fs', db)
       | (Inr (x, db'), fs') \<Rightarrow>
           if fs' \<noteq> [] \<and> hd fs' then (Inl SqlErr, tl fs', db) else (Inr x, tl fs', db'))"

text \<open>A statement outside a transaction commits by itself; \<open>None\<close> is an error of the driver or server.\<close>

definition autocommit :: "('db \<Rightarrow> ('a \<times> 'db) option) \<Rightarrow> faults \<Rightarrow> 'db \<Rightarrow> 'a option \<times> faults \<times> 'db" where
  "autocommit st fs db =
    (if fs \<noteq> [] \<and> hd fs then (None, tl fs, db)
     else case st db of None \<Rightarrow> (None, tl fs, db) | Some (x, db') \<Rightarrow> (Some x, tl fs, db'))"

text \<open>The mapping of a transaction's outcome to the errno the operation returns.\<close>

definition tx_errno :: "txerr + 'a \<Rightarrow> errno + 'a" where
  "tx_errno r = (case r of Inl (Abort e) \<Rightarrow> Inl e | Inl SqlErr \<Rightarrow> Inl EIO | Inr x \<Rightarrow> Inr x)"

section \<open>Evaluation on a fault-free schedule\<close>

lemma tx_ret_apply [tx_simps]: "tx_ret x fs db = (Inr (x, db), fs)"
  by (simp add: tx_ret_def)

lemma tx_abort_apply [tx_simps]: "tx_abort e fs db = (Inl (Abort e), fs)"
  by (simp add: tx_abort_def)

lemma query_ok [tx_simps]: "query q k [] db = k (q db) [] db"
  by (simp add: query_def)

lemma exec_ok [tx_simps]: "exec u k [] db = k [] (u db)"
  by (simp add: exec_def)

lemma exec_may_ok [tx_simps]:
  "exec_may u k [] db = (case u db of None \<Rightarrow> (Inl SqlErr, []) | Some db' \<Rightarrow> k [] db')"
  by (simp add: exec_may_def)

lemma returning_ok [tx_simps]:
  "returning u k [] db = (case u db of None \<Rightarrow> (Inl SqlErr, []) | Some (x, db') \<Rightarrow> k x [] db')"
  by (simp add: returning_def)

section \<open>Faults only turn results into errors\<close>

text \<open>
  \<open>fault_mono m\<close>: whenever the body commits under some schedule, it commits with the same result when
  nothing fails.  So every fact about a committed transaction can be read off its fault-free run.
\<close>

definition fault_mono :: "('db, 'a) tx \<Rightarrow> bool" where
  "fault_mono m \<longleftrightarrow> (\<forall>fs db r fs'. m fs db = (Inr r, fs') \<longrightarrow> m [] db = (Inr r, []))"

lemma fault_monoI:
  "(\<And>fs db r fs'. m fs db = (Inr r, fs') \<Longrightarrow> m [] db = (Inr r, [])) \<Longrightarrow> fault_mono m"
  unfolding fault_mono_def by blast

lemma fault_monoD: "fault_mono m \<Longrightarrow> m fs db = (Inr r, fs') \<Longrightarrow> m [] db = (Inr r, [])"
  unfolding fault_mono_def by blast

lemma fault_mono_ret [fault_intros, intro!]: "fault_mono (tx_ret x)"
  by (rule fault_monoI) (simp add: tx_ret_def)

lemma fault_mono_abort [fault_intros, intro!]: "fault_mono (tx_abort e)"
  by (rule fault_monoI) (simp add: tx_abort_def)

lemma fault_mono_query [fault_intros]:
  assumes "\<And>x. fault_mono (k x)"
  shows "fault_mono (query q k)"
proof (rule fault_monoI)
  fix fs db r fs'
  assume "query q k fs db = (Inr r, fs')"
  then obtain gs where "k (q db) gs db = (Inr r, fs')"
    by (auto simp: query_def split: list.splits if_splits)
  then show "query q k [] db = (Inr r, [])"
    by (simp add: query_ok fault_monoD [OF assms])
qed

lemma fault_mono_exec [fault_intros]:
  assumes "fault_mono k"
  shows "fault_mono (exec u k)"
proof (rule fault_monoI)
  fix fs db r fs'
  assume "exec u k fs db = (Inr r, fs')"
  then obtain gs where "k gs (u db) = (Inr r, fs')"
    by (auto simp: exec_def split: list.splits if_splits)
  then show "exec u k [] db = (Inr r, [])"
    by (simp add: exec_ok fault_monoD [OF assms])
qed

lemma fault_mono_exec_may [fault_intros]:
  assumes "fault_mono k"
  shows "fault_mono (exec_may u k)"
proof (rule fault_monoI)
  fix fs db r fs'
  assume "exec_may u k fs db = (Inr r, fs')"
  then obtain gs db1 where "u db = Some db1" and "k gs db1 = (Inr r, fs')"
    by (auto simp: exec_may_def split: list.splits if_splits option.splits)
  then show "exec_may u k [] db = (Inr r, [])"
    by (simp add: exec_may_ok fault_monoD [OF assms])
qed

lemma fault_mono_returning [fault_intros]:
  assumes "\<And>x. fault_mono (k x)"
  shows "fault_mono (returning u k)"
proof (rule fault_monoI)
  fix fs db r fs'
  assume "returning u k fs db = (Inr r, fs')"
  then obtain x gs db1 where "u db = Some (x, db1)" and "k x gs db1 = (Inr r, fs')"
    by (auto simp: returning_def split: list.splits if_splits option.splits)
  then show "returning u k [] db = (Inr r, [])"
    by (simp add: returning_ok fault_monoD [OF assms])
qed

lemma fault_mono_if [fault_intros]:
  "fault_mono a \<Longrightarrow> fault_mono b \<Longrightarrow> fault_mono (if c then a else b)"
  by simp

lemma fault_mono_case_option [fault_intros]:
  "fault_mono a \<Longrightarrow> (\<And>x. fault_mono (b x)) \<Longrightarrow> fault_mono (case x of None \<Rightarrow> a | Some y \<Rightarrow> b y)"
  by (cases x) auto

lemma fault_mono_case_prod [fault_intros]:
  "(\<And>x y. fault_mono (b x y)) \<Longrightarrow> fault_mono (case p of (x, y) \<Rightarrow> b x y)"
  by (cases p) auto

lemma fault_mono_Let [fault_intros]: "(\<And>x. fault_mono (b x)) \<Longrightarrow> fault_mono (let x = a in b x)"
  by (simp add: Let_def)

section \<open>Atomicity\<close>

lemma withTx_cases:
  assumes "withTx m fs db = (r, fs', db')"
  obtains (rollback) e where "r = Inl e" and "db' = db"
    | (commit) x fs1 where "r = Inr x" and "m (tl fs) db = (Inr (x, db'), fs1)"
proof (cases "fs \<noteq> [] \<and> hd fs")
  case True
  with assms have "r = Inl SqlErr" and "db' = db" by (simp_all add: withTx_def)
  then show ?thesis by (rule rollback)
next
  case False
  obtain res fs1 where m: "m (tl fs) db = (res, fs1)" by (rule prod.exhaust)
  show ?thesis
  proof (cases res)
    case (Inl e)
    with assms m False have "r = Inl e" and "db' = db" by (auto simp: withTx_def)
    then show ?thesis by (rule rollback)
  next
    case (Inr p)
    obtain x db1 where p: "p = (x, db1)" by (rule prod.exhaust)
    show ?thesis
    proof (cases "fs1 \<noteq> [] \<and> hd fs1")
      case True
      with assms m False Inr p have "r = Inl SqlErr" and "db' = db" by (auto simp: withTx_def)
      then show ?thesis by (rule rollback)
    next
      case no_fault: False
      with assms m False Inr p have "r = Inr x" and "db1 = db'" by (auto simp: withTx_def)
      with m Inr p show ?thesis by (auto intro: commit)
    qed
  qed
qed

text \<open>A transaction that does not commit leaves the database as it was.\<close>

lemma withTx_atomic: "withTx m fs db = (Inl e, fs', db') \<Longrightarrow> db' = db"
  by (erule withTx_cases) simp_all

text \<open>A transaction that commits has the effect of its fault-free run.\<close>

lemma withTx_commit:
  assumes "fault_mono m" and "withTx m fs db = (Inr x, fs', db')"
  shows "m [] db = (Inr (x, db'), [])"
  using assms(2)
proof (rule withTx_cases)
  fix e
  assume "Inr x = Inl e"
  then show ?thesis by simp
next
  fix y fs1
  assume "Inr x = Inr y" and "m (tl fs) db = (Inr (y, db'), fs1)"
  then show ?thesis by (simp add: fault_monoD [OF assms(1)])
qed

lemma withTx_ok [tx_simps]:
  "withTx m [] db = (case m [] db of (Inl e, fs') \<Rightarrow> (Inl e, fs', db)
     | (Inr (x, db'), fs') \<Rightarrow>
         if fs' \<noteq> [] \<and> hd fs' then (Inl SqlErr, tl fs', db) else (Inr x, tl fs', db'))"
  by (simp add: withTx_def)

end
