(* ===== verification/Meta_Db.thy ===== *)
theory Meta_Db
  imports Sql_Tx
begin

text \<open>
  The data model of the metadata engine: the PostgreSQL tables of mlfs/internal/meta/schema.go, the
  attribute record of types.go, the in-memory engine state of engine.go and the statements the
  operations are built from.

  BIGINT columns that only ever hold an identifier (inode, slice id) are kept as 64-bit words, since
  \<^verbatim>\<open>int64(x)\<close> and \<^verbatim>\<open>uint64(y)\<close> are mutually inverse on bit patterns; BIGINT and INTEGER columns that
  are computed with are integers, and each Go conversion at the border is written out.  JSON payloads
  of the change log are kept as structured values, and the never-read columns \<^verbatim>\<open>node.flags\<close>,
  \<^verbatim>\<open>flock.id\<close> and \<^verbatim>\<open>plock.id\<close> are left out.
\<close>

section \<open>Constants\<close>

definition RootInode :: Ino where
  "RootInode = 1"

definition ChunkSize :: int where
  "ChunkSize = 2 ^ 26"

definition TypeFile :: u8 where "TypeFile = 1"

definition TypeDirectory :: u8 where "TypeDirectory = 2"

definition TypeSymlink :: u8 where "TypeSymlink = 3"

lemma type_codes [simp]:
  "TypeFile \<noteq> TypeDirectory" "TypeDirectory \<noteq> TypeFile" "TypeSymlink \<noteq> TypeDirectory"
  "TypeDirectory \<noteq> TypeSymlink" "TypeFile \<noteq> TypeSymlink" "TypeSymlink \<noteq> TypeFile"
  by (simp_all add: TypeFile_def TypeDirectory_def TypeSymlink_def)

lemma ChunkSize_pos [simp]: "0 < ChunkSize"
  by (simp add: ChunkSize_def)

text \<open>Change-log operations and their codes.\<close>

datatype changeop =
    OpMknod | OpMkdir | OpUnlink | OpRmdir | OpRename | OpSetattr | OpWrite | OpSymlink | OpLink

fun op_code :: "changeop \<Rightarrow> u8" where
  "op_code OpMknod = 1"
| "op_code OpMkdir = 2"
| "op_code OpUnlink = 3"
| "op_code OpRmdir = 4"
| "op_code OpRename = 5"
| "op_code OpSetattr = 6"
| "op_code OpWrite = 7"
| "op_code OpSymlink = 8"
| "op_code OpLink = 9"

section \<open>Attributes and rows\<close>

record Attr =
  a_typ :: u8
  a_mode :: u16
  a_uid :: u32
  a_gid :: u32
  a_atime :: int
  a_mtime :: int
  a_ctime :: int
  a_atimensec :: u32
  a_mtimensec :: u32
  a_ctimensec :: u32
  a_nlink :: u32
  a_length :: u64
  a_rdev :: u32
  a_parent :: Ino
  a_storeClass :: u8
  a_contentHash :: string
  a_full :: bool

record Slice =
  sl_id :: u64
  sl_size :: u32
  sl_off :: u32
  sl_len :: u32

record Context =
  c_uid :: u32
  c_gid :: u32
  c_pid :: u32

record Entry =
  en_inode :: Ino
  en_name :: name
  en_attr :: "Attr option"

record node_row =
  n_inode :: Ino
  n_type :: u8
  n_mode :: u16
  n_uid :: u32
  n_gid :: u32
  n_atime :: int
  n_mtime :: int
  n_ctime :: int
  n_atimensec :: int
  n_mtimensec :: int
  n_ctimensec :: int
  n_nlink :: int
  n_length :: int
  n_rdev :: u32
  n_parent :: Ino
  n_store_class :: u8
  n_content_hash :: string

record edge_row =
  ed_parent :: Ino
  ed_name :: name
  ed_inode :: Ino
  ed_type :: u8

record symlink_row =
  sy_inode :: Ino
  sy_target :: string

record slice_row =
  sr_id :: nat
  sr_inode :: Ino
  sr_indx :: int
  sr_pos :: int
  sr_slice_id :: u64
  sr_size :: int
  sr_soff :: int
  sr_slen :: int

record flock_row =
  fl_inode :: Ino
  fl_sid :: u64
  fl_owner :: u64
  fl_ltype :: u8

text \<open>One byte-range record of \<^verbatim>\<open>plock.records\<close>; the end is inclusive.\<close>

record plockRec =
  pl_typ :: u8
  pl_start :: u64
  pl_end :: u64
  pl_pid :: u32

record plock_row =
  pk_inode :: Ino
  pk_sid :: u64
  pk_owner :: u64
  pk_records :: "plockRec list"

record xattr_row =
  x_inode :: Ino
  x_name :: name
  x_value :: string

record Lease =
  le_scope :: string
  le_owner :: string
  le_expires :: int
  le_generation :: int

datatype payload =
    PCreate Ino name u8
  | PEntry Ino name
  | PRename Ino name Ino name
  | PExchange Ino name Ino name
  | PSet u16
  | PTruncate int
  | PWrite u32 u32 u32
  | PCloneRange Ino u32 u32 u32
  | PClone Ino u64

record ChangeEntry =
  ch_lsn :: nat
  ch_ino :: Ino
  ch_op :: u8
  ch_payload :: payload
  ch_ts :: int

record counter_row =
  ct_name :: string
  ct_value :: int

record db =
  t_node :: "node_row list"
  t_edge :: "edge_row list"
  t_symlink :: "symlink_row list"
  t_slice_ref :: "slice_row list"
  t_flock :: "flock_row list"
  t_plock :: "plock_row list"
  t_xattr :: "xattr_row list"
  t_ownership :: "Lease list"
  t_changelog :: "ChangeEntry list"
  t_counter :: "counter_row list"
  q_slice_ref :: nat
  q_changelog :: nat

definition empty_db :: db where
  "empty_db = \<lparr>t_node = [], t_edge = [], t_symlink = [], t_slice_ref = [], t_flock = [], t_plock = [],
     t_xattr = [], t_ownership = [], t_changelog = [], t_counter = [],
     q_slice_ref = 1, q_changelog = 1\<rparr>"

section \<open>Keys\<close>

abbreviation edge_key :: "edge_row \<Rightarrow> Ino \<times> name" where
  "edge_key e \<equiv> (ed_parent e, ed_name e)"

abbreviation slice_key :: "slice_row \<Rightarrow> Ino \<times> u64" where
  "slice_key r \<equiv> (sr_inode r, sr_slice_id r)"

abbreviation flock_key :: "flock_row \<Rightarrow> Ino \<times> u64 \<times> u64" where
  "flock_key r \<equiv> (fl_inode r, fl_sid r, fl_owner r)"

abbreviation plock_key :: "plock_row \<Rightarrow> Ino \<times> u64 \<times> u64" where
  "plock_key r \<equiv> (pk_inode r, pk_sid r, pk_owner r)"

abbreviation xattr_key :: "xattr_row \<Rightarrow> Ino \<times> name" where
  "xattr_key r \<equiv> (x_inode r, x_name r)"

section \<open>Statements\<close>

definition sel_node :: "db \<Rightarrow> Ino \<Rightarrow> node_row option" where
  "sel_node db i = sel n_inode i (t_node db)"

definition sel_edge :: "db \<Rightarrow> Ino \<Rightarrow> name \<Rightarrow> edge_row option" where
  "sel_edge db p nm = sel edge_key (p, nm) (t_edge db)"

definition upd_node :: "Ino \<Rightarrow> (node_row \<Rightarrow> node_row) \<Rightarrow> db \<Rightarrow> db" where
  "upd_node i f db = db\<lparr>t_node := upd n_inode i f (t_node db)\<rparr>"

definition del_node :: "Ino \<Rightarrow> db \<Rightarrow> db" where
  "del_node i db = db\<lparr>t_node := del n_inode i (t_node db)\<rparr>"

text \<open>INSERT INTO node, refused by the primary key when the inode exists.\<close>

definition ins_node :: "node_row \<Rightarrow> db \<Rightarrow> db option" where
  "ins_node r db = (case sel_node db (n_inode r) of
      None \<Rightarrow> Some (db\<lparr>t_node := t_node db @ [r]\<rparr>) | Some _ \<Rightarrow> None)"

text \<open>INSERT INTO edge without an ON CONFLICT clause, and the deletion of an edge.\<close>

definition ins_edge :: "edge_row \<Rightarrow> db \<Rightarrow> db option" where
  "ins_edge r db = (case sel_edge db (ed_parent r) (ed_name r) of
      None \<Rightarrow> Some (db\<lparr>t_edge := t_edge db @ [r]\<rparr>) | Some _ \<Rightarrow> None)"

definition del_edge :: "Ino \<Rightarrow> name \<Rightarrow> db \<Rightarrow> db" where
  "del_edge p nm db = db\<lparr>t_edge := del edge_key (p, nm) (t_edge db)\<rparr>"

definition upd_edge :: "Ino \<Rightarrow> name \<Rightarrow> (edge_row \<Rightarrow> edge_row) \<Rightarrow> db \<Rightarrow> db" where
  "upd_edge p nm f db = db\<lparr>t_edge := upd edge_key (p, nm) f (t_edge db)\<rparr>"

definition count_children :: "db \<Rightarrow> Ino \<Rightarrow> nat" where
  "count_children db p = cnt (\<lambda>e. ed_parent e = p) (t_edge db)"

definition ins_symlink :: "Ino \<Rightarrow> string \<Rightarrow> db \<Rightarrow> db option" where
  "ins_symlink i tgt db = (case sel sy_inode i (t_symlink db) of
      None \<Rightarrow> Some (db\<lparr>t_symlink := t_symlink db @ [\<lparr>sy_inode = i, sy_target = tgt\<rparr>]\<rparr>)
    | Some _ \<Rightarrow> None)"

definition del_symlink :: "Ino \<Rightarrow> db \<Rightarrow> db" where
  "del_symlink i db = db\<lparr>t_symlink := del sy_inode i (t_symlink db)\<rparr>"

definition del_slices :: "Ino \<Rightarrow> db \<Rightarrow> db" where
  "del_slices i db = db\<lparr>t_slice_ref := del sr_inode i (t_slice_ref db)\<rparr>"

definition del_xattrs :: "Ino \<Rightarrow> db \<Rightarrow> db" where
  "del_xattrs i db = db\<lparr>t_xattr := del x_inode i (t_xattr db)\<rparr>"

text \<open>
  INSERT INTO slice_ref ... ON CONFLICT (inode, slice_id) DO NOTHING of a list of candidate rows: a
  candidate whose key is present is skipped, the others get the next ids of the sequence.
\<close>

fun ins_slices :: "slice_row list \<Rightarrow> db \<Rightarrow> db" where
  "ins_slices [] db = db"
| "ins_slices (r # rs) db =
    (case sel slice_key (slice_key r) (t_slice_ref db) of
       Some _ \<Rightarrow> ins_slices rs db
     | None \<Rightarrow> ins_slices rs (db\<lparr>t_slice_ref := t_slice_ref db @ [r\<lparr>sr_id := q_slice_ref db\<rparr>],
                               q_slice_ref := Suc (q_slice_ref db)\<rparr>))"

text \<open>The value range of an INTEGER column.\<close>

definition int4 :: "int \<Rightarrow> bool" where
  "int4 v \<longleftrightarrow> - (2 ^ 31) \<le> v \<and> v < 2 ^ 31"

text \<open>The value range of a BIGINT column.\<close>

definition int8 :: "int \<Rightarrow> bool" where
  "int8 v \<longleftrightarrow> - (2 ^ 63) \<le> v \<and> v < 2 ^ 63"

definition touch :: "int \<Rightarrow> int \<Rightarrow> node_row \<Rightarrow> node_row" where
  "touch ts nsec r = r\<lparr>n_mtime := ts, n_ctime := ts, n_mtimensec := nsec, n_ctimensec := nsec\<rparr>"

definition touch_c :: "int \<Rightarrow> int \<Rightarrow> node_row \<Rightarrow> node_row" where
  "touch_c ts nsec r = r\<lparr>n_ctime := ts, n_ctimensec := nsec\<rparr>"

text \<open>\<open>appendChangelog\<close>: one row per mutation, with the next LSN of the sequence.\<close>

definition appendChangelog :: "int \<Rightarrow> Ino \<Rightarrow> changeop \<Rightarrow> payload \<Rightarrow> db \<Rightarrow> db" where
  "appendChangelog now i op p db =
    db\<lparr>t_changelog := t_changelog db @
         [\<lparr>ch_lsn = q_changelog db, ch_ino = i, ch_op = op_code op, ch_payload = p, ch_ts = now\<rparr>],
       q_changelog := Suc (q_changelog db)\<rparr>"

lemmas [stmt_defs] =
  upd_node_def del_node_def ins_node_def ins_edge_def del_edge_def upd_edge_def
  ins_symlink_def del_symlink_def del_slices_def del_xattrs_def appendChangelog_def

section \<open>Reading attributes\<close>

definition scanAttr :: "node_row \<Rightarrow> Attr" where
  "scanAttr r =
    \<lparr>a_typ = n_type r, a_mode = n_mode r, a_uid = n_uid r, a_gid = n_gid r,
     a_atime = n_atime r, a_mtime = n_mtime r, a_ctime = n_ctime r,
     a_atimensec = word_of_int (n_atimensec r), a_mtimensec = word_of_int (n_mtimensec r), a_ctimensec = word_of_int (n_ctimensec r),
     a_nlink = word_of_int (n_nlink r), a_length = word_of_int (n_length r), a_rdev = n_rdev r,
     a_parent = n_parent r, a_storeClass = n_store_class r, a_contentHash = n_content_hash r,
     a_full = True\<rparr>"

definition getAttr :: "db \<Rightarrow> Ino \<Rightarrow> Attr option" where
  "getAttr db i = map_option scanAttr (sel_node db i)"

lemma getAttr_Some: "getAttr db i = Some a \<longleftrightarrow> (\<exists>r. sel_node db i = Some r \<and> a = scanAttr r)"
  by (auto simp: getAttr_def)

lemma a_typ_scanAttr [simp]: "a_typ (scanAttr r) = n_type r"
  by (simp add: scanAttr_def)

lemma a_length_scanAttr [simp]: "a_length (scanAttr r) = word_of_int (n_length r)"
  by (simp add: scanAttr_def)

end
