(* ===== verification/Meta_Engine.thy ===== *)
theory Meta_Engine
  imports Meta_Db
begin

text \<open>
  The engine of mlfs/internal/meta/engine.go: its in-memory state, the bootstrap of a fresh database
  (schema.go), and the allocation of inode numbers and slice ids from shared counters.

  A \<open>sys\<close> is one mount's view: the shared database, this mount's engine, the fault schedule of its
  next SQL statements and its clock in nanoseconds.  The metrics recorder, the logger and the mutexes
  of the Go struct are not part of the state; one operation is one step.
\<close>

section \<open>State\<close>

record heldLease =
  h_gen :: int
  h_localExpiry :: int

record SQLOwner =
  o_nodeID :: string
  o_ttl :: int
  o_refresh :: int
  o_held :: "(string \<times> heldLease) list"

text \<open>The two \<^verbatim>\<open>OwnerView\<close> implementations of package meta.\<close>

datatype owner = NoopOwner | SqlOwner SQLOwner

record engine =
  e_prefix :: u16
  e_inoNext :: u64
  e_inoEnd :: u64
  e_sliceNext :: u64
  e_sliceEnd :: u64
  e_openRefs :: "Ino \<Rightarrow> nat"
  e_sustained :: "Ino set"
  e_nodeID :: string
  e_owner :: owner
  e_scopeCache :: "Ino \<Rightarrow> string option"

record sys =
  s_db :: db
  s_eng :: engine
  s_faults :: faults
  s_now :: int

text \<open>
  \<^verbatim>\<open>Open\<close>: region in the high byte of the prefix, a random session byte in the low one; the engine
  starts in single-node mode with no reserved batch.
\<close>

definition Open_engine :: "u8 \<Rightarrow> u8 \<Rightarrow> engine" where
  "Open_engine region session =
    \<lparr>e_prefix = or (push_bit 8 (ucast region)) (ucast session), e_inoNext = 0, e_inoEnd = 0,
     e_sliceNext = 0, e_sliceEnd = 0, e_openRefs = (\<lambda>_. 0), e_sustained = {}, e_nodeID = '''',
     e_owner = NoopOwner, e_scopeCache = (\<lambda>_. None)\<rparr>"

definition SetCoordinator :: "string \<Rightarrow> owner option \<Rightarrow> engine \<Rightarrow> engine" where
  "SetCoordinator nid o' e =
    e\<lparr>e_nodeID := nid, e_owner := (case o' of None \<Rightarrow> NoopOwner | Some w \<Rightarrow> w)\<rparr>"

text \<open>The readings of the clock the code takes: seconds, nanoseconds of the second, milliseconds.\<close>

definition unix_s :: "int \<Rightarrow> int" where
  "unix_s now = now div 1000000000"

definition unix_ns :: "int \<Rightarrow> int" where
  "unix_ns now = now mod 1000000000"

definition unix_ms :: "int \<Rightarrow> int" where
  "unix_ms now = now div 1000000"

section \<open>Running statements and transactions\<close>

definition run_stmt :: "(db \<Rightarrow> ('a \<times> db) option) \<Rightarrow> sys \<Rightarrow> 'a option \<times> sys" where
  "run_stmt st s = (case autocommit st (s_faults s) (s_db s) of
      (r, fs, db) \<Rightarrow> (r, s\<lparr>s_db := db, s_faults := fs\<rparr>))"

definition run_tx :: "(db, 'a) tx \<Rightarrow> sys \<Rightarrow> (txerr + 'a) \<times> sys" where
  "run_tx m s = (case withTx m (s_faults s) (s_db s) of
      (r, fs, db) \<Rightarrow> (r, s\<lparr>s_db := db, s_faults := fs\<rparr>))"

lemma run_tx_frame [simp]:
  assumes "run_tx m s = (r, s')"
  shows "s_eng s' = s_eng s" and "s_now s' = s_now s"
  using assms by (auto simp: run_tx_def split: prod.splits)

lemma run_stmt_frame [simp]:
  assumes "run_stmt st s = (r, s')"
  shows "s_eng s' = s_eng s" and "s_now s' = s_now s"
  using assms by (auto simp: run_stmt_def split: prod.splits)

lemma run_tx_atomic: "run_tx m s = (Inl e, s') \<Longrightarrow> s_db s' = s_db s"
  by (auto simp: run_tx_def split: prod.splits dest: withTx_atomic)

lemma run_tx_commit:
  assumes "fault_mono m" and "run_tx m s = (Inr x, s')"
  shows "m [] (s_db s) = (Inr (x, s_db s'), [])"
  using assms by (auto simp: run_tx_def split: prod.splits dest: withTx_commit)

lemma run_tx_nofault:
  assumes "s_faults s = []" and "m [] (s_db s) = (q, [])"
  shows "run_tx m s = (case q of Inl e \<Rightarrow> (Inl e, s) | Inr (x, db) \<Rightarrow> (Inr x, s\<lparr>s_db := db\<rparr>))"
proof (cases s)
  case (fields db eng fs now)
  then show ?thesis using assms by (cases q) (auto simp: run_tx_def withTx_def split: prod.splits)
qed

lemma run_stmt_Some:
  "run_stmt st s = (Some x, s') \<Longrightarrow> st (s_db s) = Some (x, s_db s')"
  by (auto simp: run_stmt_def autocommit_def split: prod.splits if_splits option.splits)

lemma run_stmt_None: "run_stmt st s = (None, s') \<Longrightarrow> s_db s' = s_db s"
  by (auto simp: run_stmt_def autocommit_def split: prod.splits if_splits option.splits)

lemma run_stmt_read:
  "run_stmt (\<lambda>db. Some (q db, db)) s = (r, s') \<Longrightarrow> s_db s' = s_db s"
  by (auto simp: run_stmt_def autocommit_def split: prod.splits if_splits)

section \<open>Bootstrap\<close>

text \<open>
  \<open>bootstrap\<close>: seed the root directory and the two counters of a database unless present.
\<close>

definition root_row :: "int \<Rightarrow> node_row" where
  "root_row ts = \<lparr>n_inode = RootInode, n_type = TypeDirectory, n_mode = 511, n_uid = 0, n_gid = 0,
     n_atime = ts, n_mtime = ts, n_ctime = ts, n_atimensec = 0, n_mtimensec = 0, n_ctimensec = 0,
     n_nlink = 2, n_length = 0, n_rdev = 0, n_parent = RootInode, n_store_class = 0,
     n_content_hash = ''''\<rparr>"

definition seed_node :: "node_row \<Rightarrow> db \<Rightarrow> db" where
  "seed_node r db = (case ins_node r db of None \<Rightarrow> db | Some db' \<Rightarrow> db')"

definition seed_counter :: "string \<Rightarrow> int \<Rightarrow> db \<Rightarrow> db" where
  "seed_counter nm v db = (case sel ct_name nm (t_counter db) of
      Some _ \<Rightarrow> db
    | None \<Rightarrow> db\<lparr>t_counter := t_counter db @ [\<lparr>ct_name = nm, ct_value = v\<rparr>]\<rparr>)"

definition bootstrap_tx :: "int \<Rightarrow> (db, unit) tx" where
  "bootstrap_tx now =
    exec (seed_node (root_row (unix_s now)))
   (exec (seed_counter ''nextinode'' (sint RootInode + 1))
   (exec (seed_counter ''nextslice'' 1)
   (tx_ret ())))"

definition bootstrap :: "sys \<Rightarrow> bool \<times> sys" where
  "bootstrap s = (case run_tx (bootstrap_tx (s_now s)) s of (r, s') \<Rightarrow> (\<not> isl r, s'))"

section \<open>Batched allocation\<close>

definition inodeBatch :: int where
  "inodeBatch = 1024"

text \<open>UPDATE mlfs_counter SET value = value + 1024 WHERE name = ... RETURNING value; value is a BIGINT.\<close>

definition bump_counter :: "string \<Rightarrow> db \<Rightarrow> (int \<times> db) option" where
  "bump_counter nm db = (case sel ct_name nm (t_counter db) of
      None \<Rightarrow> None
    | Some c \<Rightarrow>
        if int8 (ct_value c + inodeBatch)
        then Some (ct_value c + inodeBatch,
          db\<lparr>t_counter := upd ct_name nm (\<lambda>r. r\<lparr>ct_value := ct_value r + inodeBatch\<rparr>) (t_counter db)\<rparr>)
        else None)"

text \<open>The counter part of \<open>nextInode\<close>: refill the batch when it is used up, then take one value.\<close>

definition takeIno :: "sys \<Rightarrow> u64 option \<times> sys" where
  "takeIno s =
    (let e = s_eng s in
     if e_inoNext e < e_inoEnd e
     then (Some (e_inoNext e), s\<lparr>s_eng := e\<lparr>e_inoNext := e_inoNext e + 1\<rparr>\<rparr>)
     else (case run_stmt (bump_counter ''nextinode'') s of
         (None, s') \<Rightarrow> (None, s')
       | (Some fin, s') \<Rightarrow>
           let c = word_of_int fin - word_of_int inodeBatch in
           (Some c, s'\<lparr>s_eng := e\<lparr>e_inoEnd := word_of_int fin, e_inoNext := c + 1\<rparr>\<rparr>)))"

definition inoLowMask :: u64 where
  "inoLowMask = push_bit 48 1 - 1"

definition compose_ino :: "u16 \<Rightarrow> u64 \<Rightarrow> Ino" where
  "compose_ino prefix c = or (push_bit 48 (ucast prefix)) (and c inoLowMask)"

definition nextInode :: "sys \<Rightarrow> Ino option \<times> sys" where
  "nextInode s = (case takeIno s of
      (None, s') \<Rightarrow> (None, s')
    | (Some c, s') \<Rightarrow> (Some (compose_ino (e_prefix (s_eng s')) c), s'))"

definition NewSlice :: "sys \<Rightarrow> u64 option \<times> sys" where
  "NewSlice s =
    (let e = s_eng s in
     if e_sliceNext e < e_sliceEnd e
     then (Some (e_sliceNext e), s\<lparr>s_eng := e\<lparr>e_sliceNext := e_sliceNext e + 1\<rparr>\<rparr>)
     else (case run_stmt (bump_counter ''nextslice'') s of
         (None, s') \<Rightarrow> (None, s')
       | (Some fin, s') \<Rightarrow>
           let c = word_of_int fin - word_of_int inodeBatch in
           (Some c, s'\<lparr>s_eng := e\<lparr>e_sliceEnd := word_of_int fin, e_sliceNext := c + 1\<rparr>\<rparr>)))"

end
