(* ===== verification/Meta_Owner.thy ===== *)
theory Meta_Owner
  imports Meta_Engine
begin

text \<open>
  Ownership leases and fencing: ownership.go (the lease table), sqlowner.go (the SQL-backed
  \<^verbatim>\<open>OwnerView\<close>), scope.go (the scope of an inode) and fence.go (the guard of every mutating
  transaction) of mlfs/internal/meta.

  Lease times are milliseconds and generations are counters, both integers; the clock \<open>s_now\<close> is in
  nanoseconds and constant during one call.
\<close>

section \<open>Leases\<close>

text \<open>
  \<open>AcquireOrResume\<close>: take a free or expired scope, renew an own one, report a live foreign one.  Generations and times
  are \<open>int64\<close> in the code and integers here: the model is that of fewer than \<open>2 ^ 63\<close> steals of a scope.
\<close>

definition ins_lease :: "Lease \<Rightarrow> db \<Rightarrow> db option" where
  "ins_lease l db = (case sel le_scope (le_scope l) (t_ownership db) of
      None \<Rightarrow> Some (db\<lparr>t_ownership := t_ownership db @ [l]\<rparr>) | Some _ \<Rightarrow> None)"

definition upd_lease :: "string \<Rightarrow> (Lease \<Rightarrow> Lease) \<Rightarrow> db \<Rightarrow> db" where
  "upd_lease k f db = db\<lparr>t_ownership := upd le_scope k f (t_ownership db)\<rparr>"

definition AcquireOrResume_tx :: "string \<Rightarrow> string \<Rightarrow> int \<Rightarrow> int \<Rightarrow> (db, Lease \<times> bool) tx" where
  "AcquireOrResume_tx scopeKey node nowMs expires =
    query (\<lambda>db. sel le_scope scopeKey (t_ownership db)) (\<lambda>cur.
      case cur of
        None \<Rightarrow>
          let l = \<lparr>le_scope = scopeKey, le_owner = node, le_expires = expires, le_generation = 1\<rparr> in
          exec_may (ins_lease l) (tx_ret (l, True))
      | Some c \<Rightarrow>
          if le_owner c = node then
            exec (upd_lease scopeKey (\<lambda>r. r\<lparr>le_expires := expires\<rparr>))
              (tx_ret (c\<lparr>le_expires := expires\<rparr>, True))
          else if le_expires c < nowMs then
            (let gen = le_generation c + 1 in
             exec (upd_lease scopeKey (\<lambda>r. r\<lparr>le_owner := node, le_expires := expires, le_generation := gen\<rparr>))
               (tx_ret (\<lparr>le_scope = scopeKey, le_owner = node, le_expires = expires, le_generation = gen\<rparr>, True)))
          else tx_ret (c, False))"

definition AcquireOrResume :: "string \<Rightarrow> string \<Rightarrow> int \<Rightarrow> sys \<Rightarrow> (Lease \<times> bool) option \<times> sys" where
  "AcquireOrResume scopeKey node ttlMs s =
    (let nowMs = unix_ms (s_now s) in
     case run_tx (AcquireOrResume_tx scopeKey node nowMs (nowMs + ttlMs)) s of
       (Inl _, s') \<Rightarrow> (None, s')
     | (Inr r, s') \<Rightarrow> (Some r, s'))"

text \<open>
  \<open>Refresh\<close> and \<open>ReleaseOwnership\<close>: an UPDATE guarded by owner and generation; the result says whether
  one row matched, \<open>None\<close> is an error of the server.
\<close>

definition set_expiry_if :: "string \<Rightarrow> string \<Rightarrow> int \<Rightarrow> int \<Rightarrow> db \<Rightarrow> (bool \<times> db) option" where
  "set_expiry_if scopeKey node generation expires db =
    (let hit = (\<lambda>l. le_scope l = scopeKey \<and> le_owner l = node \<and> le_generation l = generation) in
     Some (cnt hit (t_ownership db) = 1,
       db\<lparr>t_ownership := map (\<lambda>l. if hit l then l\<lparr>le_expires := expires\<rparr> else l) (t_ownership db)\<rparr>))"

definition Refresh :: "string \<Rightarrow> string \<Rightarrow> int \<Rightarrow> int \<Rightarrow> sys \<Rightarrow> bool option \<times> sys" where
  "Refresh scopeKey node generation ttlMs s =
    run_stmt (set_expiry_if scopeKey node generation (unix_ms (s_now s) + ttlMs)) s"

definition ReleaseOwnership :: "string \<Rightarrow> string \<Rightarrow> int \<Rightarrow> sys \<Rightarrow> bool option \<times> sys" where
  "ReleaseOwnership scopeKey node generation s =
    run_stmt (set_expiry_if scopeKey node generation 0) s"

definition Fenced :: "string \<Rightarrow> int \<Rightarrow> sys \<Rightarrow> bool option \<times> sys" where
  "Fenced scopeKey generation s =
    run_stmt (\<lambda>db. Some (case sel le_scope scopeKey (t_ownership db) of
        None \<Rightarrow> False | Some l \<Rightarrow> le_generation l = generation, db)) s"

section \<open>The SQL-backed owner\<close>

definition NewSQLOwner :: "string \<Rightarrow> int \<Rightarrow> int \<Rightarrow> SQLOwner" where
  "NewSQLOwner nodeID ttl refresh =
    (let ttl = (if ttl \<le> 0 then 30 * 1000000000 else ttl);
         refresh = (if refresh \<le> 0 \<or> ttl \<le> refresh then ttl div 3 else refresh)
     in \<lparr>o_nodeID = nodeID, o_ttl = ttl, o_refresh = refresh, o_held = []\<rparr>)"

definition set_held :: "string \<Rightarrow> heldLease \<Rightarrow> (string \<times> heldLease) list \<Rightarrow> (string \<times> heldLease) list" where
  "set_held k l m = (if k \<in> fst ` set m then upd fst k (\<lambda>_. (k, l)) m else m @ [(k, l)])"

definition set_owner :: "SQLOwner \<Rightarrow> sys \<Rightarrow> sys" where
  "set_owner w s = s\<lparr>s_eng := (s_eng s)\<lparr>e_owner := SqlOwner w\<rparr>\<rparr>"

text \<open>The \<^verbatim>\<open>OwnerView\<close> interface: \<open>Enabled\<close>, and \<open>Ensure\<close> with \<open>None\<close> for an error.\<close>

fun Enabled :: "owner \<Rightarrow> bool" where
  "Enabled NoopOwner = False"
| "Enabled (SqlOwner _) = True"

definition SQLOwner_acquire :: "SQLOwner \<Rightarrow> string \<Rightarrow> sys \<Rightarrow> (int \<times> bool) option \<times> sys" where
  "SQLOwner_acquire w scope s =
    (case AcquireOrResume scope (o_nodeID w) (o_ttl w div 1000000) s of
       (None, s') \<Rightarrow> (None, s')
     | (Some (lease, got), s') \<Rightarrow>
         if \<not> got then (Some (0, False), s')
         else (Some (le_generation lease, True),
           set_owner (w\<lparr>o_held := set_held scope
             \<lparr>h_gen = le_generation lease, h_localExpiry = s_now s + o_ttl w\<rparr> (o_held w)\<rparr>) s'))"

definition SQLOwner_Ensure :: "SQLOwner \<Rightarrow> string \<Rightarrow> sys \<Rightarrow> (int \<times> bool) option \<times> sys" where
  "SQLOwner_Ensure w scope s =
    (case sel fst scope (o_held w) of
       Some (_, l) \<Rightarrow>
         if s_now s < h_localExpiry l then (Some (h_gen l, True), s)
         else SQLOwner_acquire w scope s
     | None \<Rightarrow> SQLOwner_acquire w scope s)"

fun Ensure :: "owner \<Rightarrow> string \<Rightarrow> sys \<Rightarrow> (int \<times> bool) option \<times> sys" where
  "Ensure NoopOwner scope s = (Some (0, True), s)"
| "Ensure (SqlOwner w) scope s = SQLOwner_Ensure w scope s"

text \<open>
  One tick of \<open>Run\<close>: refresh every held lease of a snapshot.  A lost lease is dropped; after an error the
  lease is kept but no longer trusted without SQL.
\<close>

fun refresh_scopes :: "(string \<times> heldLease) list \<Rightarrow> SQLOwner \<Rightarrow> sys \<Rightarrow> SQLOwner \<times> sys" where
  "refresh_scopes [] w s = (w, s)"
| "refresh_scopes ((scope, l) # scopes) w s =
    (case Refresh scope (o_nodeID w) (h_gen l) (o_ttl w div 1000000) s of
       (None, s') \<Rightarrow>
         refresh_scopes scopes
           (w\<lparr>o_held := upd fst scope (\<lambda>(k, h). (k, h\<lparr>h_localExpiry := s_now s\<rparr>)) (o_held w)\<rparr>) s'
     | (Some ok, s') \<Rightarrow>
         if \<not> ok then refresh_scopes scopes (w\<lparr>o_held := del fst scope (o_held w)\<rparr>) s'
         else refresh_scopes scopes
           (w\<lparr>o_held := upd fst scope (\<lambda>(k, h). (k, h\<lparr>h_localExpiry := s_now s + o_ttl w\<rparr>)) (o_held w)\<rparr>) s')"

definition refreshAll :: "SQLOwner \<Rightarrow> sys \<Rightarrow> SQLOwner \<times> sys" where
  "refreshAll w s = (case refresh_scopes (o_held w) w s of (w', s') \<Rightarrow> (w', set_owner w' s'))"

definition releaseAll :: "SQLOwner \<Rightarrow> sys \<Rightarrow> SQLOwner \<times> sys" where
  "releaseAll w s = (let w' = w\<lparr>o_held := []\<rparr> in (w', set_owner w' s))"

section \<open>The scope of an inode\<close>

definition rootScopeKey :: string where
  "rootScopeKey = ''root''"

fun FormatUint :: "nat \<Rightarrow> string" where
  "FormatUint n =
    (if n < 10 then [char_of (48 + n)] else FormatUint (n div 10) @ [char_of (48 + n mod 10)])"

declare FormatUint.simps [simp del]

definition scopeKeyForInode :: "Ino \<Rightarrow> string" where
  "scopeKeyForInode first = ''ino:'' @ FormatUint (unat first)"

text \<open>
  The ancestor walk of \<open>scopeOf\<close>.  \<open>None\<close> is a walk that never ends (a cycle of parent columns that avoids
  the root); \<open>Some (None, fs)\<close> is a failed query; \<open>Some (Some (key, memo), fs)\<close> is a key and whether it is
  stored in the cache.
\<close>

partial_function (option) scope_walk ::
  "Ino \<Rightarrow> Ino \<Rightarrow> faults \<Rightarrow> db \<Rightarrow> ((string \<times> bool) option \<times> faults) option" where
  "scope_walk inode cur fs db =
    (if fs \<noteq> [] \<and> hd fs then Some (None, tl fs)
     else case sel_node db cur of
         None \<Rightarrow> Some (Some (scopeKeyForInode inode, False), tl fs)
       | Some r \<Rightarrow>
           if n_parent r = RootInode \<or> n_parent r = cur
           then Some (Some (scopeKeyForInode cur, True), tl fs)
           else scope_walk inode (n_parent r) (tl fs) db)"

definition scopeOf :: "Ino \<Rightarrow> sys \<Rightarrow> (errno + string) \<times> sys" where
  "scopeOf inode s =
    (if inode = RootInode then (Inr rootScopeKey, s)
     else case e_scopeCache (s_eng s) inode of
         Some k \<Rightarrow> (Inr k, s)
       | None \<Rightarrow>
           (case scope_walk inode inode (s_faults s) (s_db s) of
              None \<Rightarrow> (Inl DIVERGES, s)
            | Some (None, fs) \<Rightarrow> (Inl EIO, s\<lparr>s_faults := fs\<rparr>)
            | Some (Some (k, memo), fs) \<Rightarrow>
                (Inr k, s\<lparr>s_faults := fs, s_eng := (if memo
                   then (s_eng s)\<lparr>e_scopeCache := (e_scopeCache (s_eng s))(inode \<mapsto> k)\<rparr>
                   else s_eng s)\<rparr>)))"

definition flushScopeCache :: "sys \<Rightarrow> sys" where
  "flushScopeCache s = s\<lparr>s_eng := (s_eng s)\<lparr>e_scopeCache := (\<lambda>_. None)\<rparr>\<rparr>"

section \<open>The fence\<close>

definition acquireScope :: "Ino \<Rightarrow> sys \<Rightarrow> (errno + string \<times> int) \<times> sys" where
  "acquireScope inode s =
    (if \<not> Enabled (e_owner (s_eng s)) then (Inr ('''', 0), s)
     else case scopeOf inode s of
         (Inl e, s1) \<Rightarrow> (Inl e, s1)
       | (Inr sc, s1) \<Rightarrow>
           (case Ensure (e_owner (s_eng s1)) sc s1 of
              (None, s2) \<Rightarrow> (Inl EIO, s2)
            | (Some (g, held), s2) \<Rightarrow>
                if \<not> held then (Inl ESTALE, s2) else (Inr (sc, g), s2)))"

text \<open>\<open>checkFence\<close> as the predicate it decides on the ownership row, and the guard built on it.\<close>

definition checkFence :: "engine \<Rightarrow> string \<Rightarrow> int \<Rightarrow> db \<Rightarrow> bool" where
  "checkFence e scope gen db =
    (case sel le_scope scope (t_ownership db) of
       None \<Rightarrow> False
     | Some l \<Rightarrow> le_owner l = e_nodeID e \<and> le_generation l = gen)"

definition fenceInTx :: "engine \<Rightarrow> string \<Rightarrow> int \<Rightarrow> (db, 'a) tx \<Rightarrow> (db, 'a) tx" where
  "fenceInTx e scope gen k =
    (if \<not> Enabled (e_owner e) then k
     else query (checkFence e scope gen) (\<lambda>ok. if ok then k else tx_abort ESTALE))"

text \<open>
  The shape of a mutating operation: acquire the scope of an inode, run the fenced body in one
  transaction, map the outcome to an errno.
\<close>

definition fenced_tx :: "Ino \<Rightarrow> (db, 'a) tx \<Rightarrow> sys \<Rightarrow> (errno + 'a) \<times> sys" where
  "fenced_tx inode body s =
    (case acquireScope inode s of
       (Inl e, s1) \<Rightarrow> (Inl e, s1)
     | (Inr (scope, gen), s1) \<Rightarrow>
         (case run_tx (fenceInTx (s_eng s1) scope gen body) s1 of (r, s2) \<Rightarrow> (tx_errno r, s2)))"

section \<open>Frames\<close>

text \<open>Everything up to the fenced transaction leaves all tables but the leases alone.\<close>

definition same_but_leases :: "db \<Rightarrow> db \<Rightarrow> bool" where
  "same_but_leases db db' \<longleftrightarrow> db' = db\<lparr>t_ownership := t_ownership db'\<rparr>"

lemma same_but_leases_refl [simp, intro!]: "same_but_leases db db"
  by (simp add: same_but_leases_def)

lemma same_but_leases_trans:
  "same_but_leases a b \<Longrightarrow> same_but_leases b c \<Longrightarrow> same_but_leases a c"
  unfolding same_but_leases_def
  by (metis (no_types, lifting) db.surjective db.update_convs(8))

lemma same_but_leases_upd [simp]: "same_but_leases db (db\<lparr>t_ownership := x\<rparr>)"
  by (simp add: same_but_leases_def)

text \<open>The part of a mount's state that \<open>acquireScope\<close> may not touch.\<close>

definition same_mount :: "sys \<Rightarrow> sys \<Rightarrow> bool" where
  "same_mount s s' \<longleftrightarrow> same_but_leases (s_db s) (s_db s') \<and> s_now s' = s_now s \<and>
     (\<exists>w c. s_eng s' = (s_eng s)\<lparr>e_owner := w, e_scopeCache := c\<rparr> \<and> Enabled w = Enabled (e_owner (s_eng s)))"

lemma same_mountI:
  "same_but_leases (s_db s) (s_db s') \<Longrightarrow> s_now s' = s_now s \<Longrightarrow>
   s_eng s' = (s_eng s)\<lparr>e_owner := w, e_scopeCache := c\<rparr> \<Longrightarrow> Enabled w = Enabled (e_owner (s_eng s)) \<Longrightarrow>
   same_mount s s'"
  unfolding same_mount_def by blast

lemma same_mount_refl [simp, intro!]: "same_mount s s"
  by (rule same_mountI [where w = "e_owner (s_eng s)" and c = "e_scopeCache (s_eng s)"]) simp_all

lemma same_mount_trans:
  assumes ab: "same_mount a b" and bc: "same_mount b c"
  shows "same_mount a c"
proof -
  obtain w k where 1: "s_eng b = (s_eng a)\<lparr>e_owner := w, e_scopeCache := k\<rparr>" "Enabled w = Enabled (e_owner (s_eng a))"
    using ab unfolding same_mount_def by blast
  obtain w' k' where 2: "s_eng c = (s_eng b)\<lparr>e_owner := w', e_scopeCache := k'\<rparr>" "Enabled w' = Enabled (e_owner (s_eng b))"
    using bc unfolding same_mount_def by blast
  have "s_eng c = (s_eng a)\<lparr>e_owner := w', e_scopeCache := k'\<rparr>" "Enabled w' = Enabled (e_owner (s_eng a))"
    using 1 2 by simp_all
  moreover have "same_but_leases (s_db a) (s_db c)" "s_now c = s_now a"
    using ab bc same_but_leases_trans unfolding same_mount_def by auto
  ultimately show ?thesis unfolding same_mount_def by blast
qed

lemma AcquireOrResume_tx_mono: "fault_mono (AcquireOrResume_tx k n now ex)"
  unfolding AcquireOrResume_tx_def by (intro fault_intros)

lemma AcquireOrResume_run:
  assumes "AcquireOrResume k n ttl s = (Some r, s')"
  shows "AcquireOrResume_tx k n (unix_ms (s_now s)) (unix_ms (s_now s) + ttl) [] (s_db s) = (Inr (r, s_db s'), [])"
    and "s_eng s' = s_eng s" and "s_now s' = s_now s"
proof -
  let ?tx = "AcquireOrResume_tx k n (unix_ms (s_now s)) (unix_ms (s_now s) + ttl)"
  obtain q s1 where run: "run_tx ?tx s = (q, s1)" by (rule prod.exhaust)
  with assms have "q = Inr r" and "s1 = s'"
    by (simp_all add: AcquireOrResume_def Let_def split: sum.splits)
  with run have run: "run_tx ?tx s = (Inr r, s')" by simp
  show "?tx [] (s_db s) = (Inr (r, s_db s'), [])"
    by (rule run_tx_commit [OF AcquireOrResume_tx_mono run])
  show "s_eng s' = s_eng s" and "s_now s' = s_now s" using run_tx_frame [OF run] by auto
qed

lemma AcquireOrResume_err:
  assumes "AcquireOrResume k n ttl s = (None, s')"
  shows "s_db s' = s_db s" and "s_eng s' = s_eng s" and "s_now s' = s_now s"
proof -
  let ?tx = "AcquireOrResume_tx k n (unix_ms (s_now s)) (unix_ms (s_now s) + ttl)"
  obtain q s1 where run: "run_tx ?tx s = (q, s1)" by (rule prod.exhaust)
  with assms obtain e where "q = Inl e" and "s1 = s'"
    by (cases q) (simp_all add: AcquireOrResume_def Let_def)
  with run have run: "run_tx ?tx s = (Inl e, s')" by simp
  show "s_db s' = s_db s" by (rule run_tx_atomic [OF run])
  show "s_eng s' = s_eng s" and "s_now s' = s_now s" using run_tx_frame [OF run] by auto
qed

text \<open>The four outcomes of \<open>AcquireOrResume\<close> on the lease table.\<close>

lemma AcquireOrResume_tx_cases:
  assumes "AcquireOrResume_tx k n now ex [] db = (Inr ((l, held), db'), [])"
  obtains (free) "sel le_scope k (t_ownership db) = None"
      "l = \<lparr>le_scope = k, le_owner = n, le_expires = ex, le_generation = 1\<rparr>" "held"
      "db' = db\<lparr>t_ownership := t_ownership db @ [l]\<rparr>"
  | (own) c where "sel le_scope k (t_ownership db) = Some c" "le_owner c = n"
      "l = c\<lparr>le_expires := ex\<rparr>" "held" "db' = upd_lease k (\<lambda>r. r\<lparr>le_expires := ex\<rparr>) db"
  | (steal) c where "sel le_scope k (t_ownership db) = Some c" "le_owner c \<noteq> n" "le_expires c < now" "held"
      "l = \<lparr>le_scope = k, le_owner = n, le_expires = ex, le_generation = le_generation c + 1\<rparr>"
      "db' = upd_lease k (\<lambda>r. r\<lparr>le_owner := n, le_expires := ex, le_generation := le_generation c + 1\<rparr>) db"
  | (foreign) c where "sel le_scope k (t_ownership db) = Some c" "le_owner c \<noteq> n" "now \<le> le_expires c"
      "l = c" "\<not> held" "db' = db"
proof (cases "sel le_scope k (t_ownership db)")
  case None
  with assms show ?thesis
    by (intro free) (auto simp: AcquireOrResume_tx_def tx_simps ins_lease_def Let_def)
next
  case (Some c)
  note run = assms [unfolded AcquireOrResume_tx_def Let_def query_ok Some option.case]
  show ?thesis
  proof (cases "le_owner c = n")
    case True
    with run have "l = c\<lparr>le_expires := ex\<rparr>" "held" "db' = upd_lease k (\<lambda>r. r\<lparr>le_expires := ex\<rparr>) db"
      by (simp_all add: tx_simps)
    with Some True show ?thesis by (rule own)
  next
    case foreign_row: False
    show ?thesis
    proof (cases "le_expires c < now")
      case True
      with run foreign_row show ?thesis
        by (intro steal [OF Some foreign_row True]) (simp_all add: tx_simps)
    next
      case False
      with run foreign_row show ?thesis
        by (intro foreign [OF Some foreign_row]) (simp_all add: tx_simps)
    qed
  qed
qed

lemma scopeOf_same_mount: "scopeOf i s = (r, s') \<Longrightarrow> same_mount s s' \<and> s_db s' = s_db s"
proof -
  assume a: "scopeOf i s = (r, s')"
  have upd: "same_mount s (s\<lparr>s_faults := fs, s_eng := (s_eng s)\<lparr>e_scopeCache := c\<rparr>\<rparr>)" for fs c
    by (rule same_mountI [where w = "e_owner (s_eng s)" and c = c]) simp_all
  have id: "same_mount s (s\<lparr>s_faults := fs, s_eng := s_eng s\<rparr>)" for fs
    using upd [of "e_scopeCache (s_eng s)" fs] by simp
  have id': "same_mount s (s\<lparr>s_faults := fs\<rparr>)" for fs
    using id [of fs] by simp
  show ?thesis
    using a upd id id' by (auto simp: scopeOf_def split: if_splits option.splits prod.splits)
qed

lemma set_owner_same_mount:
  assumes "e_owner (s_eng s) = SqlOwner w0"
  shows "same_mount s (set_owner w s)"
  using assms
  by (intro same_mountI [where w = "SqlOwner w" and c = "e_scopeCache (s_eng s)"]) (simp_all add: set_owner_def)

lemma same_db_same_mount:
  "same_but_leases (s_db s) (s_db s') \<Longrightarrow> s_eng s' = s_eng s \<Longrightarrow> s_now s' = s_now s \<Longrightarrow> same_mount s s'"
  using same_mount_refl [of s] unfolding same_mount_def by simp

lemma AcquireOrResume_same_mount:
  assumes "AcquireOrResume k n ttl s = (r, s')"
  shows "same_mount s s'"
proof (cases r)
  case None
  then show ?thesis
    using AcquireOrResume_err assms by (intro same_db_same_mount) auto
next
  case (Some p)
  obtain l held where p: "p = (l, held)" by (rule prod.exhaust)
  note run = AcquireOrResume_run [OF assms [unfolded Some p]]
  from run(1) have "same_but_leases (s_db s) (s_db s')"
    by (rule AcquireOrResume_tx_cases) (simp_all add: upd_lease_def)
  with run(2,3) show ?thesis by (intro same_db_same_mount)
qed

lemma SQLOwner_acquire_same_mount:
  assumes own: "e_owner (s_eng s) = SqlOwner w" and "SQLOwner_acquire w k s = (r, s')"
  shows "same_mount s s'"
proof -
  obtain q s1 where acq: "AcquireOrResume k (o_nodeID w) (o_ttl w div 1000000) s = (q, s1)" by (rule prod.exhaust)
  have m: "same_mount s s1" by (rule AcquireOrResume_same_mount [OF acq])
  have "s_eng s1 = s_eng s"
    using AcquireOrResume_run(2) AcquireOrResume_err(2) acq by (cases q) auto
  then have o1: "e_owner (s_eng s1) = SqlOwner w" using own by simp
  show ?thesis
    using assms(2) acq m same_mount_trans [OF m set_owner_same_mount [OF o1]]
    by (auto simp: SQLOwner_acquire_def split: option.splits prod.splits if_splits)
qed

lemma Ensure_same_mount:
  assumes "Ensure (e_owner (s_eng s)) k s = (r, s')"
  shows "same_mount s s'"
proof (cases "e_owner (s_eng s)")
  case NoopOwner
  with assms show ?thesis by simp
next
  case (SqlOwner w)
  with assms have "s' = s \<or> SQLOwner_acquire w k s = (r, s')"
    by (auto simp: SQLOwner_Ensure_def split: option.splits prod.splits if_splits)
  then show ?thesis using SQLOwner_acquire_same_mount [OF SqlOwner] by auto
qed

lemma acquireScope_same_mount:
  assumes "acquireScope i s = (r, s')"
  shows "same_mount s s'"
proof (cases "Enabled (e_owner (s_eng s))")
  case False
  with assms show ?thesis by (simp add: acquireScope_def)
next
  case True
  obtain q s1 where sc: "scopeOf i s = (q, s1)" by (rule prod.exhaust)
  have m1: "same_mount s s1" using scopeOf_same_mount [OF sc] by simp
  show ?thesis
  proof (cases q)
    case (Inl e)
    with assms True sc m1 show ?thesis by (simp add: acquireScope_def)
  next
    case (Inr k)
    obtain h s2 where en: "Ensure (e_owner (s_eng s1)) k s1 = (h, s2)" by (rule prod.exhaust)
    have "same_mount s s2" by (rule same_mount_trans [OF m1 Ensure_same_mount [OF en]])
    with assms True sc Inr en show ?thesis
      by (auto simp: acquireScope_def split: option.splits prod.splits if_splits)
  qed
qed

section \<open>Rules for fenced operations\<close>

lemma same_mount_simps:
  assumes "same_mount s s'"
  shows "s_now s' = s_now s" "e_nodeID (s_eng s') = e_nodeID (s_eng s)"
    "e_openRefs (s_eng s') = e_openRefs (s_eng s)" "e_sustained (s_eng s') = e_sustained (s_eng s)"
    "Enabled (e_owner (s_eng s')) = Enabled (e_owner (s_eng s))" "same_but_leases (s_db s) (s_db s')"
    "e_inoNext (s_eng s') = e_inoNext (s_eng s)" "e_inoEnd (s_eng s') = e_inoEnd (s_eng s)"
  using assms unfolding same_mount_def by auto

lemma same_but_leases_simps:
  assumes "same_but_leases d d'"
  shows "t_node d' = t_node d" "t_edge d' = t_edge d" "t_symlink d' = t_symlink d"
    "t_slice_ref d' = t_slice_ref d" "t_flock d' = t_flock d" "t_plock d' = t_plock d"
    "t_xattr d' = t_xattr d" "t_changelog d' = t_changelog d" "t_counter d' = t_counter d"
    "q_slice_ref d' = q_slice_ref d" "q_changelog d' = q_changelog d"
    "sel_node d' = sel_node d" "sel_edge d' = sel_edge d" "getAttr d' = getAttr d"
proof -
  obtain x where d: "d' = d\<lparr>t_ownership := x\<rparr>" using assms unfolding same_but_leases_def by blast
  show "t_node d' = t_node d" "t_edge d' = t_edge d" "t_symlink d' = t_symlink d"
    "t_slice_ref d' = t_slice_ref d" "t_flock d' = t_flock d" "t_plock d' = t_plock d"
    "t_xattr d' = t_xattr d" "t_changelog d' = t_changelog d" "t_counter d' = t_counter d"
    "q_slice_ref d' = q_slice_ref d" "q_changelog d' = q_changelog d"
    "sel_node d' = sel_node d" "sel_edge d' = sel_edge d" "getAttr d' = getAttr d"
    by (simp_all add: d sel_node_def sel_edge_def getAttr_def fun_eq_iff)
qed

lemma fenceInTx_mono [fault_intros]: "fault_mono k \<Longrightarrow> fault_mono (fenceInTx e scope gen k)"
  unfolding fenceInTx_def by (intro fault_intros)

lemma fenceInTx_commit:
  assumes "fenceInTx e scope gen k [] db = (Inr r, fs)"
  shows "k [] db = (Inr r, fs)" and "Enabled (e_owner e) \<Longrightarrow> checkFence e scope gen db"
  using assms by (auto simp: fenceInTx_def tx_simps split: if_splits)

lemma run_fenced_commit:
  assumes "fault_mono k" and "run_tx (fenceInTx e scope gen k) s = (Inr x, s')"
  shows "k [] (s_db s) = (Inr (x, s_db s'), [])"
    and "Enabled (e_owner e) \<Longrightarrow> checkFence e scope gen (s_db s)"
  using fenceInTx_commit [OF run_tx_commit [OF fenceInTx_mono [OF assms(1)] assms(2)]] by auto

lemma tx_errno_iff [simp]:
  "tx_errno r = Inr x \<longleftrightarrow> r = Inr x"
  by (auto simp: tx_errno_def split: sum.splits txerr.splits)

text \<open>A failed operation leaves the tables alone (except that leases may have been renewed).\<close>

lemma fenced_tx_err:
  assumes "fenced_tx i body s = (Inl e, s')"
  shows "same_mount s s'"
proof -
  obtain q s1 where acq: "acquireScope i s = (q, s1)" by (rule prod.exhaust)
  have m: "same_mount s s1" by (rule acquireScope_same_mount [OF acq])
  show ?thesis
  proof (cases q)
    case (Inl e')
    with assms acq m show ?thesis by (simp add: fenced_tx_def)
  next
    case (Inr p)
    obtain scope gen where p: "p = (scope, gen)" by (rule prod.exhaust)
    obtain t s2 where run: "run_tx (fenceInTx (s_eng s1) scope gen body) s1 = (t, s2)" by (rule prod.exhaust)
    with assms acq Inr p have t: "tx_errno t = Inl e" and "s2 = s'" by (simp_all add: fenced_tx_def)
    from t obtain te where "t = Inl te" by (cases t) (auto simp: tx_errno_def)
    with run \<open>s2 = s'\<close> have run: "run_tx (fenceInTx (s_eng s1) scope gen body) s1 = (Inl te, s')" by simp
    have "same_mount s1 s'"
      by (intro same_db_same_mount) (simp_all add: run_tx_frame [OF run] run_tx_atomic [OF run])
    with m show ?thesis by (rule same_mount_trans)
  qed
qed

text \<open>A successful one has the effect of its body on a database that differs in leases only.\<close>

lemma fenced_tx_ok:
  assumes "fault_mono body" and "fenced_tx i body s = (Inr x, s')"
  obtains s1 scope gen where "same_mount s s1" and "body [] (s_db s1) = (Inr (x, s_db s'), [])"
    and "s_eng s' = s_eng s1" and "s_now s' = s_now s1" and "acquireScope i s = (Inr (scope, gen), s1)"
    and "Enabled (e_owner (s_eng s)) \<Longrightarrow> checkFence (s_eng s) scope gen (s_db s1)"
proof -
  obtain q s1 where acq: "acquireScope i s = (q, s1)" by (rule prod.exhaust)
  have m: "same_mount s s1" by (rule acquireScope_same_mount [OF acq])
  from assms(2) acq obtain scope gen where q: "q = Inr (scope, gen)"
    by (cases q) (auto simp: fenced_tx_def)
  obtain t s2 where run: "run_tx (fenceInTx (s_eng s1) scope gen body) s1 = (t, s2)" by (rule prod.exhaust)
  with assms acq q have "t = Inr x" and "s2 = s'" by (simp_all add: fenced_tx_def)
  with run have run: "run_tx (fenceInTx (s_eng s1) scope gen body) s1 = (Inr x, s')" by simp
  note c = run_fenced_commit [OF assms(1) run]
  have "Enabled (e_owner (s_eng s)) \<Longrightarrow> checkFence (s_eng s) scope gen (s_db s1)"
    using c(2) same_mount_simps(2,5) [OF m] by (simp add: checkFence_def split: option.splits)
  then show ?thesis
    using that [OF m c(1)] run_tx_frame [OF run] acq q by simp
qed

lemma fenced_tx_sustained:
  assumes "fault_mono body" and "fenced_tx i body s = (r, s')"
  shows "e_sustained (s_eng s') = e_sustained (s_eng s)" "s_now s' = s_now s"
proof -
  have "e_sustained (s_eng s') = e_sustained (s_eng s) \<and> s_now s' = s_now s"
  proof (cases r)
    case (Inl e)
    then show ?thesis using fenced_tx_err [of i body s e s'] assms(2) same_mount_simps(1,4) by blast
  next
    case (Inr x)
    from assms(2) [unfolded Inr] obtain s1 where "same_mount s s1" "s_eng s' = s_eng s1" "s_now s' = s_now s1"
      by (rule fenced_tx_ok [OF assms(1)])
    then show ?thesis using same_mount_simps(1,4) by simp
  qed
  then show "e_sustained (s_eng s') = e_sustained (s_eng s)" "s_now s' = s_now s" by simp_all
qed

text \<open>
  What it takes for a property of the database to be kept by every fenced operation: it does not read the
  lease table, and the body of the operation keeps it.
\<close>

locale db_invariant =
  fixes inv :: "db \<Rightarrow> bool"
  assumes not_leases: "same_but_leases d d' \<Longrightarrow> inv d \<Longrightarrow> inv d'"
begin

lemma fenced_preserves:
  assumes "fault_mono body" and "fenced_tx i body s = (r, s')" and "inv (s_db s)"
    and body: "\<And>d x d'. same_but_leases (s_db s) d \<Longrightarrow> inv d \<Longrightarrow> body [] d = (Inr (x, d'), []) \<Longrightarrow> inv d'"
  shows "inv (s_db s')"
proof (cases r)
  case (Inl e)
  have "same_mount s s'" by (rule fenced_tx_err [OF assms(2) [unfolded Inl]])
  then show ?thesis using not_leases assms(3) same_mount_simps(6) by blast
next
  case (Inr x)
  from assms(2) [unfolded Inr] obtain s1 where "same_mount s s1" "body [] (s_db s1) = (Inr (x, s_db s'), [])"
    by (rule fenced_tx_ok [OF assms(1)])
  then show ?thesis using not_leases assms(3) same_mount_simps(6) body by blast
qed

end

text \<open>In single-node mode without faults an operation is its body.\<close>

lemma fenced_tx_single:
  assumes "e_owner (s_eng s) = NoopOwner" and "s_faults s = []"
  shows "fenced_tx i body s = (case withTx body [] (s_db s) of
      (r, fs, db) \<Rightarrow> (tx_errno r, s\<lparr>s_db := db, s_faults := fs\<rparr>))"
  using assms by (simp add: fenced_tx_def acquireScope_def fenceInTx_def run_tx_def split: prod.splits)

section \<open>Fencing tokens\<close>

text \<open>
  The contract of a fencing scheme: \<open>holder\<close> reads the current holder and token of a scope, and every step
  of the system either keeps both or raises the token.  A stale token is then never valid again.
\<close>

locale fencing_tokens =
  fixes holder :: "'d \<Rightarrow> 'k \<Rightarrow> ('n \<times> int) option"
    and step :: "'d \<Rightarrow> 'd \<Rightarrow> bool"
  assumes step_token: "step d d' \<Longrightarrow> holder d k = Some (n, g) \<Longrightarrow>
    \<exists>n' g'. holder d' k = Some (n', g') \<and> (g < g' \<or> (g' = g \<and> n' = n))"
begin

lemma token_mono:
  assumes "step\<^sup>*\<^sup>* d d'" and "holder d k = Some (n, g)"
  shows "\<exists>n' g'. holder d' k = Some (n', g') \<and> (g < g' \<or> (g' = g \<and> n' = n))"
  using assms
proof (induction rule: rtranclp_induct)
  case base
  then show ?case by simp
next
  case (step y z)
  then obtain n1 g1 where 1: "holder y k = Some (n1, g1)" "g < g1 \<or> (g1 = g \<and> n1 = n)" by blast
  from step_token [OF step.hyps(2) 1(1)] 1(2) show ?case by fastforce
qed

lemma token_identifies_holder:
  "step\<^sup>*\<^sup>* d d' \<Longrightarrow> holder d k = Some (n, g) \<Longrightarrow> holder d' k = Some (n', g) \<Longrightarrow> n' = n"
  using token_mono by fastforce

lemma stale_forever:
  assumes "holder d k = Some (n, g)" and "step\<^sup>*\<^sup>* d d'" and "holder d' k = Some (m, h)" and "m \<noteq> n"
    and "step\<^sup>*\<^sup>* d' d''"
  shows "holder d'' k \<noteq> Some (n, g)"
proof
  assume now: "holder d'' k = Some (n, g)"
  have "g < h" using token_mono [OF assms(2,1)] assms(3,4) by auto
  moreover have "h \<le> g" using token_mono [OF assms(5,3)] now by auto
  ultimately show False by simp
qed

end

definition lease_holder :: "db \<Rightarrow> string \<Rightarrow> (string \<times> int) option" where
  "lease_holder db k = map_option (\<lambda>l. (le_owner l, le_generation l)) (sel le_scope k (t_ownership db))"

text \<open>One step of any node at any time: a lease call, or a transaction that does not write the lease table.\<close>

inductive lease_step :: "db \<Rightarrow> db \<Rightarrow> bool" where
  acquire: "AcquireOrResume k node ttl s = (r, s') \<Longrightarrow> lease_step (s_db s) (s_db s')"
| refresh: "Refresh k node g ttl s = (q, s') \<Longrightarrow> lease_step (s_db s) (s_db s')"
| release: "ReleaseOwnership k node g s = (q, s') \<Longrightarrow> lease_step (s_db s) (s_db s')"
| other: "t_ownership db' = t_ownership db \<Longrightarrow> lease_step db db'"

lemma checkFence_holder: "checkFence e k g db \<longleftrightarrow> lease_holder db k = Some (e_nodeID e, g)"
  by (auto simp: checkFence_def lease_holder_def split: option.splits)

lemma set_expiry_keeps:
  assumes "run_stmt (set_expiry_if k node g ex) s = (r, s')"
  shows "lease_holder (s_db s') j = lease_holder (s_db s) j"
proof (cases r)
  case None
  from run_stmt_None [OF assms [unfolded None]] show ?thesis by simp
next
  case (Some b)
  let ?f = "\<lambda>l. if le_scope l = k \<and> le_owner l = node \<and> le_generation l = g then l\<lparr>le_expires := ex\<rparr> else l"
  from run_stmt_Some [OF assms [unfolded Some]]
  have db: "s_db s' = (s_db s)\<lparr>t_ownership := map ?f (t_ownership (s_db s))\<rparr>"
    by (auto simp: set_expiry_if_def Let_def)
  have "map_option (\<lambda>l. (le_owner l, le_generation l)) (sel le_scope j (map ?f rows)) =
      map_option (\<lambda>l. (le_owner l, le_generation l)) (sel le_scope j rows)" for rows
    by (induction rows) auto
  then show ?thesis by (simp add: db lease_holder_def)
qed

lemma AcquireOrResume_token:
  assumes "AcquireOrResume k0 n0 ttl s = (r, s')" and "lease_holder (s_db s) k = Some (n, g)"
  shows "\<exists>n' g'. lease_holder (s_db s') k = Some (n', g') \<and> (g < g' \<or> (g' = g \<and> n' = n))"
proof (cases r)
  case None
  then show ?thesis using AcquireOrResume_err(1) assms by auto
next
  case (Some p)
  obtain l held where p: "p = (l, held)" by (rule prod.exhaust)
  obtain c where c: "sel le_scope k (t_ownership (s_db s)) = Some c" "le_owner c = n" "le_generation c = g"
    using assms(2) by (auto simp: lease_holder_def)
  from AcquireOrResume_run(1) [OF assms(1) [unfolded Some p]]
  show ?thesis
    by (rule AcquireOrResume_tx_cases, insert c) (auto simp: lease_holder_def upd_lease_def sel_upd)
qed

interpretation leases: fencing_tokens lease_holder lease_step
proof
  fix d d' k n g
  assume "lease_step d d'" and "lease_holder d k = Some (n, g)"
  then show "\<exists>n' g'. lease_holder d' k = Some (n', g') \<and> (g < g' \<or> (g' = g \<and> n' = n))"
  proof (induction rule: lease_step.induct)
    case (acquire k node ttl s r s')
    then show ?case by (rule AcquireOrResume_token)
  next
    case (refresh k node g ttl s q s')
    then show ?case using set_expiry_keeps [OF refresh(1) [unfolded Refresh_def]] by simp
  next
    case (release k node g s q s')
    then show ?case using set_expiry_keeps [OF release(1) [unfolded ReleaseOwnership_def]] by simp
  next
    case (other db' db)
    then have "lease_holder db' k = lease_holder db k" by (simp add: lease_holder_def)
    with other show ?case by simp
  qed
qed

lemma fenceInTx_refused:
  assumes "Enabled (e_owner e)" and "\<not> checkFence e k g db"
  shows "fenceInTx e k g body fs db = (Inl (Abort ESTALE), tl fs) \<or>
    fenceInTx e k g body fs db = (Inl SqlErr, tl fs)"
  using assms by (cases fs) (simp_all add: fenceInTx_def query_def tx_abort_def)

section \<open>Properties\<close>

text \<open>C2: No write commits under a stale generation.  If this node once held a scope at generation g and
  some node took the scope over, then, after any further interleaving of lease calls and transactions by
  any nodes, a transaction of this node fenced with g is refused with ESTALE or fails with EIO, and the
  database is unchanged.\<close>

theorem stale_writer_fenced:
  assumes "Enabled (e_owner e)" and "lease_holder d k = Some (e_nodeID e, g)" and "lease_step\<^sup>*\<^sup>* d d'"
    and "lease_holder d' k = Some (m, h)" and "m \<noteq> e_nodeID e" and "lease_step\<^sup>*\<^sup>* d' (s_db s)"
    and "run_tx (fenceInTx e k g body) s = (r, s')"
  shows "s_db s' = s_db s \<and> tx_errno r \<in> {Inl ESTALE, Inl EIO}"
proof -
  have bad: "\<not> checkFence e k g (s_db s)"
    using leases.stale_forever [OF assms(2-6)] by (simp add: checkFence_holder)
  have r: "r = Inl (Abort ESTALE) \<or> r = Inl SqlErr"
    using assms(7) fenceInTx_refused [OF assms(1) bad, of body "tl (s_faults s)"]
    by (auto simp: run_tx_def withTx_def split: prod.splits if_splits)
  then have "s_db s' = s_db s" using assms(7) run_tx_atomic by blast
  with r show ?thesis by (auto simp: tx_errno_def)
qed

text \<open>C8: Acquiring a free, expired or own lease succeeds when no statement fails, the lease it reports is the
  one the table then holds, and the fence admits a write with the reported generation.\<close>

theorem AcquireOrResume_grants:
  assumes "s_faults s = []"
    and "case sel le_scope k (t_ownership (s_db s)) of
           None \<Rightarrow> True | Some l \<Rightarrow> le_owner l = node \<or> le_expires l < unix_ms (s_now s)"
  shows "\<exists>l s'. AcquireOrResume k node ttl s = (Some (l, True), s') \<and>
     sel le_scope k (t_ownership (s_db s')) = Some l \<and> le_owner l = node \<and>
     le_expires l = unix_ms (s_now s) + ttl \<and>
     checkFence ((s_eng s)\<lparr>e_nodeID := node\<rparr>) k (le_generation l) (s_db s')"
  using assms
  by (cases "sel le_scope k (t_ownership (s_db s))")
    (auto simp: AcquireOrResume_def run_tx_def withTx_ok AcquireOrResume_tx_def tx_simps ins_lease_def
      upd_lease_def sel_upd checkFence_def Let_def dest: sel_Some_key)

text \<open>C9: A live lease of another node is never taken or changed.\<close>

theorem AcquireOrResume_live_foreign:
  assumes "sel le_scope k (t_ownership (s_db s)) = Some l" and "le_owner l \<noteq> node"
    and "unix_ms (s_now s) \<le> le_expires l" and "AcquireOrResume k node ttl s = (r, s')"
  shows "s_db s' = s_db s \<and> (r = None \<or> r = Some (l, False))"
proof (cases r)
  case None
  then show ?thesis using AcquireOrResume_err(1) assms(4) by simp
next
  case (Some p)
  obtain l' held where p: "p = (l', held)" by (rule prod.exhaust)
  from AcquireOrResume_run(1) [OF assms(4) [unfolded Some p]] assms(1-3) Some p
  show ?thesis
    by (auto elim!: AcquireOrResume_tx_cases)
qed

definition demo_lease :: "string \<Rightarrow> Lease" where
  "demo_lease node = \<lparr>le_scope = ''ino:7'', le_owner = node, le_expires = 5, le_generation = 1\<rparr>"

definition demo_sys :: "string \<Rightarrow> Lease list \<Rightarrow> int \<Rightarrow> sys" where
  "demo_sys node ls now = \<lparr>s_db = empty_db\<lparr>t_ownership := ls\<rparr>,
     s_eng = SetCoordinator node (Some (SqlOwner (NewSQLOwner node 0 0))) (Open_engine 0 0),
     s_faults = [], s_now = now\<rparr>"

lemmas demo_simps = demo_lease_def demo_sys_def empty_db_def SetCoordinator_def Open_engine_def

lemma demo_steal:
  "AcquireOrResume ''ino:7'' ''b'' 1000 (demo_sys ''b'' [demo_lease ''a''] 10000000000) =
    (Some (\<lparr>le_scope = ''ino:7'', le_owner = ''b'', le_expires = 11000, le_generation = 2\<rparr>, True),
     demo_sys ''b'' [\<lparr>le_scope = ''ino:7'', le_owner = ''b'', le_expires = 11000, le_generation = 2\<rparr>] 10000000000)"
  by (simp add: AcquireOrResume_def run_tx_def tx_simps AcquireOrResume_tx_def demo_simps upd_lease_def
      unix_ms_def Let_def)

theorem stale_writer_fenced_witness:
  "\<exists>r s'. run_tx (fenceInTx (s_eng (demo_sys ''a'' [] 0)) ''ino:7'' 1 (tx_ret ()))
      (snd (AcquireOrResume ''ino:7'' ''b'' 1000 (demo_sys ''b'' [demo_lease ''a''] 10000000000))) = (r, s') \<and>
    tx_errno r \<in> {Inl ESTALE, Inl EIO}"
proof -
  let ?e = "s_eng (demo_sys ''a'' [] 0)"
  let ?before = "demo_sys ''b'' [demo_lease ''a''] 10000000000"
  let ?s = "snd (AcquireOrResume ''ino:7'' ''b'' 1000 ?before)"
  obtain r s' where run: "run_tx (fenceInTx ?e ''ino:7'' 1 (tx_ret ())) ?s = (r, s')" by (rule prod.exhaust)
  have st: "lease_step\<^sup>*\<^sup>* (s_db ?before) (s_db ?s)"
    by (rule r_into_rtranclp, rule lease_step.acquire [OF prod.collapse [symmetric]])
  have "Enabled (e_owner ?e)" "lease_holder (s_db ?before) ''ino:7'' = Some (e_nodeID ?e, 1)"
    "lease_holder (s_db ?s) ''ino:7'' = Some (''b'', 2)" "''b'' \<noteq> e_nodeID ?e"
    unfolding demo_steal by (simp_all add: demo_simps lease_holder_def)
  from stale_writer_fenced [OF this(1,2) st this(3,4) rtranclp.rtrancl_refl run] run show ?thesis by blast
qed

theorem AcquireOrResume_grants_witness:
  "\<exists>l s'. AcquireOrResume ''ino:7'' ''b'' 1000 (demo_sys ''b'' [demo_lease ''a''] 10000000000) = (Some (l, True), s') \<and>
     le_owner l = ''b''"
  using AcquireOrResume_grants [where s = "demo_sys ''b'' [demo_lease ''a''] 10000000000" and k = "''ino:7''"
      and node = "''b''" and ttl = 1000]
  by (auto simp: demo_simps unix_ms_def)

theorem AcquireOrResume_live_foreign_witness:
  "s_db (snd (AcquireOrResume ''ino:7'' ''b'' 1000 (demo_sys ''b'' [demo_lease ''a''] 0))) =
   s_db (demo_sys ''b'' [demo_lease ''a''] 0)"
proof -
  obtain r s' where run: "AcquireOrResume ''ino:7'' ''b'' 1000 (demo_sys ''b'' [demo_lease ''a''] 0) = (r, s')"
    by (rule prod.exhaust)
  have "sel le_scope ''ino:7'' (t_ownership (s_db (demo_sys ''b'' [demo_lease ''a''] 0))) = Some (demo_lease ''a'')"
    "le_owner (demo_lease ''a'') \<noteq> ''b''"
    "unix_ms (s_now (demo_sys ''b'' [demo_lease ''a''] 0)) \<le> le_expires (demo_lease ''a'')"
    by (simp_all add: demo_simps unix_ms_def)
  from AcquireOrResume_live_foreign [OF this run] run show ?thesis by simp
qed

text \<open>The ancestor of an inode directly below the root, along the parent columns.\<close>

inductive first_level :: "db \<Rightarrow> Ino \<Rightarrow> Ino \<Rightarrow> bool" for db where
  fl_here: "sel_node db i = Some r \<Longrightarrow> n_parent r = RootInode \<Longrightarrow> i \<noteq> RootInode \<Longrightarrow> first_level db i i"
| fl_up: "sel_node db i = Some r \<Longrightarrow> n_parent r \<noteq> RootInode \<Longrightarrow> n_parent r \<noteq> i \<Longrightarrow> i \<noteq> RootInode \<Longrightarrow>
    first_level db (n_parent r) a \<Longrightarrow> first_level db i a"

lemma first_level_cases:
  assumes "first_level db i a" and "sel_node db i = Some r"
  shows "n_parent r = RootInode \<and> a = i \<or> n_parent r \<noteq> RootInode \<and> n_parent r \<noteq> i \<and> first_level db (n_parent r) a"
  using assms by cases simp_all

lemma first_level_unique: "first_level db i a \<Longrightarrow> first_level db i b \<Longrightarrow> b = a"
proof (induction arbitrary: b rule: first_level.induct)
  case (fl_here i r)
  then show ?case using first_level_cases [of db i b r] by simp
next
  case (fl_up i r a)
  then show ?case using first_level_cases [of db i b r] by simp
qed

definition cache_sound :: "sys \<Rightarrow> bool" where
  "cache_sound s \<longleftrightarrow> (\<forall>i k a. e_scopeCache (s_eng s) i = Some k \<longrightarrow> first_level (s_db s) i a \<longrightarrow> k = scopeKeyForInode a)"

lemma scope_walk_first_level:
  assumes "first_level db c a"
  shows "\<exists>fs'. scope_walk i c fs db = Some (Some (scopeKeyForInode a, True), fs') \<or> scope_walk i c fs db = Some (None, fs') \<and> True \<in> set fs"
  using assms
proof (induction arbitrary: fs rule: first_level.induct)
  case (fl_here c r)
  then show ?case by (cases fs) (subst scope_walk.simps, simp)+
next
  case (fl_up c r a)
  have "\<exists>fs'. scope_walk i (n_parent r) (tl fs) db = Some (Some (scopeKeyForInode a, True), fs') \<or>
      scope_walk i (n_parent r) (tl fs) db = Some (None, fs') \<and> True \<in> set (tl fs)" by (rule fl_up.IH)
  with fl_up.hyps show ?case by (cases fs) (subst scope_walk.simps, auto)+
qed

lemma digit_inj: "m < 10 \<Longrightarrow> n < 10 \<Longrightarrow> char_of (48 + m :: nat) = (char_of (48 + n) :: char) \<longleftrightarrow> m = n"
proof
  assume "m < 10" "n < 10" "char_of (48 + m) = (char_of (48 + n) :: char)"
  then have "(of_char (char_of (48 + m) :: char) :: nat) = of_char (char_of (48 + n) :: char)" by simp
  then show "m = n" using \<open>m < 10\<close> \<open>n < 10\<close> by simp
qed simp

lemma FormatUint_nonempty: "FormatUint n \<noteq> []"
  by (subst FormatUint.simps) simp

lemma FormatUint_inj: "FormatUint m = FormatUint n \<Longrightarrow> m = n"
proof (induction m arbitrary: n rule: FormatUint.induct)
  case (1 m)
  have m: "FormatUint m = (if m < 10 then [char_of (48 + m)] else FormatUint (m div 10) @ [char_of (48 + m mod 10)])"
    and n: "FormatUint n = (if n < 10 then [char_of (48 + n)] else FormatUint (n div 10) @ [char_of (48 + n mod 10)])"
    by (rule FormatUint.simps)+
  show ?case
  proof (cases "m < 10 \<or> n < 10")
    case True
    then show ?thesis using 1(2) digit_inj [of m n] FormatUint_nonempty [symmetric] FormatUint_nonempty unfolding m n by (auto split: if_splits)
  next
    case False
    then have "FormatUint (m div 10) = FormatUint (n div 10)" "m mod 10 = n mod 10"
      using 1(2) digit_inj [of "m mod 10" "n mod 10"] unfolding m n by simp_all
    then show ?thesis using 1(1) [of "n div 10"] False by (metis div_mult_mod_eq)
  qed
qed

lemma scopeKey_eq: "scopeKeyForInode a = scopeKeyForInode b \<longleftrightarrow> a = b"
  using FormatUint_inj [of "unat a" "unat b"] by (auto simp: scopeKeyForInode_def word_unat_eq_iff)

text \<open>C10: Scopes partition the tree by first-level ancestor.  For an inode whose parent columns lead to an inode \<open>a\<close> directly
  below the root, \<open>scopeOf\<close> returns the key of \<open>a\<close>, from the cache or from the walk, or reports a failed query; it keeps the
  cache right and the database as it is.  Different first-level inodes have different keys, and none has that of the root.\<close>

theorem scopeOf_first_level:
  assumes "first_level (s_db s) i a" and "cache_sound s" and "scopeOf i s = (r, s')"
  shows "(r = Inr (scopeKeyForInode a) \<or> r = Inl EIO \<and> True \<in> set (s_faults s)) \<and> cache_sound s' \<and> s_db s' = s_db s \<and>
    (\<forall>b. scopeKeyForInode b = scopeKeyForInode a \<longleftrightarrow> b = a) \<and> scopeKeyForInode a \<noteq> rootScopeKey"
proof -
  have i: "i \<noteq> RootInode" using assms(1) by cases simp_all
  have keys: "(\<forall>b. scopeKeyForInode b = scopeKeyForInode a \<longleftrightarrow> b = a) \<and> scopeKeyForInode a \<noteq> rootScopeKey"
    by (simp add: scopeKey_eq) (simp add: scopeKeyForInode_def rootScopeKey_def)
  show ?thesis
  proof (cases "e_scopeCache (s_eng s) i")
    case (Some k)
    then have "k = scopeKeyForInode a" using assms(1,2) by (auto simp: cache_sound_def)
    then show ?thesis using assms(2,3) i Some keys by (simp add: scopeOf_def)
  next
    case None
    from scope_walk_first_level [OF assms(1), of i "s_faults s"] obtain fs' where
      "scope_walk i i (s_faults s) (s_db s) = Some (Some (scopeKeyForInode a, True), fs') \<or>
       scope_walk i i (s_faults s) (s_db s) = Some (None, fs') \<and> True \<in> set (s_faults s)" by blast
    then show ?thesis
    proof
      assume "scope_walk i i (s_faults s) (s_db s) = Some (Some (scopeKeyForInode a, True), fs')"
      then have r: "r = Inr (scopeKeyForInode a)" and db: "s_db s' = s_db s"
        and c: "e_scopeCache (s_eng s') = (e_scopeCache (s_eng s))(i \<mapsto> scopeKeyForInode a)"
        using assms(3) None i by (auto simp: scopeOf_def)
      have "k = scopeKeyForInode b" if "e_scopeCache (s_eng s') j = Some k" "first_level (s_db s) j b" for j k b
        using that assms(2) first_level_unique [OF assms(1)] unfolding c cache_sound_def by (cases "j = i") simp_all
      then have "cache_sound s'" by (simp add: cache_sound_def db)
      then show ?thesis using r db keys by simp
    next
      assume "scope_walk i i (s_faults s) (s_db s) = Some (None, fs') \<and> True \<in> set (s_faults s)"
      then show ?thesis using assms(2,3) None i keys by (auto simp: scopeOf_def cache_sound_def)
    qed
  qed
qed

definition demo_dir :: "Ino \<Rightarrow> Ino \<Rightarrow> node_row" where
  "demo_dir i p = (root_row 0)\<lparr>n_inode := i, n_parent := p\<rparr>"

definition demo_tree :: "node_row list \<Rightarrow> sys" where
  "demo_tree ns = \<lparr>s_db = empty_db\<lparr>t_node := ns\<rparr>, s_eng = Open_engine 0 0, s_faults = [], s_now = 0\<rparr>"

lemmas demo_tree_simps = demo_tree_def demo_dir_def root_row_def empty_db_def Open_engine_def RootInode_def

theorem scopeOf_first_level_witness:
  "fst (scopeOf 3 (demo_tree [root_row 0, demo_dir 2 1, demo_dir 3 2])) = Inr (scopeKeyForInode 2)"
proof -
  let ?s = "demo_tree [root_row 0, demo_dir 2 1, demo_dir 3 2]"
  have rows: "sel_node (s_db ?s) 2 = Some (demo_dir 2 1)" "sel_node (s_db ?s) 3 = Some (demo_dir 3 2)"
    by (simp_all add: demo_tree_simps sel_node_def)
  have "first_level (s_db ?s) 2 2" by (rule fl_here [OF rows(1)]) (simp_all add: demo_dir_def RootInode_def)
  then have "first_level (s_db ?s) 3 2" by (intro fl_up [OF rows(2)]) (simp_all add: demo_dir_def RootInode_def)
  moreover have "cache_sound ?s" "s_faults ?s = []" by (simp_all add: cache_sound_def demo_tree_simps)
  moreover obtain r s' where run: "scopeOf 3 ?s = (r, s')" by (rule prod.exhaust)
  ultimately show ?thesis using scopeOf_first_level [OF _ _ run] by simp
qed

text \<open>A cycle of parent columns that avoids the root is never left.\<close>

lemma scope_walk_cycle:
  assumes "\<And>c. c \<in> S \<Longrightarrow> \<exists>r. sel_node db c = Some r \<and> n_parent r \<in> S \<and> n_parent r \<noteq> RootInode \<and> n_parent r \<noteq> c"
    and "c \<in> S"
  shows "scope_walk i c [] db = None"
proof (rule ccontr)
  assume "scope_walk i c [] db \<noteq> None"
  then obtain y where y: "scope_walk i c [] db = Some y" by auto
  have "fs = [] \<longrightarrow> d = db \<longrightarrow> c \<in> S \<longrightarrow> False" if "scope_walk i c fs d = Some y" for i c fs d y
  proof (rule scope_walk.raw_induct [where P = "\<lambda>i c fs d y. fs = [] \<longrightarrow> d = db \<longrightarrow> c \<in> S \<longrightarrow> False", OF _ that], goal_cases)
    case (1 walk inode cur fs d y)
    show ?case
    proof (intro impI)
      assume a: "fs = []" "d = db" "cur \<in> S"
      then obtain r where "sel_node db cur = Some r" "n_parent r \<in> S" "n_parent r \<noteq> RootInode" "n_parent r \<noteq> cur"
        using assms(1) by blast
      with 1 a show False by auto
    qed
  qed
  with y assms(2) show False by blast
qed

end
