(* ===== verification/Meta_Perms.thy ===== *)
theory Meta_Perms
  imports Meta_Owner
begin

text \<open>
  Permission checks of mlfs/internal/meta/perms.go: the mode-bit check of \<open>Access\<close> and the ownership
  rules of attribute changes.  A nil caller is \<open>None\<close>.
\<close>

definition MayExec :: u8 where "MayExec = 1"

definition MayWrite :: u8 where "MayWrite = 2"

definition MayRead :: u8 where "MayRead = 4"

definition SetMode :: u16 where "SetMode = 1"

definition SetUID :: u16 where "SetUID = 2"

definition SetGID :: u16 where "SetGID = 4"

definition SetSize :: u16 where "SetSize = 8"

definition SetAtime :: u16 where "SetAtime = 16"

definition SetMtime :: u16 where "SetMtime = 32"

definition setidBits :: u16 where "setidBits = 3072"

text \<open>The permission triple of the caller's class.\<close>

definition accessAttr :: "Context option \<Rightarrow> Attr \<Rightarrow> u8 \<Rightarrow> errno + unit" where
  "accessAttr c a msk =
    (case c of
       None \<Rightarrow> Inr ()
     | Some c \<Rightarrow>
         if c_uid c = 0 then Inr ()
         else
           (let perm = (if c_uid c = a_uid a then and (drop_bit 6 (a_mode a)) 7
                        else if c_gid c = a_gid a then and (drop_bit 3 (a_mode a)) 7
                        else and (a_mode a) 7)
            in if and (ucast msk) perm = ucast msk then Inr () else Inl EACCES))"

definition authorizeSetAttr :: "Context option \<Rightarrow> Attr \<Rightarrow> u16 \<Rightarrow> Attr \<Rightarrow> errno + unit" where
  "authorizeSetAttr c cur sm attr =
    (case c of
       None \<Rightarrow> Inr ()
     | Some c \<Rightarrow>
         if c_uid c = 0 then Inr ()
         else
           (let owner = (c_uid c = a_uid cur);
                privDropOnly = (and (a_mode attr) (not (a_mode cur)) = 0 \<and>
                  and (and (a_mode cur) (not (a_mode attr))) (not setidBits) = 0)
            in if and sm SetMode \<noteq> 0 \<and> \<not> owner \<and> \<not> privDropOnly then Inl EPERM
               else if and sm SetUID \<noteq> 0 \<and> a_uid attr \<noteq> a_uid cur then Inl EPERM
               else if and sm SetGID \<noteq> 0 \<and> \<not> owner then Inl EPERM
               else Inr ()))"

text \<open>The copy of the current attributes with the selected fields of the request.\<close>

definition apply_set :: "u16 \<Rightarrow> Attr \<Rightarrow> Attr \<Rightarrow> Attr" where
  "apply_set sm attr cur =
    (let a1 = (if and sm SetMode \<noteq> 0 then cur\<lparr>a_mode := a_mode attr\<rparr> else cur);
         a2 = (if and sm SetUID \<noteq> 0 then a1\<lparr>a_uid := a_uid attr\<rparr> else a1);
         a3 = (if and sm SetGID \<noteq> 0 then a2\<lparr>a_gid := a_gid attr\<rparr> else a2);
         a4 = (if and sm SetSize \<noteq> 0 then a3\<lparr>a_length := a_length attr\<rparr> else a3);
         a5 = (if and sm SetAtime \<noteq> 0
               then a4\<lparr>a_atime := a_atime attr, a_atimensec := a_atimensec attr\<rparr> else a4)
     in if and sm SetMtime \<noteq> 0 then a5\<lparr>a_mtime := a_mtime attr, a_mtimensec := a_mtimensec attr\<rparr> else a5)"

lemma apply_set_fields:
  "a_mode (apply_set sm attr cur) = (if and sm SetMode \<noteq> 0 then a_mode attr else a_mode cur)"
  "a_uid (apply_set sm attr cur) = (if and sm SetUID \<noteq> 0 then a_uid attr else a_uid cur)"
  "a_gid (apply_set sm attr cur) = (if and sm SetGID \<noteq> 0 then a_gid attr else a_gid cur)"
  "a_length (apply_set sm attr cur) = (if and sm SetSize \<noteq> 0 then a_length attr else a_length cur)"
  "a_nlink (apply_set sm attr cur) = a_nlink cur" "a_typ (apply_set sm attr cur) = a_typ cur"
  by (simp_all add: apply_set_def Let_def)

lemma bit_drop:
  fixes a b :: u16
  assumes "and a (not b) = 0" and "bit a n"
  shows "bit b n"
proof (rule ccontr)
  assume "\<not> bit b n"
  moreover have "n < 16" using assms(2) bit_imp_le_length [of a n] by simp
  ultimately have "bit (and a (not b)) n" using assms(2) by (simp add: bit_simps)
  with assms(1) show False by simp
qed

text \<open>C11: An unprivileged caller never gains by an attribute change the engine accepts: the owner of the
  inode stays the same, its group changes only for its owner, and when the caller is not the owner every
  mode bit of the result was set before and only set-id bits may have been cleared.\<close>

theorem authorizeSetAttr_no_escalation:
  assumes "authorizeSetAttr (Some c) cur sm attr = Inr ()" and "c_uid c \<noteq> 0"
  shows "a_uid (apply_set sm attr cur) = a_uid cur \<and>
    (c_uid c \<noteq> a_uid cur \<longrightarrow> a_gid (apply_set sm attr cur) = a_gid cur \<and>
       (\<forall>n. bit (a_mode (apply_set sm attr cur)) n \<longrightarrow> bit (a_mode cur) n) \<and>
       (\<forall>n. bit (a_mode cur) n \<and> \<not> bit (a_mode (apply_set sm attr cur)) n \<longrightarrow> bit setidBits n))"
proof -
  have mode: "and (a_mode attr) (not (a_mode cur)) = 0 \<and>
      and (and (a_mode cur) (not (a_mode attr))) (not setidBits) = 0"
    if "and sm SetMode \<noteq> 0" "c_uid c \<noteq> a_uid cur"
    using assms that by (auto simp: authorizeSetAttr_def Let_def split: if_splits)
  have cleared: "bit setidBits n"
    if "and (and (a_mode cur) (not (a_mode attr))) (not setidBits) = 0" "bit (a_mode cur) n" "\<not> bit (a_mode attr) n" for n
  proof -
    have "n < 16" using that(2) bit_imp_le_length [of "a_mode cur" n] by simp
    then have "bit (and (a_mode cur) (not (a_mode attr))) n" using that by (simp add: bit_simps)
    with that(1) show ?thesis by (rule bit_drop)
  qed
  show ?thesis
    using assms mode cleared bit_drop
    by (auto simp: apply_set_fields authorizeSetAttr_def Let_def split: if_splits)
qed

definition demo_attr :: "u16 \<Rightarrow> Attr" where
  "demo_attr mode = (scanAttr (root_row 0))\<lparr>a_typ := TypeFile, a_mode := mode\<rparr>"

theorem authorizeSetAttr_no_escalation_witness:
  "authorizeSetAttr (Some \<lparr>c_uid = 1000, c_gid = 1000, c_pid = 1\<rparr>) (demo_attr 3565) SetMode (demo_attr 493) = Inr () \<and>
   a_gid (apply_set SetMode (demo_attr 493) (demo_attr 3565)) = a_gid (demo_attr 3565)"
proof -
  have ok: "authorizeSetAttr (Some \<lparr>c_uid = 1000, c_gid = 1000, c_pid = 1\<rparr>) (demo_attr 3565) SetMode (demo_attr 493) = Inr ()"
    by (simp add: authorizeSetAttr_def demo_attr_def scanAttr_def root_row_def SetMode_def SetUID_def SetGID_def setidBits_def)
  have "c_uid \<lparr>c_uid = 1000, c_gid = 1000, c_pid = 1\<rparr> \<noteq> a_uid (demo_attr 3565)"
    by (simp add: demo_attr_def scanAttr_def root_row_def)
  with ok authorizeSetAttr_no_escalation [OF ok] show ?thesis by simp
qed

text \<open>C12: Access of an unprivileged caller is granted exactly when every requested permission bit is set in
  the mode triple of the caller's class: the owner triple for the owner, else the group triple for a
  member of the group, else the last one.  The owner is never judged by a later triple.\<close>

theorem accessAttr_class:
  assumes "c_uid c \<noteq> 0"
  shows "accessAttr (Some c) a msk = Inr () \<longleftrightarrow>
    (\<forall>n. bit msk n \<longrightarrow> n < 3 \<and> bit (a_mode a)
       (n + (if c_uid c = a_uid a then 6 else if c_gid c = a_gid a then 3 else 0)))"
proof -
  have seven: "bit (and x 7) n \<longleftrightarrow> n < 3 \<and> bit x n" for x :: u16 and n
    by (simp add: bit_and_iff) (auto simp: numeral_eq_Suc bit_Suc less_Suc_eq)
  have sub: "and (ucast msk) p = ucast msk \<longleftrightarrow> (\<forall>n. bit msk n \<longrightarrow> bit p n)" for p :: u16
  proof
    assume "and (ucast msk) p = ucast msk"
    then have "bit (ucast msk :: u16) n \<Longrightarrow> bit p n" for n by (metis bit_and_iff)
    moreover have "bit msk n \<Longrightarrow> bit (ucast msk :: u16) n" for n
      using bit_imp_le_length [of msk n] by (simp add: bit_simps)
    ultimately show "\<forall>n. bit msk n \<longrightarrow> bit p n" by blast
  next
    assume "\<forall>n. bit msk n \<longrightarrow> bit p n"
    then show "and (ucast msk) p = ucast msk"
      by (intro bit_word_eqI) (auto simp: bit_simps)
  qed
  show ?thesis
    using assms by (auto simp: accessAttr_def Let_def sub seven bit_drop_bit_eq add.commute)
qed

theorem accessAttr_class_witness:
  "accessAttr (Some \<lparr>c_uid = 1000, c_gid = 0, c_pid = 1\<rparr>) (demo_attr 416) MayRead = Inr () \<longleftrightarrow>
   (\<forall>n. bit MayRead n \<longrightarrow> n < 3 \<and> bit (a_mode (demo_attr 416)) (n + 3))"
  using accessAttr_class [of "\<lparr>c_uid = 1000, c_gid = 0, c_pid = 1\<rparr>" "demo_attr 416" MayRead]
  by (simp add: demo_attr_def scanAttr_def root_row_def)

end
