(* ===== verification/Meta_Ops.thy ===== *)
theory Meta_Ops
  imports Meta_Perms
begin

text \<open>
  The namespace operations of mlfs/internal/meta/ops.go and the open-handle bookkeeping of open.go.
  Each transaction body is a definition \<open>..._tx\<close>; the operation itself acquires the ownership scope, runs
  the fenced body and maps the outcome to an errno.  Results that Go returns as several values are tuples.
\<close>

section \<open>Statements\<close>

text \<open>UPDATE node SET nlink = nlink + d, ... WHERE inode = i RETURNING nlink.\<close>

definition bump_nlink :: "Ino \<Rightarrow> int \<Rightarrow> int \<Rightarrow> int \<Rightarrow> db \<Rightarrow> (int \<times> db) option" where
  "bump_nlink i d ts nsec db = (case sel_node db i of
      None \<Rightarrow> None
    | Some r \<Rightarrow> Some (n_nlink r + d,
        upd_node i (\<lambda>r. touch_c ts nsec (r\<lparr>n_nlink := n_nlink r + d\<rparr>)) db))"

text \<open>INSERT INTO edge ... ON CONFLICT DO NOTHING; the result says whether a row was inserted.\<close>

definition ins_edge_new :: "edge_row \<Rightarrow> db \<Rightarrow> (bool \<times> db) option" where
  "ins_edge_new r db = (case ins_edge r db of None \<Rightarrow> Some (False, db) | Some db' \<Rightarrow> Some (True, db'))"

section \<open>Reads\<close>

definition GetAttr :: "Ino \<Rightarrow> sys \<Rightarrow> (errno + Attr) \<times> sys" where
  "GetAttr i s = (case run_stmt (\<lambda>db. Some (getAttr db i, db)) s of
      (None, s') \<Rightarrow> (Inl EIO, s')
    | (Some None, s') \<Rightarrow> (Inl ENOENT, s')
    | (Some (Some a), s') \<Rightarrow> (Inr a, s'))"

definition GetAttrOrNil :: "Ino \<Rightarrow> sys \<Rightarrow> Attr option \<times> sys" where
  "GetAttrOrNil i s = (case GetAttr i s of (Inl _, s') \<Rightarrow> (None, s') | (Inr a, s') \<Rightarrow> (Some a, s'))"

definition Access :: "Ino \<Rightarrow> u8 \<Rightarrow> Context option \<Rightarrow> sys \<Rightarrow> (errno + unit) \<times> sys" where
  "Access i msk c s = (case GetAttr i s of
      (Inl e, s') \<Rightarrow> (Inl e, s') | (Inr a, s') \<Rightarrow> (accessAttr c a msk, s'))"

definition ContentHash :: "Ino \<Rightarrow> sys \<Rightarrow> (errno + string) \<times> sys" where
  "ContentHash i s = (case GetAttr i s of
      (Inl e, s') \<Rightarrow> (Inl e, s') | (Inr a, s') \<Rightarrow> (Inr (a_contentHash a), s'))"

definition Lookup :: "Ino \<Rightarrow> name \<Rightarrow> sys \<Rightarrow> (errno + Ino \<times> Attr) \<times> sys" where
  "Lookup parent nm s = (case run_stmt (\<lambda>db. Some (sel_edge db parent nm, db)) s of
      (None, s') \<Rightarrow> (Inl EIO, s')
    | (Some None, s') \<Rightarrow> (Inl ENOENT, s')
    | (Some (Some ed), s') \<Rightarrow>
        (case run_stmt (\<lambda>db. Some (getAttr db (ed_inode ed), db)) s' of
           (Some (Some a), s2) \<Rightarrow> (Inr (ed_inode ed, a), s2)
         | (_, s2) \<Rightarrow> (Inl EIO, s2)))"

definition ReadLink :: "Ino \<Rightarrow> sys \<Rightarrow> (errno + string) \<times> sys" where
  "ReadLink i s = (case run_stmt (\<lambda>db. Some (sel sy_inode i (t_symlink db), db)) s of
      (None, s') \<Rightarrow> (Inl EIO, s')
    | (Some None, s') \<Rightarrow> (Inl ENOENT, s')
    | (Some (Some r), s') \<Rightarrow> (Inr (sy_target r), s'))"

text \<open>\<open>Readdir\<close>: the two dot entries, then the edges in name order; with \<open>withAttrs\<close>, attributes where readable.\<close>

fun fill_attrs :: "Entry list \<Rightarrow> sys \<Rightarrow> Entry list \<times> sys" where
  "fill_attrs [] s = ([], s)"
| "fill_attrs (en # ens) s =
    (case run_stmt (\<lambda>db. Some (getAttr db (en_inode en), db)) s of
       (r, s1) \<Rightarrow>
         (case fill_attrs ens s1 of
            (ens', s2) \<Rightarrow>
              ((case r of Some (Some a) \<Rightarrow> en\<lparr>en_attr := Some a\<rparr> | _ \<Rightarrow> en) # ens', s2)))"

definition dir_rows :: "Ino \<Rightarrow> db \<Rightarrow> edge_row list" where
  "dir_rows i db = sort_key ed_name (filter (\<lambda>e. ed_parent e = i) (t_edge db))"

definition Readdir :: "Ino \<Rightarrow> bool \<Rightarrow> sys \<Rightarrow> (errno + Entry list) \<times> sys" where
  "Readdir i withAttrs s = (case run_stmt (\<lambda>db. Some (getAttr db i, db)) s of
      (None, s1) \<Rightarrow> (Inl EIO, s1)
    | (Some None, s1) \<Rightarrow> (Inl ENOENT, s1)
    | (Some (Some self), s1) \<Rightarrow>
        if a_typ self \<noteq> TypeDirectory then (Inl ENOTDIR, s1)
        else (case run_stmt (\<lambda>db. Some (dir_rows i db, db)) s1 of
            (None, s2) \<Rightarrow> (Inl EIO, s2)
          | (Some rows, s2) \<Rightarrow>
              let ens = \<lparr>en_inode = i, en_name = ''.'', en_attr = None\<rparr> #
                        \<lparr>en_inode = a_parent self, en_name = ''..'', en_attr = None\<rparr> #
                        map (\<lambda>e. \<lparr>en_inode = ed_inode e, en_name = ed_name e, en_attr = None\<rparr>) rows
              in if withAttrs then (case fill_attrs ens s2 of (ens', s3) \<Rightarrow> (Inr ens', s3))
                 else (Inr ens, s2)))"

section \<open>Plain attribute updates\<close>

definition upd_node_count :: "Ino \<Rightarrow> (node_row \<Rightarrow> node_row) \<Rightarrow> db \<Rightarrow> (nat \<times> db) option" where
  "upd_node_count i f db = Some (cnt (\<lambda>r. n_inode r = i) (t_node db), upd_node i f db)"

definition SetStoreClass :: "Ino \<Rightarrow> u8 \<Rightarrow> sys \<Rightarrow> (errno + unit) \<times> sys" where
  "SetStoreClass i class s = (case run_stmt (upd_node_count i (\<lambda>r. r\<lparr>n_store_class := class\<rparr>)) s of
      (None, s') \<Rightarrow> (Inl EIO, s')
    | (Some n, s') \<Rightarrow> if n = 0 then (Inl ENOENT, s') else (Inr (), s'))"

definition SetContentHash :: "Ino \<Rightarrow> string \<Rightarrow> sys \<Rightarrow> (errno + unit) \<times> sys" where
  "SetContentHash i hash s = (case run_stmt (upd_node_count i (\<lambda>r. r\<lparr>n_content_hash := hash\<rparr>)) s of
      (None, s') \<Rightarrow> (Inl EIO, s')
    | (Some n, s') \<Rightarrow> if n = 0 then (Inl ENOENT, s') else (Inr (), s'))"

section \<open>Creation\<close>

definition new_row :: "Ino \<Rightarrow> Ino \<Rightarrow> u8 \<Rightarrow> u16 \<Rightarrow> u32 \<Rightarrow> string \<Rightarrow> Context \<Rightarrow> int \<Rightarrow> int \<Rightarrow> node_row" where
  "new_row i parent typ mode rdev target c ts nsec =
    \<lparr>n_inode = i, n_type = typ, n_mode = mode, n_uid = c_uid c, n_gid = c_gid c,
     n_atime = ts, n_mtime = ts, n_ctime = ts, n_atimensec = nsec, n_mtimensec = nsec, n_ctimensec = nsec,
     n_nlink = (if typ = TypeDirectory then 2 else 1),
     n_length = (if typ = TypeSymlink then int (length target) else 0),
     n_rdev = rdev, n_parent = parent, n_store_class = 0, n_content_hash = ''''\<rparr>"

definition create_tx ::
  "Ino \<Rightarrow> Ino \<Rightarrow> name \<Rightarrow> u8 \<Rightarrow> u16 \<Rightarrow> u32 \<Rightarrow> string \<Rightarrow> changeop \<Rightarrow> Context \<Rightarrow> int \<Rightarrow> (db, Attr) tx" where
  "create_tx inode parent nm typ mode rdev target op c now =
    (let ts = unix_s now; nsec = unix_ns now; row = new_row inode parent typ mode rdev target c ts nsec in
     query (\<lambda>db. getAttr db parent) (\<lambda>pa.
       case pa of
         None \<Rightarrow> tx_abort ENOENT
       | Some pa \<Rightarrow>
           if a_typ pa \<noteq> TypeDirectory then tx_abort ENOTDIR
           else
             returning (ins_edge_new \<lparr>ed_parent = parent, ed_name = nm, ed_inode = inode, ed_type = typ\<rparr>) (\<lambda>ins.
               if \<not> ins then tx_abort EEXIST
               else
                 exec_may (ins_node row)
                 ((if typ = TypeSymlink then exec_may (ins_symlink inode target) else id)
                 (exec (upd_node parent (\<lambda>r. touch ts nsec
                    (if typ = TypeDirectory then r\<lparr>n_nlink := n_nlink r + 1\<rparr> else r)))
                 (exec (appendChangelog now inode op (PCreate parent nm typ))
                 (tx_ret (scanAttr row))))))))"

definition create ::
  "Ino \<Rightarrow> name \<Rightarrow> u8 \<Rightarrow> u16 \<Rightarrow> u32 \<Rightarrow> string \<Rightarrow> changeop \<Rightarrow> Context \<Rightarrow> sys \<Rightarrow> (errno + Ino \<times> Attr) \<times> sys" where
  "create parent nm typ mode rdev target op c s =
    (case nextInode s of
       (None, s1) \<Rightarrow> (Inl EIO, s1)
     | (Some inode, s1) \<Rightarrow>
         (case fenced_tx parent (create_tx inode parent nm typ mode rdev target op c (s_now s1)) s1 of
            (Inl e, s2) \<Rightarrow> (Inl e, s2)
          | (Inr a, s2) \<Rightarrow> (Inr (inode, a), s2)))"

definition Mkdir :: "Ino \<Rightarrow> name \<Rightarrow> u16 \<Rightarrow> Context \<Rightarrow> sys \<Rightarrow> (errno + Ino \<times> Attr) \<times> sys" where
  "Mkdir parent nm mode c = create parent nm TypeDirectory mode 0 '''' OpMkdir c"

definition Mknod :: "Ino \<Rightarrow> name \<Rightarrow> u8 \<Rightarrow> u16 \<Rightarrow> u32 \<Rightarrow> Context \<Rightarrow> sys \<Rightarrow> (errno + Ino \<times> Attr) \<times> sys" where
  "Mknod parent nm typ mode rdev c = create parent nm typ mode rdev '''' OpMknod c"

definition Create :: "Ino \<Rightarrow> name \<Rightarrow> u16 \<Rightarrow> Context \<Rightarrow> sys \<Rightarrow> (errno + Ino \<times> Attr) \<times> sys" where
  "Create parent nm mode c = create parent nm TypeFile mode 0 '''' OpMknod c"

definition Symlink :: "Ino \<Rightarrow> name \<Rightarrow> string \<Rightarrow> Context \<Rightarrow> sys \<Rightarrow> (errno + Ino \<times> Attr) \<times> sys" where
  "Symlink parent nm target c = create parent nm TypeSymlink 511 0 target OpSymlink c"

section \<open>Open handles\<close>

definition OpenRef :: "Ino \<Rightarrow> sys \<Rightarrow> sys" where
  "OpenRef i s = s\<lparr>s_eng := (s_eng s)\<lparr>e_openRefs := (e_openRefs (s_eng s))(i := Suc (e_openRefs (s_eng s) i))\<rparr>\<rparr>"

definition Open_inode :: "Ino \<Rightarrow> sys \<Rightarrow> (errno + Attr) \<times> sys" where
  "Open_inode i s = (case GetAttr i s of
      (Inl e, s') \<Rightarrow> (Inl e, s') | (Inr a, s') \<Rightarrow> (Inr a, OpenRef i s'))"

definition isOpen :: "engine \<Rightarrow> Ino \<Rightarrow> bool" where
  "isOpen e i \<longleftrightarrow> 0 < e_openRefs e i"

definition markSustained :: "Ino \<Rightarrow> sys \<Rightarrow> sys" where
  "markSustained i s = s\<lparr>s_eng := (s_eng s)\<lparr>e_sustained := insert i (e_sustained (s_eng s))\<rparr>\<rparr>"

definition deleteInodeRows :: "Ino \<Rightarrow> (db, 'a) tx \<Rightarrow> (db, 'a) tx" where
  "deleteInodeRows i k = exec (del_node i) (exec (del_symlink i) (exec (del_slices i) (exec (del_xattrs i) k)))"

definition Close :: "Ino \<Rightarrow> sys \<Rightarrow> (errno + unit) \<times> sys" where
  "Close i s =
    (let e = s_eng s;
         refs = e_openRefs e i - 1;
         last = (refs = 0);
         doDelete = (last \<and> i \<in> e_sustained e);
         e' = e\<lparr>e_openRefs := (e_openRefs e)(i := refs),
                e_sustained := (if doDelete then e_sustained e - {i} else e_sustained e)\<rparr>;
         s1 = s\<lparr>s_eng := e'\<rparr>
     in if \<not> doDelete then (Inr (), s1)
        else (case run_tx (deleteInodeRows i (tx_ret ())) s1 of
            (Inl _, s2) \<Rightarrow> (Inl EIO, s2) | (Inr _, s2) \<Rightarrow> (Inr (), s2)))"

section \<open>Removal\<close>

definition Unlink_tx :: "engine \<Rightarrow> Ino \<Rightarrow> name \<Rightarrow> int \<Rightarrow> (db, Ino option) tx" where
  "Unlink_tx e parent nm now =
    (let ts = unix_s now; nsec = unix_ns now in
     query (\<lambda>db. sel_edge db parent nm) (\<lambda>ed.
       case ed of
         None \<Rightarrow> tx_abort ENOENT
       | Some ed \<Rightarrow>
           if ed_type ed = TypeDirectory then tx_abort EISDIR
           else
             (let inode = ed_inode ed;
                  finish = (\<lambda>sustain. exec (upd_node parent (touch ts nsec))
                    (exec (appendChangelog now inode OpUnlink (PEntry parent nm)) (tx_ret sustain)))
              in exec (del_edge parent nm)
                (returning (bump_nlink inode (- 1) ts nsec) (\<lambda>nlink.
                   if nlink \<le> 0 then
                     (if isOpen e inode then finish (Some inode)
                      else deleteInodeRows inode (finish None))
                   else finish None)))))"

definition Unlink :: "Ino \<Rightarrow> name \<Rightarrow> sys \<Rightarrow> (errno + unit) \<times> sys" where
  "Unlink parent nm s =
    (case fenced_tx parent (Unlink_tx (s_eng s) parent nm (s_now s)) s of
       (Inl e, s1) \<Rightarrow> (Inl e, s1)
     | (Inr None, s1) \<Rightarrow> (Inr (), s1)
     | (Inr (Some i), s1) \<Rightarrow> (Inr (), if i \<noteq> 0 then markSustained i s1 else s1))"

definition Rmdir_tx :: "Ino \<Rightarrow> name \<Rightarrow> int \<Rightarrow> (db, unit) tx" where
  "Rmdir_tx parent nm now =
    (let ts = unix_s now; nsec = unix_ns now in
     query (\<lambda>db. sel_edge db parent nm) (\<lambda>ed.
       case ed of
         None \<Rightarrow> tx_abort ENOENT
       | Some ed \<Rightarrow>
           if ed_type ed \<noteq> TypeDirectory then tx_abort ENOTDIR
           else
             query (\<lambda>db. count_children db (ed_inode ed)) (\<lambda>n.
               if 0 < n then tx_abort ENOTEMPTY
               else
                 exec (del_edge parent nm)
                (exec (del_node (ed_inode ed))
                (exec (del_xattrs (ed_inode ed))
                (exec (upd_node parent (\<lambda>r. touch ts nsec (r\<lparr>n_nlink := n_nlink r - 1\<rparr>)))
                (exec (appendChangelog now (ed_inode ed) OpRmdir (PEntry parent nm))
                (tx_ret ()))))))))"

definition Rmdir :: "Ino \<Rightarrow> name \<Rightarrow> sys \<Rightarrow> (errno + unit) \<times> sys" where
  "Rmdir parent nm s = fenced_tx parent (Rmdir_tx parent nm (s_now s)) s"

section \<open>Hard links\<close>

definition Link_tx :: "Ino \<Rightarrow> Ino \<Rightarrow> name \<Rightarrow> int \<Rightarrow> (db, Attr) tx" where
  "Link_tx inode newParent newName now =
    (let ts = unix_s now; nsec = unix_ns now in
     query (\<lambda>db. getAttr db inode) (\<lambda>cur.
       case cur of
         None \<Rightarrow> tx_abort ENOENT
       | Some cur \<Rightarrow>
           if a_typ cur = TypeDirectory then tx_abort EPERM
           else
             query (\<lambda>db. getAttr db newParent) (\<lambda>pa.
               case pa of
                 None \<Rightarrow> tx_abort ENOENT
               | Some pa \<Rightarrow>
                   if a_typ pa \<noteq> TypeDirectory then tx_abort ENOTDIR
                   else
                     returning (ins_edge_new \<lparr>ed_parent = newParent, ed_name = newName,
                         ed_inode = inode, ed_type = a_typ cur\<rparr>) (\<lambda>ins.
                       if \<not> ins then tx_abort EEXIST
                       else
                         returning (bump_nlink inode 1 ts nsec) (\<lambda>nlink.
                           exec (upd_node newParent (touch ts nsec))
                          (exec (appendChangelog now inode OpLink (PEntry newParent newName))
                          (tx_ret (cur\<lparr>a_nlink := word_of_int nlink, a_ctime := ts,
                             a_ctimensec := word_of_int nsec\<rparr>))))))))"

definition Link :: "Ino \<Rightarrow> Ino \<Rightarrow> name \<Rightarrow> sys \<Rightarrow> (errno + Attr) \<times> sys" where
  "Link inode newParent newName s = fenced_tx newParent (Link_tx inode newParent newName (s_now s)) s"

section \<open>Attribute changes\<close>

definition write_attr :: "Ino \<Rightarrow> Attr \<Rightarrow> db \<Rightarrow> db option" where
  "write_attr i a db =
    (if int4 (uint (a_atimensec a)) \<and> int4 (uint (a_mtimensec a)) \<and> int4 (uint (a_ctimensec a))
     then Some (upd_node i (\<lambda>r. r\<lparr>n_mode := a_mode a, n_uid := a_uid a, n_gid := a_gid a,
        n_length := sint (a_length a), n_atime := a_atime a, n_atimensec := uint (a_atimensec a),
        n_mtime := a_mtime a, n_mtimensec := uint (a_mtimensec a),
        n_ctime := a_ctime a, n_ctimensec := uint (a_ctimensec a)\<rparr>) db)
     else None)"

definition SetAttr_tx :: "Ino \<Rightarrow> u16 \<Rightarrow> Attr \<Rightarrow> Context option \<Rightarrow> int \<Rightarrow> (db, unit) tx" where
  "SetAttr_tx inode sm attr c now =
    (let ts = unix_s now; nsec = unix_ns now in
     query (\<lambda>db. getAttr db inode) (\<lambda>cur.
       case cur of
         None \<Rightarrow> tx_abort ENOENT
       | Some cur \<Rightarrow>
           (case authorizeSetAttr c cur sm attr of
              Inl st \<Rightarrow> tx_abort st
            | Inr _ \<Rightarrow>
                exec_may (write_attr inode ((apply_set sm attr cur)\<lparr>a_ctime := ts, a_ctimensec := word_of_int nsec\<rparr>))
               (exec (appendChangelog now inode OpSetattr (PSet sm))
               (tx_ret ())))))"

definition SetAttr :: "Ino \<Rightarrow> u16 \<Rightarrow> Attr \<Rightarrow> Context option \<Rightarrow> sys \<Rightarrow> (errno + Attr option) \<times> sys" where
  "SetAttr inode sm attr c s =
    (case fenced_tx inode (SetAttr_tx inode sm attr c (s_now s)) s of
       (Inl e, s1) \<Rightarrow> (Inl e, s1)
     | (Inr _, s1) \<Rightarrow> (case GetAttrOrNil inode s1 of (a, s2) \<Rightarrow> (Inr a, s2)))"

end
