(* ===== verification/Meta_Tree.thy ===== *)
theory Meta_Tree
  imports Meta_Ops
begin

text \<open>
  The invariant of the directory tree and the proof that the namespace operations of ops.go preserve it.

  The tree is read through four functions of the database: the node row of an inode, the edge of a name,
  the number of names of an inode (\<open>ilinks\<close>) and the number of subdirectories of a directory (\<open>subdirs\<close>).
  The collection \<open>tree_simps\<close> says how every SQL statement changes them.
\<close>

section \<open>The four views\<close>

definition ilinks :: "db \<Rightarrow> Ino \<Rightarrow> nat" where
  "ilinks db i = cnt (\<lambda>e. ed_inode e = i) (t_edge db)"

definition subdirs :: "db \<Rightarrow> Ino \<Rightarrow> nat" where
  "subdirs db i = cnt (\<lambda>e. ed_parent e = i \<and> ed_type e = TypeDirectory) (t_edge db)"

definition uniq :: "db \<Rightarrow> bool" where
  "uniq db \<longleftrightarrow> distinct (map n_inode (t_node db)) \<and> distinct (map edge_key (t_edge db))"

definition same_tree :: "db \<Rightarrow> db \<Rightarrow> bool" where
  "same_tree db db' \<longleftrightarrow> t_node db' = t_node db \<and> t_edge db' = t_edge db"

lemma same_tree_views:
  assumes "same_tree db db'"
  shows "sel_node db' = sel_node db" "sel_edge db' = sel_edge db" "ilinks db' = ilinks db"
    "subdirs db' = subdirs db" "uniq db' = uniq db" "getAttr db' = getAttr db" "count_children db' = count_children db"
  using assms
  by (simp_all add: same_tree_def sel_node_def sel_edge_def ilinks_def subdirs_def uniq_def getAttr_def
      count_children_def fun_eq_iff)

text \<open>Statements that do not touch the tree.\<close>

lemma same_tree_stmts:
  "same_tree db (del_symlink i db)" "same_tree db (del_slices i db)" "same_tree db (del_xattrs i db)"
  "same_tree db (appendChangelog now i op p db)" "ins_symlink i tgt db = Some db' \<Longrightarrow> same_tree db db'"
  "same_but_leases db db' \<Longrightarrow> same_tree db db'" "same_tree db (ins_slices rs db)"
proof -
  show "ins_symlink i tgt db = Some db' \<Longrightarrow> same_tree db db'"
    by (auto simp: same_tree_def ins_symlink_def split: option.splits)
  show "same_but_leases db db' \<Longrightarrow> same_tree db db'"
    by (simp add: same_tree_def same_but_leases_simps)
  show "same_tree db (ins_slices rs db)"
    by (induction rs db rule: ins_slices.induct) (auto simp: same_tree_def split: option.splits)
qed (simp_all add: same_tree_def stmt_defs)

lemmas tree_frame [tree_simps] =
  same_tree_views [OF same_tree_stmts(1)] same_tree_views [OF same_tree_stmts(2)]
  same_tree_views [OF same_tree_stmts(3)] same_tree_views [OF same_tree_stmts(4)]
  same_tree_views [OF same_tree_stmts(7)]

section \<open>Effect of the statements\<close>

lemma node_stmts_edges [tree_simps]:
  "sel_edge (upd_node i f db) = sel_edge db" "ilinks (upd_node i f db) = ilinks db"
  "subdirs (upd_node i f db) = subdirs db" "count_children (upd_node i f db) = count_children db"
  "sel_edge (del_node i db) = sel_edge db" "ilinks (del_node i db) = ilinks db"
  "subdirs (del_node i db) = subdirs db" "count_children (del_node i db) = count_children db"
  by (simp_all add: stmt_defs sel_edge_def ilinks_def subdirs_def count_children_def fun_eq_iff)

lemma edge_stmts_nodes [tree_simps]:
  "sel_node (del_edge p nm db) = sel_node db" "sel_node (upd_edge p nm g db) = sel_node db"
  "getAttr (del_edge p nm db) = getAttr db" "getAttr (upd_edge p nm g db) = getAttr db"
  by (simp_all add: stmt_defs sel_node_def getAttr_def fun_eq_iff)

lemma sel_node_upd [tree_simps]:
  assumes "\<And>r. n_inode (f r) = n_inode r"
  shows "sel_node (upd_node i f db) j = (if j = i then map_option f (sel_node db i) else sel_node db j)"
  by (simp add: sel_node_def upd_node_def sel_upd [of n_inode, OF assms])

lemma sel_node_del [tree_simps]: "sel_node (del_node i db) j = (if j = i then None else sel_node db j)"
  by (simp add: sel_node_def del_node_def sel_del)

lemma sel_edge_del [tree_simps]:
  "sel_edge (del_edge p nm db) q m = (if q = p \<and> m = nm then None else sel_edge db q m)"
  by (simp add: sel_edge_def del_edge_def sel_del)

lemma sel_edge_upd [tree_simps]:
  assumes "\<And>e. edge_key (g e) = edge_key e"
  shows "sel_edge (upd_edge p nm g db) q m = (if q = p \<and> m = nm then map_option g (sel_edge db p nm) else sel_edge db q m)"
  using sel_upd [of edge_key g, OF assms] by (simp add: sel_edge_def upd_edge_def)

lemma ins_node_views:
  assumes "ins_node r db = Some db'"
  shows "sel_node db (n_inode r) = None" "sel_node db' j = (if j = n_inode r then Some r else sel_node db j)"
    "sel_edge db' = sel_edge db" "ilinks db' = ilinks db" "subdirs db' = subdirs db"
    "uniq db \<Longrightarrow> uniq db'" "count_children db' = count_children db"
proof -
  have none: "sel_node db (n_inode r) = None" and db': "db' = db\<lparr>t_node := t_node db @ [r]\<rparr>"
    using assms by (auto simp: ins_node_def split: option.splits)
  show "sel_node db (n_inode r) = None" by (rule none)
  show "sel_node db' j = (if j = n_inode r then Some r else sel_node db j)"
    using none by (auto simp: db' sel_node_def split: option.splits)
  show "sel_edge db' = sel_edge db" "ilinks db' = ilinks db" "subdirs db' = subdirs db" "count_children db' = count_children db"
    by (simp_all add: db' sel_edge_def ilinks_def subdirs_def count_children_def fun_eq_iff)
  show "uniq db \<Longrightarrow> uniq db'"
    using none distinct_map_ins [of n_inode "t_node db" r] by (simp add: uniq_def db' sel_node_def)
qed

lemma ins_edge_views:
  assumes "ins_edge e db = Some db'"
  shows "sel_edge db (ed_parent e) (ed_name e) = None"
    "sel_edge db' q m = (if q = ed_parent e \<and> m = ed_name e then Some e else sel_edge db q m)"
    "sel_node db' = sel_node db"
    "ilinks db' i = ilinks db i + (if ed_inode e = i then 1 else 0)"
    "subdirs db' i = subdirs db i + (if ed_parent e = i \<and> ed_type e = TypeDirectory then 1 else 0)"
    "uniq db \<Longrightarrow> uniq db'"
proof -
  have none: "sel_edge db (ed_parent e) (ed_name e) = None" and db': "db' = db\<lparr>t_edge := t_edge db @ [e]\<rparr>"
    using assms by (auto simp: ins_edge_def split: option.splits)
  show "sel_edge db (ed_parent e) (ed_name e) = None" by (rule none)
  show "sel_edge db' q m = (if q = ed_parent e \<and> m = ed_name e then Some e else sel_edge db q m)"
    using none by (auto simp: db' sel_edge_def split: option.splits)
  show "sel_node db' = sel_node db" by (simp add: db' sel_node_def fun_eq_iff)
  show "ilinks db' i = ilinks db i + (if ed_inode e = i then 1 else 0)" by (simp add: db' ilinks_def)
  show "subdirs db' i = subdirs db i + (if ed_parent e = i \<and> ed_type e = TypeDirectory then 1 else 0)"
    by (simp add: db' subdirs_def)
  show "uniq db \<Longrightarrow> uniq db'"
    using none distinct_map_ins [of edge_key "t_edge db" e] by (simp add: uniq_def db' sel_edge_def)
qed

lemma ilinks_del_edge:
  assumes "uniq db" and "sel_edge db p nm = Some e"
  shows "ilinks db i = ilinks (del_edge p nm db) i + (if ed_inode e = i then 1 else 0)"
  using assms cnt_del [of edge_key "t_edge db" "(p, nm)" e "\<lambda>e. ed_inode e = i"]
  by (simp add: ilinks_def uniq_def sel_edge_def del_edge_def)

lemma subdirs_del_edge:
  assumes "uniq db" and "sel_edge db p nm = Some e"
  shows "subdirs db i = subdirs (del_edge p nm db) i + (if p = i \<and> ed_type e = TypeDirectory then 1 else 0)"
  using assms cnt_del [of edge_key "t_edge db" "(p, nm)" e "\<lambda>e. ed_parent e = i \<and> ed_type e = TypeDirectory"]
    sel_Some_key [of edge_key "(p, nm)" "t_edge db" e]
  by (simp add: subdirs_def uniq_def sel_edge_def del_edge_def)

lemma uniq_stmts [tree_simps]:
  "(\<And>r. n_inode (f r) = n_inode r) \<Longrightarrow> uniq db \<Longrightarrow> uniq (upd_node i f db)"
  "uniq db \<Longrightarrow> uniq (del_node i db)" "uniq db \<Longrightarrow> uniq (del_edge p nm db)"
  "(\<And>e. edge_key (g e) = edge_key e) \<Longrightarrow> uniq db \<Longrightarrow> uniq (upd_edge p nm g db)"
  by (simp_all add: uniq_def stmt_defs distinct_map_upd distinct_map_del)

lemma touch_inode [simp]:
  "n_inode (touch ts ns r) = n_inode r" "n_type (touch ts ns r) = n_type r" "n_nlink (touch ts ns r) = n_nlink r"
  "n_parent (touch ts ns r) = n_parent r" "n_inode (touch_c ts ns r) = n_inode r" "n_type (touch_c ts ns r) = n_type r"
  "n_nlink (touch_c ts ns r) = n_nlink r" "n_parent (touch_c ts ns r) = n_parent r"
  "n_length (touch ts ns r) = n_length r" "n_length (touch_c ts ns r) = n_length r"
  by (simp_all add: touch_def touch_c_def)

lemma sel_edge_key: "sel_edge db p nm = Some e \<Longrightarrow> ed_parent e = p \<and> ed_name e = nm"
  by (auto simp: sel_edge_def dest: sel_Some_key)

lemma sel_node_key: "sel_node db i = Some r \<Longrightarrow> n_inode r = i"
  by (auto simp: sel_node_def dest: sel_Some_key)

lemma ilinks_pos: "sel_edge db p nm = Some e \<Longrightarrow> 0 < ilinks db (ed_inode e)"
  by (auto simp: ilinks_def cnt_pos_iff sel_edge_def dest: sel_Some_in)

section \<open>The invariant\<close>

definition node_ok :: "db \<Rightarrow> Ino \<Rightarrow> node_row \<Rightarrow> bool" where
  "node_ok db i r \<longleftrightarrow>
    (if n_type r = TypeDirectory
     then n_nlink r = 2 + int (subdirs db i) \<and> ilinks db i = (if i = RootInode then 0 else 1)
     else n_nlink r = int (ilinks db i))"

definition edge_ok :: "db \<Rightarrow> edge_row \<Rightarrow> bool" where
  "edge_ok db e \<longleftrightarrow>
    (\<exists>p. sel_node db (ed_parent e) = Some p \<and> n_type p = TypeDirectory) \<and>
    (\<exists>t. sel_node db (ed_inode e) = Some t \<and> n_type t = ed_type e \<and>
       (ed_type e = TypeDirectory \<longrightarrow> n_parent t = ed_parent e))"

definition tree_ok :: "db \<Rightarrow> bool" where
  "tree_ok db \<longleftrightarrow> uniq db \<and>
    (\<exists>r. sel_node db RootInode = Some r \<and> n_type r = TypeDirectory) \<and>
    (\<forall>i r. sel_node db i = Some r \<longrightarrow> node_ok db i r) \<and>
    (\<forall>p nm e. sel_edge db p nm = Some e \<longrightarrow> edge_ok db e)"

lemma tree_okD:
  assumes "tree_ok db"
  shows "uniq db" "\<exists>r. sel_node db RootInode = Some r \<and> n_type r = TypeDirectory"
    "sel_node db i = Some r \<Longrightarrow> node_ok db i r" "sel_edge db p nm = Some e \<Longrightarrow> edge_ok db e"
  using assms by (simp_all add: tree_ok_def)

lemma tree_ok_same_tree: "same_tree db db' \<Longrightarrow> tree_ok db' = tree_ok db"
  by (simp add: tree_ok_def node_ok_def edge_ok_def same_tree_views)

lemma missing_node_views:
  assumes "tree_ok db" and "sel_node db i = None"
  shows "ilinks db i = 0" and "subdirs db i = 0" and "sel_edge db i nm = None"
proof -
  have e: "edge_ok db e" if "e \<in> set (t_edge db)" for e
  proof -
    have "sel_edge db (ed_parent e) (ed_name e) = Some e"
      using tree_okD(1) [OF assms(1)] that by (simp add: sel_edge_def uniq_def sel_in_distinct [of edge_key])
    then show ?thesis by (rule tree_okD(4) [OF assms(1)])
  qed
  show "ilinks db i = 0" "subdirs db i = 0"
    using e assms(2) unfolding ilinks_def subdirs_def cnt_0_iff edge_ok_def by fastforce+
  show "sel_edge db i nm = None"
  proof (cases "sel_edge db i nm")
    case (Some x)
    with tree_okD(4) [OF assms(1) Some] assms(2) sel_edge_key [OF Some] show ?thesis
      by (auto simp: edge_ok_def)
  qed simp
qed

section \<open>Creation\<close>

lemma new_row_simps [simp]:
  "n_inode (new_row i p typ mode rdev tgt c ts ns) = i" "n_type (new_row i p typ mode rdev tgt c ts ns) = typ"
  "n_parent (new_row i p typ mode rdev tgt c ts ns) = p"
  "n_nlink (new_row i p typ mode rdev tgt c ts ns) = (if typ = TypeDirectory then 2 else 1)"
  by (simp_all add: new_row_def)

lemma create_tx_mono: "fault_mono (create_tx i p nm typ mode rdev tgt op c now)"
  unfolding create_tx_def Let_def by (intro fault_intros) (auto intro!: fault_intros)

lemma create_tx_commit:
  assumes "create_tx i p nm typ mode rdev tgt op c now [] db = (Inr (a, db'), [])"
  shows "\<exists>pr. sel_node db p = Some pr \<and> n_type pr = TypeDirectory \<and>
      sel_edge db p nm = None \<and> sel_node db i = None \<and>
      sel_node db' = (sel_node db)(i \<mapsto> new_row i p typ mode rdev tgt c (unix_s now) (unix_ns now),
        p \<mapsto> touch (unix_s now) (unix_ns now) (if typ = TypeDirectory then pr\<lparr>n_nlink := n_nlink pr + 1\<rparr> else pr)) \<and>
      sel_edge db' = (\<lambda>q m. if q = p \<and> m = nm
        then Some \<lparr>ed_parent = p, ed_name = nm, ed_inode = i, ed_type = typ\<rparr> else sel_edge db q m) \<and>
      ilinks db' = (\<lambda>j. ilinks db j + (if j = i then 1 else 0)) \<and>
      subdirs db' = (\<lambda>j. subdirs db j + (if j = p \<and> typ = TypeDirectory then 1 else 0)) \<and>
      (uniq db \<longrightarrow> uniq db') \<and>
      a = scanAttr (new_row i p typ mode rdev tgt c (unix_s now) (unix_ns now))"
proof -
  let ?e = "\<lparr>ed_parent = p, ed_name = nm, ed_inode = i, ed_type = typ\<rparr>"
  let ?row = "new_row i p typ mode rdev tgt c (unix_s now) (unix_ns now)"
  let ?f = "\<lambda>r. touch (unix_s now) (unix_ns now) (if typ = TypeDirectory then r\<lparr>n_nlink := n_nlink r + 1\<rparr> else r)"
  obtain pr db1 db2 db3 where
    p: "sel_node db p = Some pr" "n_type pr = TypeDirectory" and
    1: "ins_edge ?e db = Some db1" and 2: "ins_node ?row db1 = Some db2" and
    s: "if typ = TypeSymlink then ins_symlink i tgt db2 = Some db3 else db3 = db2" and
    db': "db' = appendChangelog now i op (PCreate p nm typ) (upd_node p ?f db3)" and a: "a = scanAttr ?row"
    using assms
    by (auto simp: create_tx_def Let_def tx_simps getAttr_Some ins_edge_new_def
        split: option.splits if_splits)
  have 3: "same_tree db2 db3"
    using s same_tree_stmts(5) by (auto simp: same_tree_def split: if_splits)
  note v1 = ins_edge_views [OF 1] and v2 = ins_node_views [OF 2] and v3 = same_tree_views [OF 3]
  have ni: "sel_node db i = None" using v2(1) v1(3) by simp
  with p have "p \<noteq> i" by auto
  have s: "sel_node db' = (sel_node db)(i \<mapsto> ?row, p \<mapsto> ?f pr)"
    using p(1) \<open>p \<noteq> i\<close> by (auto simp: db' tree_simps v1 v2 v3 fun_eq_iff)
  have e: "sel_edge db' = (\<lambda>q m. if q = p \<and> m = nm then Some ?e else sel_edge db q m)"
    by (simp add: db' tree_simps v1 v2 v3 fun_eq_iff)
  have il: "ilinks db' = (\<lambda>j. ilinks db j + (if j = i then 1 else 0))"
    by (auto simp: db' tree_simps v1 v2 v3 fun_eq_iff)
  have sd: "subdirs db' = (\<lambda>j. subdirs db j + (if j = p \<and> typ = TypeDirectory then 1 else 0))"
    by (auto simp: db' tree_simps v1 v2 v3 fun_eq_iff)
  have u: "uniq db \<longrightarrow> uniq db'"
    using v1(6) v2(6) v3(5) by (auto simp: db' tree_simps)
  show ?thesis using p s e il sd u ni v1(1) a by simp
qed

lemma create_tx_tree_ok:
  assumes ok: "tree_ok db" and run: "create_tx i p nm typ mode rdev tgt op c now [] db = (Inr (a, db'), [])"
  shows "tree_ok db'"
proof -
  from create_tx_commit [OF run] obtain pr where pr: "sel_node db p = Some pr" "n_type pr = TypeDirectory"
    and free: "sel_edge db p nm = None" "sel_node db i = None"
    and v: "sel_node db' = (sel_node db)(i \<mapsto> new_row i p typ mode rdev tgt c (unix_s now) (unix_ns now),
        p \<mapsto> touch (unix_s now) (unix_ns now) (if typ = TypeDirectory then pr\<lparr>n_nlink := n_nlink pr + 1\<rparr> else pr))"
      "sel_edge db' = (\<lambda>q m. if q = p \<and> m = nm
        then Some \<lparr>ed_parent = p, ed_name = nm, ed_inode = i, ed_type = typ\<rparr> else sel_edge db q m)"
      "ilinks db' = (\<lambda>j. ilinks db j + (if j = i then 1 else 0))"
      "subdirs db' = (\<lambda>j. subdirs db j + (if j = p \<and> typ = TypeDirectory then 1 else 0))"
      "uniq db \<longrightarrow> uniq db'" by blast
  have pi: "p \<noteq> i" using pr free by auto
  have ri: "RootInode \<noteq> i" using tree_okD(2) [OF ok] free by auto
  note m = missing_node_views [OF ok free(2)]
  have keep: "\<exists>r'. sel_node db' j = Some r' \<and> n_type r' = n_type r \<and> n_parent r' = n_parent r"
    if "sel_node db j = Some r" for j r
    using that pr(1) free(2) by (auto simp: v)
  have nodes: "node_ok db' j r" if "sel_node db' j = Some r" for j r
    using that tree_okD(3) [OF ok, of j] tree_okD(3) [OF ok pr(1)] m pi ri pr(2)
    by (auto simp: v node_ok_def split: if_splits)
  have edges: "edge_ok db' e" if "sel_edge db' q n = Some e" for q n e
  proof (cases "q = p \<and> n = nm")
    case True
    with that have "e = \<lparr>ed_parent = p, ed_name = nm, ed_inode = i, ed_type = typ\<rparr>" by (simp add: v)
    then show ?thesis using pr(2) pi by (simp add: edge_ok_def v)
  next
    case False
    with that have "sel_edge db q n = Some e" by (simp add: v split: if_splits)
    from tree_okD(4) [OF ok this] keep show ?thesis unfolding edge_ok_def by metis
  qed
  from tree_okD(2) [OF ok] keep have "\<exists>r. sel_node db' RootInode = Some r \<and> n_type r = TypeDirectory" by metis
  with nodes edges v(5) tree_okD(1) [OF ok] show ?thesis by (auto simp: tree_ok_def)
qed

section \<open>Removal\<close>

lemma deleteInodeRows_mono [fault_intros]: "fault_mono k \<Longrightarrow> fault_mono (deleteInodeRows i k)"
  unfolding deleteInodeRows_def by (intro fault_intros)

lemma Unlink_tx_mono: "fault_mono (Unlink_tx e p nm now)"
  unfolding Unlink_tx_def Let_def by (intro fault_intros)

lemma Unlink_tx_commit:
  assumes "Unlink_tx eng p nm now [] db = (Inr (sus, db'), [])"
  shows "\<exists>e r. sel_edge db p nm = Some e \<and> ed_type e \<noteq> TypeDirectory \<and> sel_node db (ed_inode e) = Some r \<and>
      sel_node db' = (\<lambda>j. map_option (if j = p then touch (unix_s now) (unix_ns now) else id)
         ((if n_nlink r \<le> 1 \<and> \<not> isOpen eng (ed_inode e) then (sel_node db)(ed_inode e := None)
           else (sel_node db)(ed_inode e \<mapsto> touch_c (unix_s now) (unix_ns now) (r\<lparr>n_nlink := n_nlink r - 1\<rparr>))) j)) \<and>
      sel_edge db' = (\<lambda>q m. if q = p \<and> m = nm then None else sel_edge db q m) \<and>
      ilinks db' = ilinks (del_edge p nm db) \<and> subdirs db' = subdirs (del_edge p nm db) \<and>
      (uniq db \<longrightarrow> uniq db') \<and>
      sus = (if n_nlink r \<le> 1 \<and> isOpen eng (ed_inode e) then Some (ed_inode e) else None)"
proof -
  obtain e where e: "sel_edge db p nm = Some e" "ed_type e \<noteq> TypeDirectory"
    using assms by (auto simp: Unlink_tx_def tx_simps Let_def split: option.splits if_splits)
  let ?i = "ed_inode e"
  let ?fin = "\<lambda>d. appendChangelog now ?i OpUnlink (PEntry p nm) (upd_node p (touch (unix_s now) (unix_ns now)) d)"
  obtain r where r: "sel_node db ?i = Some r"
    using assms e by (auto simp: Unlink_tx_def tx_simps Let_def bump_nlink_def tree_simps split: option.splits)
  let ?db2 = "upd_node ?i (\<lambda>r. touch_c (unix_s now) (unix_ns now) (r\<lparr>n_nlink := n_nlink r - 1\<rparr>)) (del_edge p nm db)"
  have db': "db' = ?fin (if n_nlink r \<le> 1 \<and> \<not> isOpen eng ?i
       then del_xattrs ?i (del_slices ?i (del_symlink ?i (del_node ?i ?db2))) else ?db2)"
    and sus: "sus = (if n_nlink r \<le> 1 \<and> isOpen eng ?i then Some ?i else None)"
    using assms e r
    by (auto simp: Unlink_tx_def tx_simps Let_def bump_nlink_def tree_simps deleteInodeRows_def split: if_splits)
  have "sel_node db' = (\<lambda>j. map_option (if j = p then touch (unix_s now) (unix_ns now) else id)
         ((if n_nlink r \<le> 1 \<and> \<not> isOpen eng ?i then (sel_node db)(?i := None)
           else (sel_node db)(?i \<mapsto> touch_c (unix_s now) (unix_ns now) (r\<lparr>n_nlink := n_nlink r - 1\<rparr>))) j))"
    using r by (auto simp: db' tree_simps fun_eq_iff option.map_id)
  moreover have "sel_edge db' = (\<lambda>q m. if q = p \<and> m = nm then None else sel_edge db q m)"
      "ilinks db' = ilinks (del_edge p nm db)" "subdirs db' = subdirs (del_edge p nm db)" "uniq db \<longrightarrow> uniq db'"
    by (auto simp: db' tree_simps fun_eq_iff)
  ultimately show ?thesis using e r sus by (intro exI [of _ e] exI [of _ r]) simp
qed

lemma Unlink_tx_tree_ok:
  assumes ok: "tree_ok db" and run: "Unlink_tx eng p nm now [] db = (Inr (sus, db'), [])"
  shows "tree_ok db'"
proof -
  from Unlink_tx_commit [OF run] obtain e r where e: "sel_edge db p nm = Some e" "ed_type e \<noteq> TypeDirectory"
    and r: "sel_node db (ed_inode e) = Some r"
    and v: "sel_node db' = (\<lambda>j. map_option (if j = p then touch (unix_s now) (unix_ns now) else id)
         ((if n_nlink r \<le> 1 \<and> \<not> isOpen eng (ed_inode e) then (sel_node db)(ed_inode e := None)
           else (sel_node db)(ed_inode e \<mapsto> touch_c (unix_s now) (unix_ns now) (r\<lparr>n_nlink := n_nlink r - 1\<rparr>))) j))"
      "sel_edge db' = (\<lambda>q m. if q = p \<and> m = nm then None else sel_edge db q m)"
      "ilinks db' = ilinks (del_edge p nm db)" "subdirs db' = subdirs (del_edge p nm db)" "uniq db \<longrightarrow> uniq db'"
    by blast
  define i where "i = ed_inode e"
  note u = tree_okD(1) [OF ok]
  have il: "ilinks db j = ilinks db' j + (if j = i then 1 else 0)" for j
    using ilinks_del_edge [OF u e(1), of j] by (simp add: v i_def)
  have sd: "subdirs db j = subdirs db' j" for j
    using subdirs_del_edge [OF u e(1), of j] e(2) by (simp add: v)
  have rt: "n_type r \<noteq> TypeDirectory" "n_nlink r = int (ilinks db i)"
    and pd: "\<exists>pr. sel_node db p = Some pr \<and> n_type pr = TypeDirectory"
    using tree_okD(4) [OF ok e(1)] tree_okD(3) [OF ok r] e(2) r sel_edge_key [OF e(1)]
    by (auto simp: edge_ok_def node_ok_def i_def)
  have pi: "p \<noteq> i" and rooti: "RootInode \<noteq> i" using pd tree_okD(2) [OF ok] rt(1) r by (auto simp: i_def)
  define dead where "dead \<longleftrightarrow> n_nlink r \<le> 1 \<and> \<not> isOpen eng i"
  have keep: "\<exists>t'. sel_node db' j = Some t' \<and> n_type t' = n_type t \<and> n_parent t' = n_parent t"
    if "sel_node db j = Some t" "\<not> (dead \<and> j = i)" for j t
    using that r by (auto simp: v i_def dead_def)
  have gone: "sel_edge db' q m = Some e' \<Longrightarrow> dead \<Longrightarrow> ed_inode e' \<noteq> i" for q m e'
    using ilinks_pos [of db' q m e'] il [of i] rt(2) by (auto simp: dead_def)
  have nodes: "node_ok db' j t" if "sel_node db' j = Some t" for j t
    using that tree_okD(3) [OF ok, of j] il [of j] sd [of j] rt pi r
    by (auto simp: v i_def node_ok_def split: if_splits)
  have edges: "edge_ok db' e'" if s: "sel_edge db' q m = Some e'" for q m e'
  proof -
    have s0: "sel_edge db q m = Some e'" using s by (simp add: v split: if_splits)
    obtain pr t where t: "sel_node db q = Some pr" "n_type pr = TypeDirectory" "sel_node db (ed_inode e') = Some t"
      "n_type t = ed_type e'" "ed_type e' = TypeDirectory \<longrightarrow> n_parent t = ed_parent e'"
      using tree_okD(4) [OF ok s0] sel_edge_key [OF s0] by (auto simp: edge_ok_def)
    have "q \<noteq> i" using t(1,2) rt(1) r by (auto simp: i_def)
    with keep [OF t(1)] keep [OF t(3)] gone [OF s] t sel_edge_key [OF s0] show ?thesis
      unfolding edge_ok_def by metis
  qed
  from tree_okD(2) [OF ok] keep rooti have "\<exists>r. sel_node db' RootInode = Some r \<and> n_type r = TypeDirectory" by metis
  with nodes edges v(5) u show ?thesis by (auto simp: tree_ok_def)
qed

lemma Rmdir_tx_mono: "fault_mono (Rmdir_tx p nm now)"
  unfolding Rmdir_tx_def Let_def by (intro fault_intros)

lemma Rmdir_tx_commit:
  assumes "Rmdir_tx p nm now [] db = (Inr (x, db'), [])"
  shows "\<exists>e. sel_edge db p nm = Some e \<and> ed_type e = TypeDirectory \<and> count_children db (ed_inode e) = 0 \<and>
      sel_node db' = (\<lambda>j. map_option (if j = p
          then (\<lambda>r. touch (unix_s now) (unix_ns now) (r\<lparr>n_nlink := n_nlink r - 1\<rparr>)) else id)
         (((sel_node db)(ed_inode e := None)) j)) \<and>
      sel_edge db' = (\<lambda>q m. if q = p \<and> m = nm then None else sel_edge db q m) \<and>
      ilinks db' = ilinks (del_edge p nm db) \<and> subdirs db' = subdirs (del_edge p nm db) \<and> (uniq db \<longrightarrow> uniq db')"
proof -
  obtain e where e: "sel_edge db p nm = Some e" "ed_type e = TypeDirectory" "count_children db (ed_inode e) = 0"
    using assms by (auto simp: Rmdir_tx_def tx_simps Let_def split: option.splits if_splits)
  let ?i = "ed_inode e"
  have db': "db' = appendChangelog now ?i OpRmdir (PEntry p nm)
      (upd_node p (\<lambda>r. touch (unix_s now) (unix_ns now) (r\<lparr>n_nlink := n_nlink r - 1\<rparr>))
        (del_xattrs ?i (del_node ?i (del_edge p nm db))))"
    using assms e by (simp add: Rmdir_tx_def tx_simps Let_def)
  have "sel_node db' = (\<lambda>j. map_option (if j = p
          then (\<lambda>r. touch (unix_s now) (unix_ns now) (r\<lparr>n_nlink := n_nlink r - 1\<rparr>)) else id)
         (((sel_node db)(?i := None)) j))"
    by (auto simp: db' tree_simps fun_eq_iff option.map_id)
  moreover have "sel_edge db' = (\<lambda>q m. if q = p \<and> m = nm then None else sel_edge db q m)"
      "ilinks db' = ilinks (del_edge p nm db)" "subdirs db' = subdirs (del_edge p nm db)" "uniq db \<longrightarrow> uniq db'"
    by (auto simp: db' tree_simps fun_eq_iff)
  ultimately show ?thesis using e by (intro exI [of _ e]) simp
qed

lemma no_children_edge: "count_children db i = 0 \<Longrightarrow> sel_edge db i nm = None"
  by (cases "sel_edge db i nm")
    (auto simp: count_children_def cnt_0_iff sel_edge_def dest: sel_Some_in sel_Some_key)

lemma no_children_subdirs: "count_children db i = 0 \<Longrightarrow> subdirs db i = 0"
  by (auto simp: count_children_def subdirs_def cnt_0_iff)

lemma Rmdir_tx_tree_ok:
  assumes ok: "tree_ok db" and run: "Rmdir_tx p nm now [] db = (Inr (x, db'), [])"
  shows "tree_ok db'"
proof -
  from Rmdir_tx_commit [OF run] obtain e where e: "sel_edge db p nm = Some e" "ed_type e = TypeDirectory"
      "count_children db (ed_inode e) = 0"
    and v: "sel_node db' = (\<lambda>j. map_option (if j = p
          then (\<lambda>r. touch (unix_s now) (unix_ns now) (r\<lparr>n_nlink := n_nlink r - 1\<rparr>)) else id)
         (((sel_node db)(ed_inode e := None)) j))"
      "sel_edge db' = (\<lambda>q m. if q = p \<and> m = nm then None else sel_edge db q m)"
      "ilinks db' = ilinks (del_edge p nm db)" "subdirs db' = subdirs (del_edge p nm db)" "uniq db \<longrightarrow> uniq db'"
    by blast
  define i where "i = ed_inode e"
  note u = tree_okD(1) [OF ok]
  have il: "ilinks db j = ilinks db' j + (if j = i then 1 else 0)" for j
    using ilinks_del_edge [OF u e(1), of j] by (simp add: v i_def)
  have sd: "subdirs db j = subdirs db' j + (if j = p then 1 else 0)" for j
    using subdirs_del_edge [OF u e(1), of j] e(2) by (simp add: v)
  obtain t where t: "sel_node db i = Some t" "n_type t = TypeDirectory"
    and pd: "\<exists>pr. sel_node db p = Some pr \<and> n_type pr = TypeDirectory"
    using tree_okD(4) [OF ok e(1)] e(2) sel_edge_key [OF e(1)] by (auto simp: edge_ok_def i_def)
  have one: "ilinks db i = 1" "i \<noteq> RootInode"
    using tree_okD(3) [OF ok t(1)] t(2) il [of i] by (auto simp: node_ok_def split: if_splits)
  have gone: "sel_edge db' q m = Some e' \<Longrightarrow> ed_inode e' \<noteq> i" for q m e'
    using ilinks_pos [of db' q m e'] il [of i] one by auto
  have keep: "\<exists>t'. sel_node db' j = Some t' \<and> n_type t' = n_type t \<and> n_parent t' = n_parent t"
    if "sel_node db j = Some t" "j \<noteq> i" for j t
    using that by (auto simp: v i_def)
  have nodes: "node_ok db' j r" if "sel_node db' j = Some r" for j r
    using that tree_okD(3) [OF ok, of j] il [of j] sd [of j] pd
    by (auto simp: v i_def node_ok_def split: if_splits)
  have edges: "edge_ok db' e'" if s: "sel_edge db' q m = Some e'" for q m e'
  proof -
    have s0: "sel_edge db q m = Some e'" using s by (simp add: v split: if_splits)
    have "q \<noteq> i" using s0 no_children_edge [OF e(3)] by (auto simp: i_def)
    with tree_okD(4) [OF ok s0] sel_edge_key [OF s0] gone [OF s] keep show ?thesis
      unfolding edge_ok_def by metis
  qed
  from tree_okD(2) [OF ok] keep one(2) have "\<exists>r. sel_node db' RootInode = Some r \<and> n_type r = TypeDirectory" by metis
  with nodes edges v(5) u show ?thesis by (auto simp: tree_ok_def)
qed

section \<open>Hard links\<close>

lemma Link_tx_mono: "fault_mono (Link_tx i p nm now)"
  unfolding Link_tx_def Let_def by (intro fault_intros)

lemma Link_tx_commit:
  assumes "Link_tx i p nm now [] db = (Inr (a, db'), [])"
  shows "\<exists>r pr. sel_node db i = Some r \<and> n_type r \<noteq> TypeDirectory \<and>
      sel_node db p = Some pr \<and> n_type pr = TypeDirectory \<and> sel_edge db p nm = None \<and>
      sel_node db' = (sel_node db)(i \<mapsto> touch_c (unix_s now) (unix_ns now) (r\<lparr>n_nlink := n_nlink r + 1\<rparr>),
        p \<mapsto> touch (unix_s now) (unix_ns now) pr) \<and>
      sel_edge db' = (\<lambda>q m. if q = p \<and> m = nm
        then Some \<lparr>ed_parent = p, ed_name = nm, ed_inode = i, ed_type = n_type r\<rparr> else sel_edge db q m) \<and>
      ilinks db' = (\<lambda>j. ilinks db j + (if j = i then 1 else 0)) \<and> subdirs db' = subdirs db \<and>
      (uniq db \<longrightarrow> uniq db') \<and> a_nlink a = word_of_int (n_nlink r + 1)"
proof -
  obtain r pr db1 where r: "sel_node db i = Some r" "n_type r \<noteq> TypeDirectory"
    and p: "sel_node db p = Some pr" "n_type pr = TypeDirectory"
    and 1: "ins_edge \<lparr>ed_parent = p, ed_name = nm, ed_inode = i, ed_type = n_type r\<rparr> db = Some db1"
    using assms by (auto simp: Link_tx_def tx_simps Let_def getAttr_Some ins_edge_new_def split: option.splits if_splits)
  note v1 = ins_edge_views [OF 1]
  have db': "db' = appendChangelog now i OpLink (PEntry p nm) (upd_node p (touch (unix_s now) (unix_ns now))
      (upd_node i (\<lambda>r. touch_c (unix_s now) (unix_ns now) (r\<lparr>n_nlink := n_nlink r + 1\<rparr>)) db1))"
    and a: "a_nlink a = word_of_int (n_nlink r + 1)"
    using assms r p 1 v1(3)
    by (auto simp: Link_tx_def tx_simps Let_def getAttr_def ins_edge_new_def bump_nlink_def)
  have pi: "p \<noteq> i" using r p by auto
  have "sel_node db' = (sel_node db)(i \<mapsto> touch_c (unix_s now) (unix_ns now) (r\<lparr>n_nlink := n_nlink r + 1\<rparr>),
        p \<mapsto> touch (unix_s now) (unix_ns now) pr)"
    using r p pi by (auto simp: db' tree_simps v1 fun_eq_iff)
  moreover have "sel_edge db' = (\<lambda>q m. if q = p \<and> m = nm
        then Some \<lparr>ed_parent = p, ed_name = nm, ed_inode = i, ed_type = n_type r\<rparr> else sel_edge db q m)"
      "ilinks db' = (\<lambda>j. ilinks db j + (if j = i then 1 else 0))" "subdirs db' = subdirs db" "uniq db \<longrightarrow> uniq db'"
    using r(2) v1(6) by (auto simp: db' tree_simps v1 fun_eq_iff)
  ultimately show ?thesis using r p a v1(1) by simp
qed

lemma Link_tx_tree_ok:
  assumes ok: "tree_ok db" and run: "Link_tx i p nm now [] db = (Inr (a, db'), [])"
  shows "tree_ok db'"
proof -
  from Link_tx_commit [OF run] obtain r pr where r: "sel_node db i = Some r" "n_type r \<noteq> TypeDirectory"
    and p: "sel_node db p = Some pr" "n_type pr = TypeDirectory"
    and v: "sel_node db' = (sel_node db)(i \<mapsto> touch_c (unix_s now) (unix_ns now) (r\<lparr>n_nlink := n_nlink r + 1\<rparr>),
        p \<mapsto> touch (unix_s now) (unix_ns now) pr)"
      "sel_edge db' = (\<lambda>q m. if q = p \<and> m = nm
        then Some \<lparr>ed_parent = p, ed_name = nm, ed_inode = i, ed_type = n_type r\<rparr> else sel_edge db q m)"
      "ilinks db' = (\<lambda>j. ilinks db j + (if j = i then 1 else 0))" "subdirs db' = subdirs db" "uniq db \<longrightarrow> uniq db'"
    by blast
  have pi: "p \<noteq> i" using r p by auto
  have keep: "\<exists>t'. sel_node db' j = Some t' \<and> n_type t' = n_type t \<and> n_parent t' = n_parent t"
    if "sel_node db j = Some t" for j t
    using that r p by (auto simp: v)
  have nodes: "node_ok db' j t" if "sel_node db' j = Some t" for j t
    using that tree_okD(3) [OF ok, of j] r p pi by (auto simp: v node_ok_def split: if_splits)
  have edges: "edge_ok db' e" if "sel_edge db' q n = Some e" for q n e
  proof (cases "q = p \<and> n = nm")
    case True
    with that have "e = \<lparr>ed_parent = p, ed_name = nm, ed_inode = i, ed_type = n_type r\<rparr>" by (simp add: v)
    then show ?thesis using r p pi by (simp add: edge_ok_def v)
  next
    case False
    with that have "sel_edge db q n = Some e" by (simp add: v split: if_splits)
    from tree_okD(4) [OF ok this] keep show ?thesis unfolding edge_ok_def by metis
  qed
  from tree_okD(2) [OF ok] keep have "\<exists>r. sel_node db' RootInode = Some r \<and> n_type r = TypeDirectory" by metis
  with nodes edges v(5) tree_okD(1) [OF ok] show ?thesis by (auto simp: tree_ok_def)
qed

section \<open>Changes that the invariant does not see\<close>

text \<open>The invariant reads type, link count and parent of a node only.\<close>

definition core_of :: "db \<Rightarrow> Ino \<Rightarrow> (u8 \<times> int \<times> Ino) option" where
  "core_of db i = map_option (\<lambda>r. (n_type r, n_nlink r, n_parent r)) (sel_node db i)"

lemma core_of_Some: "core_of db i = Some (ty, l, p) \<longleftrightarrow>
    (\<exists>r. sel_node db i = Some r \<and> n_type r = ty \<and> n_nlink r = l \<and> n_parent r = p)"
  by (auto simp: core_of_def)

lemma core_None: "core_of db i = None \<longleftrightarrow> sel_node db i = None"
  by (simp add: core_of_def)

lemma tree_ok_core_iff:
  "tree_ok db \<longleftrightarrow> uniq db \<and> (\<exists>l p. core_of db RootInode = Some (TypeDirectory, l, p)) \<and>
    (\<forall>i ty l p. core_of db i = Some (ty, l, p) \<longrightarrow>
       (if ty = TypeDirectory then l = 2 + int (subdirs db i) \<and> ilinks db i = (if i = RootInode then 0 else 1)
        else l = int (ilinks db i))) \<and>
    (\<forall>p nm e. sel_edge db p nm = Some e \<longrightarrow>
       (\<exists>l q. core_of db (ed_parent e) = Some (TypeDirectory, l, q)) \<and>
       (\<exists>l q. core_of db (ed_inode e) = Some (ed_type e, l, q) \<and> (ed_type e = TypeDirectory \<longrightarrow> q = ed_parent e)))"
proof -
  have a: "(\<exists>r. sel_node db i = Some r \<and> n_type r = ty) \<longleftrightarrow> (\<exists>l p. core_of db i = Some (ty, l, p))" for i ty
    by (auto simp: core_of_Some)
  have b: "(\<forall>r. sel_node db i = Some r \<longrightarrow> node_ok db i r) \<longleftrightarrow>
      (\<forall>ty l p. core_of db i = Some (ty, l, p) \<longrightarrow>
       (if ty = TypeDirectory then l = 2 + int (subdirs db i) \<and> ilinks db i = (if i = RootInode then 0 else 1)
        else l = int (ilinks db i)))" for i
    by (auto simp: core_of_Some node_ok_def)
  have c: "(\<exists>t. sel_node db i = Some t \<and> n_type t = ty \<and> (ty = TypeDirectory \<longrightarrow> n_parent t = q')) \<longleftrightarrow>
      (\<exists>l q. core_of db i = Some (ty, l, q) \<and> (ty = TypeDirectory \<longrightarrow> q = q'))" for i ty q'
    by (auto simp: core_of_Some)
  show ?thesis unfolding tree_ok_def edge_ok_def a b c ..
qed

lemma tree_ok_core:
  assumes "core_of db' = core_of db" "sel_edge db' = sel_edge db" "ilinks db' = ilinks db"
    "subdirs db' = subdirs db" "uniq db'" "tree_ok db"
  shows "tree_ok db'"
  using assms by (simp add: tree_ok_core_iff)

lemma core_upd:
  assumes "\<And>r. n_inode (f r) = n_inode r"
  shows "core_of (upd_node i f db) j = (if j = i
    then map_option (\<lambda>r. (n_type (f r), n_nlink (f r), n_parent (f r))) (sel_node db i) else core_of db j)"
  using sel_node_upd [OF assms, where i = i and db = db and j = j]
  by (simp add: core_of_def option.map_comp o_def)

lemma tree_ok_upd_attr:
  assumes "tree_ok db" and "\<And>r. n_inode (f r) = n_inode r \<and> n_type (f r) = n_type r \<and>
    n_nlink (f r) = n_nlink r \<and> n_parent (f r) = n_parent r"
  shows "tree_ok (upd_node i f db)"
proof (rule tree_ok_core [OF _ _ _ _ _ assms(1)])
  show "core_of (upd_node i f db) = core_of db"
    using assms(2) by (auto simp: fun_eq_iff core_of_def sel_node_upd option.map_comp o_def)
  show "uniq (upd_node i f db)" using assms tree_okD(1) [OF assms(1)] by (simp add: uniq_stmts)
qed (simp_all add: tree_simps)

text \<open>A directory has one name only.\<close>

lemma only_dir_edge:
  assumes ok: "tree_ok db" and a: "sel_edge db p nm = Some e" and b: "sel_edge db q m = Some e'"
    and "ed_type e = TypeDirectory" and "ed_inode e = ed_inode e'"
  shows "p = q \<and> nm = m"
proof (rule ccontr)
  assume ne: "\<not> (p = q \<and> nm = m)"
  have one: "ilinks db (ed_inode e) \<le> 1"
    using ok a assms(4) unfolding tree_ok_core_iff by (metis le_numeral_extra(3,4) zero_le_one)
  have "sel_edge (del_edge p nm db) q m = Some e'" using b ne by (auto simp: tree_simps)
  from ilinks_pos [OF this] have "0 < ilinks (del_edge p nm db) (ed_inode e)" by (simp add: assms(5))
  with ilinks_del_edge [OF tree_okD(1) [OF ok] a, of "ed_inode e"] one show False by simp
qed

text \<open>Moving an entry to a free name of a directory.\<close>

lemma move_edge_tree_ok:
  assumes ok: "tree_ok db" and src: "sel_edge db pS nS = Some es" and free: "sel_edge db pD nD = None"
    and dst: "\<exists>l q. core_of db pD = Some (TypeDirectory, l, q)"
    and core: "core_of db' = (\<lambda>j. map_option (\<lambda>(ty, l, p). (ty,
        l + (if ed_type es = TypeDirectory then (if j = pD then 1 else 0) - (if j = pS then 1 else 0) else 0),
        if j = ed_inode es then pD else p)) (core_of db j))"
    and edge: "sel_edge db' = (\<lambda>q m. if q = pD \<and> m = nD then Some (es\<lparr>ed_parent := pD, ed_name := nD\<rparr>)
        else if q = pS \<and> m = nS then None else sel_edge db q m)"
    and il: "ilinks db' = ilinks db"
    and sd: "\<And>j. int (subdirs db' j) = int (subdirs db j) +
        (if ed_type es = TypeDirectory then (if j = pD then 1 else 0) - (if j = pS then 1 else 0) else 0)"
    and u: "uniq db'"
  shows "tree_ok db'"
proof -
  have keep: "\<exists>l' p'. core_of db' j = Some (ty, l', p') \<and> (j \<noteq> ed_inode es \<longrightarrow> p' = p)"
    if "core_of db j = Some (ty, l, p)" for j ty l p
    using that by (simp add: core)
  have nodes: "if ty = TypeDirectory then l = 2 + int (subdirs db' i) \<and> ilinks db' i = (if i = RootInode then 0 else 1)
       else l = int (ilinks db' i)" if c: "core_of db' i = Some (ty, l, p)" for i ty l p
  proof -
    let ?d = "if ed_type es = TypeDirectory then (if i = pD then 1 else 0) - (if i = pS then 1 else 0) else (0 :: int)"
    obtain p0 where c0: "core_of db i = Some (ty, l - ?d, p0)"
      using c by (auto simp: core)
    have pS: "\<exists>l q. core_of db pS = Some (TypeDirectory, l, q)"
      using ok src sel_edge_key [OF src] unfolding tree_ok_core_iff by blast
    have "ty \<noteq> TypeDirectory \<Longrightarrow> i \<noteq> pD \<and> i \<noteq> pS" using c0 dst pS by auto
    moreover have "if ty = TypeDirectory then l - ?d = 2 + int (subdirs db i) \<and> ilinks db i = (if i = RootInode then 0 else 1)
       else l - ?d = int (ilinks db i)"
      using ok c0 unfolding tree_ok_core_iff by blast
    ultimately show ?thesis using sd [of i] by (auto simp: il split: if_splits)
  qed
  have edges: "(\<exists>l q. core_of db' (ed_parent e) = Some (TypeDirectory, l, q)) \<and>
      (\<exists>l q. core_of db' (ed_inode e) = Some (ed_type e, l, q) \<and> (ed_type e = TypeDirectory \<longrightarrow> q = ed_parent e))"
    if s: "sel_edge db' p nm = Some e" for p nm e
  proof (cases "p = pD \<and> nm = nD")
    case True
    have "\<exists>l q. core_of db (ed_inode es) = Some (ed_type es, l, q)"
      using ok src unfolding tree_ok_core_iff by blast
    with True s dst show ?thesis by (auto simp: edge core)
  next
    case False
    with s have s0: "sel_edge db p nm = Some e" and ne: "\<not> (p = pS \<and> nm = nS)" by (auto simp: edge split: if_splits)
    from s0 ok have old: "\<exists>l q. core_of db (ed_parent e) = Some (TypeDirectory, l, q)"
      "\<exists>l q. core_of db (ed_inode e) = Some (ed_type e, l, q) \<and> (ed_type e = TypeDirectory \<longrightarrow> q = ed_parent e)"
      unfolding tree_ok_core_iff by blast+
    have "ed_type e = TypeDirectory \<Longrightarrow> ed_inode e \<noteq> ed_inode es"
      using only_dir_edge [OF ok s0 src] ne by auto
    with old keep show ?thesis by metis
  qed
  from ok keep have "\<exists>l p. core_of db' RootInode = Some (TypeDirectory, l, p)"
    unfolding tree_ok_core_iff by metis
  with nodes edges u show ?thesis unfolding tree_ok_core_iff by blast
qed

section \<open>Operations preserve the invariant\<close>

interpretation tree: db_invariant tree_ok
  by unfold_locales (simp add: tree_ok_same_tree [OF same_tree_stmts(6)])

lemma SetAttr_tx_mono: "fault_mono (SetAttr_tx i sm attr c now)"
  unfolding SetAttr_tx_def Let_def by (intro fault_intros) (auto intro!: fault_intros split: sum.splits)

lemma SetAttr_tx_commit:
  assumes "SetAttr_tx i sm attr c now [] db = (Inr (x, db'), [])"
  shows "\<exists>r. sel_node db i = Some r \<and> authorizeSetAttr c (scanAttr r) sm attr = Inr () \<and>
    (let a = apply_set sm attr (scanAttr r) in
     db' = appendChangelog now i OpSetattr (PSet sm) (upd_node i (\<lambda>r. r\<lparr>n_mode := a_mode a, n_uid := a_uid a, n_gid := a_gid a,
        n_length := sint (a_length a), n_atime := a_atime a, n_atimensec := uint (a_atimensec a),
        n_mtime := a_mtime a, n_mtimensec := uint (a_mtimensec a),
        n_ctime := unix_s now, n_ctimensec := uint (word_of_int (unix_ns now) :: u32)\<rparr>) db))"
  using assms
  by (auto simp: SetAttr_tx_def tx_simps Let_def getAttr_def write_attr_def split: option.splits sum.splits if_splits)

lemma SetAttr_tx_tree_ok:
  assumes "tree_ok db" and "SetAttr_tx i sm attr c now [] db = (Inr (x, db'), [])"
  shows "tree_ok db'"
proof -
  have "tree_ok (upd_node i f db)" if "\<And>r. n_inode (f r) = n_inode r \<and> n_type (f r) = n_type r \<and>
    n_nlink (f r) = n_nlink r \<and> n_parent (f r) = n_parent r" for f
    using tree_ok_upd_attr [OF assms(1) that] .
  with SetAttr_tx_commit [OF assms(2)] show ?thesis
    by (auto simp: Let_def tree_ok_same_tree [OF same_tree_stmts(4)])
qed

text \<open>Deleting the rows of an inode without names keeps the tree.\<close>

lemma deleteInodeRows_tree_ok:
  assumes ok: "tree_ok db" and dead: "ilinks db i = 0" and plain: "\<And>r. sel_node db i = Some r \<Longrightarrow> n_type r \<noteq> TypeDirectory"
  shows "tree_ok (del_xattrs i (del_slices i (del_symlink i (del_node i db))))"
proof -
  have e: "sel_edge db p n = Some e \<Longrightarrow> ed_inode e \<noteq> i \<and> ed_parent e \<noteq> i" for p n e
    using ilinks_pos [of db p n e] dead plain tree_okD(4) [OF ok, of p n e] by (auto simp: edge_ok_def)
  have root: "RootInode \<noteq> i" using tree_okD(2) [OF ok] plain by auto
  have "node_ok (del_node i db) j r" if "sel_node (del_node i db) j = Some r" for j r
    using that tree_okD(3) [OF ok, of j r] by (simp add: tree_simps node_ok_def split: if_splits)
  moreover have "edge_ok (del_node i db) x" if "sel_edge (del_node i db) p n = Some x" for p n x
    using that e [of p n x] tree_okD(4) [OF ok, of p n x] by (simp add: tree_simps edge_ok_def)
  moreover have "\<exists>r. sel_node (del_node i db) RootInode = Some r \<and> n_type r = TypeDirectory"
    using tree_okD(2) [OF ok] root by (simp add: tree_simps)
  ultimately have "tree_ok (del_node i db)"
    using tree_okD(1) [OF ok] unfolding tree_ok_def by (simp add: uniq_stmts)
  then show ?thesis
    by (simp add: tree_ok_same_tree [OF same_tree_stmts(1)] tree_ok_same_tree [OF same_tree_stmts(2)]
        tree_ok_same_tree [OF same_tree_stmts(3)])
qed

end
