(* ===== verification/Meta_Rename.thy ===== *)
theory Meta_Rename
  imports Meta_Tree
begin

text \<open>
  \<open>Rename\<close> and \<open>renameExchange\<close> of mlfs/internal/meta/rename.go, with the two-scope fence.  The map of link
  count deltas is an association list; its keys are distinct, so the unspecified iteration order of a Go
  map does not matter.
\<close>

section \<open>Definitions\<close>

definition RenameNoReplace :: u32 where "RenameNoReplace = 1"

definition RenameExchange :: u32 where "RenameExchange = 2"

definition distinctParents :: "Ino \<Rightarrow> Ino \<Rightarrow> Ino list" where
  "distinctParents a b = (if a = b then [a] else [a, b])"

definition add_delta :: "Ino \<Rightarrow> int \<Rightarrow> (Ino \<times> int) list \<Rightarrow> (Ino \<times> int) list" where
  "add_delta p d m = (if p \<in> fst ` set m then upd fst p (\<lambda>(k, v). (k, v + d)) m else m @ [(p, d)])"

fun apply_deltas :: "(Ino \<times> int) list \<Rightarrow> (db, 'a) tx \<Rightarrow> (db, 'a) tx" where
  "apply_deltas [] k = k"
| "apply_deltas ((p, d) # m) k = exec (upd_node p (\<lambda>r. r\<lparr>n_nlink := n_nlink r + d\<rparr>)) (apply_deltas m k)"

fun touch_parents :: "Ino list \<Rightarrow> int \<Rightarrow> int \<Rightarrow> (db, 'a) tx \<Rightarrow> (db, 'a) tx" where
  "touch_parents [] ts nsec k = k"
| "touch_parents (p # ps) ts nsec k = exec (upd_node p (touch ts nsec)) (touch_parents ps ts nsec k)"

definition set_parent :: "Ino \<Rightarrow> int \<Rightarrow> int \<Rightarrow> node_row \<Rightarrow> node_row" where
  "set_parent p ts nsec r = touch_c ts nsec (r\<lparr>n_parent := p\<rparr>)"

text \<open>The part of \<open>Rename\<close> after the destination name is free; \<open>delta\<close> holds the changes so far.\<close>

definition move_entry ::
  "Ino \<Rightarrow> name \<Rightarrow> Ino \<Rightarrow> name \<Rightarrow> edge_row \<Rightarrow> (Ino \<times> int) list \<Rightarrow> int \<Rightarrow> (db, Ino) tx" where
  "move_entry parentSrc nameSrc parentDst nameDst src delta now =
    (let ts = unix_s now; nsec = unix_ns now; srcIno = ed_inode src;
         delta' = (if ed_type src = TypeDirectory \<and> parentSrc \<noteq> parentDst
           then add_delta parentDst 1 (add_delta parentSrc (- 1) delta) else delta)
     in exec (del_edge parentSrc nameSrc)
       (exec_may (ins_edge \<lparr>ed_parent = parentDst, ed_name = nameDst, ed_inode = srcIno, ed_type = ed_type src\<rparr>)
       (exec (upd_node srcIno (set_parent parentDst ts nsec))
       (apply_deltas delta'
       (touch_parents (distinctParents parentSrc parentDst) ts nsec
       (exec (appendChangelog now srcIno OpRename (PRename parentSrc nameSrc parentDst nameDst))
       (tx_ret srcIno)))))))"

definition Rename_tx :: "Ino \<Rightarrow> name \<Rightarrow> Ino \<Rightarrow> name \<Rightarrow> u32 \<Rightarrow> int \<Rightarrow> (db, Ino) tx" where
  "Rename_tx parentSrc nameSrc parentDst nameDst flags now =
    (let ts = unix_s now; nsec = unix_ns now in
     query (\<lambda>db. sel_edge db parentSrc nameSrc) (\<lambda>src.
       case src of
         None \<Rightarrow> tx_abort ENOENT
       | Some src \<Rightarrow>
           query (\<lambda>db. sel_edge db parentDst nameDst) (\<lambda>dst.
             case dst of
               None \<Rightarrow> move_entry parentSrc nameSrc parentDst nameDst src [] now
             | Some dst \<Rightarrow>
                 (let dstIno = ed_inode dst;
                      srcIsDir = (ed_type src = TypeDirectory);
                      dstIsDir = (ed_type dst = TypeDirectory)
                  in if and flags RenameNoReplace \<noteq> 0 then tx_abort EEXIST
                     else if dstIno = ed_inode src then tx_ret (ed_inode src)
                     else if dstIsDir \<and> \<not> srcIsDir then tx_abort EISDIR
                     else if \<not> dstIsDir \<and> srcIsDir then tx_abort ENOTDIR
                     else if dstIsDir then
                       query (\<lambda>db. count_children db dstIno) (\<lambda>n.
                         if 0 < n then tx_abort ENOTEMPTY
                         else exec (del_node dstIno)
                           (exec (del_edge parentDst nameDst)
                           (move_entry parentSrc nameSrc parentDst nameDst src (add_delta parentDst (- 1) []) now)))
                     else
                       returning (bump_nlink dstIno (- 1) ts nsec) (\<lambda>nlink.
                         (if nlink \<le> 0 then (\<lambda>k. exec (del_node dstIno) (exec (del_symlink dstIno) k)) else id)
                         (exec (del_edge parentDst nameDst)
                         (move_entry parentSrc nameSrc parentDst nameDst src [] now)))))))"

definition renameExchange_tx :: "Ino \<Rightarrow> name \<Rightarrow> Ino \<Rightarrow> name \<Rightarrow> int \<Rightarrow> (db, Ino) tx" where
  "renameExchange_tx parentSrc nameSrc parentDst nameDst now =
    (let ts = unix_s now; nsec = unix_ns now in
     query (\<lambda>db. sel_edge db parentSrc nameSrc) (\<lambda>src.
       case src of
         None \<Rightarrow> tx_abort ENOENT
       | Some src \<Rightarrow>
           query (\<lambda>db. sel_edge db parentDst nameDst) (\<lambda>dst.
             case dst of
               None \<Rightarrow> tx_abort ENOENT
             | Some dst \<Rightarrow>
                 (let srcIno = ed_inode src; dstIno = ed_inode dst;
                      d1 = (if ed_type src = TypeDirectory
                        then add_delta parentDst 1 (add_delta parentSrc (- 1) []) else []);
                      d2 = (if ed_type dst = TypeDirectory
                        then add_delta parentSrc 1 (add_delta parentDst (- 1) d1) else d1)
                  in if srcIno = dstIno then tx_ret srcIno
                     else
                       exec (upd_edge parentSrc nameSrc (\<lambda>e. e\<lparr>ed_inode := dstIno, ed_type := ed_type dst\<rparr>))
                      (exec (upd_edge parentDst nameDst (\<lambda>e. e\<lparr>ed_inode := srcIno, ed_type := ed_type src\<rparr>))
                      (exec (upd_node srcIno (set_parent parentDst ts nsec))
                      (exec (upd_node dstIno (set_parent parentSrc ts nsec))
                      (apply_deltas (if parentSrc \<noteq> parentDst then filter (\<lambda>(_, d). d \<noteq> 0) d2 else [])
                      (touch_parents (distinctParents parentSrc parentDst) ts nsec
                      (exec (appendChangelog now srcIno OpRename (PExchange parentSrc nameSrc parentDst nameDst))
                      (tx_ret srcIno))))))))))) "

text \<open>Both scopes are acquired and fenced; the scope memo is flushed when they differ.\<close>

definition fenced_tx2 :: "Ino \<Rightarrow> Ino \<Rightarrow> (db, 'a) tx \<Rightarrow> sys \<Rightarrow> (errno + 'a) \<times> sys" where
  "fenced_tx2 p q body s =
    (case acquireScope p s of
       (Inl e, s1) \<Rightarrow> (Inl e, s1)
     | (Inr (scopeSrc, genSrc), s1) \<Rightarrow>
         (case acquireScope q s1 of
            (Inl e, s2) \<Rightarrow> (Inl e, s2)
          | (Inr (scopeDst, genDst), s2) \<Rightarrow>
              (case run_tx (fenceInTx (s_eng s2) scopeSrc genSrc
                      (if scopeDst \<noteq> scopeSrc then fenceInTx (s_eng s2) scopeDst genDst body else body)) s2 of
                 (Inl e, s3) \<Rightarrow> (tx_errno (Inl e), s3)
               | (Inr x, s3) \<Rightarrow> (Inr x, if scopeSrc \<noteq> scopeDst then flushScopeCache s3 else s3))))"

definition Rename ::
  "Ino \<Rightarrow> name \<Rightarrow> Ino \<Rightarrow> name \<Rightarrow> u32 \<Rightarrow> sys \<Rightarrow> (errno + Ino \<times> Attr option) \<times> sys" where
  "Rename parentSrc nameSrc parentDst nameDst flags s =
    (let run = (\<lambda>body. case fenced_tx2 parentSrc parentDst body s of
         (Inl e, s1) \<Rightarrow> (Inl e, s1)
       | (Inr i, s1) \<Rightarrow> (case GetAttrOrNil i s1 of (a, s2) \<Rightarrow> (Inr (i, a), s2)))
     in if and flags RenameExchange \<noteq> 0 then
          (if and flags (not RenameExchange) \<noteq> 0 then (Inl EINVAL, s)
           else run (renameExchange_tx parentSrc nameSrc parentDst nameDst (s_now s)))
        else if and flags (not RenameNoReplace) \<noteq> 0 then (Inl ENOSYS, s)
        else run (Rename_tx parentSrc nameSrc parentDst nameDst flags (s_now s)))"

section \<open>Link-count deltas and timestamps\<close>

fun deltas_db :: "(Ino \<times> int) list \<Rightarrow> db \<Rightarrow> db" where
  "deltas_db [] db = db"
| "deltas_db ((p, d) # m) db = deltas_db m (upd_node p (\<lambda>r. r\<lparr>n_nlink := n_nlink r + d\<rparr>) db)"

fun touch_db :: "Ino list \<Rightarrow> int \<Rightarrow> int \<Rightarrow> db \<Rightarrow> db" where
  "touch_db [] ts nsec db = db"
| "touch_db (p # ps) ts nsec db = touch_db ps ts nsec (upd_node p (touch ts nsec) db)"

fun delta_at :: "(Ino \<times> int) list \<Rightarrow> Ino \<Rightarrow> int" where
  "delta_at [] j = 0"
| "delta_at ((p, d) # m) j = (if p = j then d else 0) + delta_at m j"

lemma apply_deltas_run [tx_simps]: "apply_deltas m k [] db = k [] (deltas_db m db)"
  by (induction m arbitrary: db) (auto simp: tx_simps)

lemma touch_parents_run [tx_simps]: "touch_parents ps ts nsec k [] db = k [] (touch_db ps ts nsec db)"
  by (induction ps arbitrary: db) (auto simp: tx_simps)

lemma apply_deltas_mono [fault_intros]: "fault_mono k \<Longrightarrow> fault_mono (apply_deltas m k)"
  by (induction m) (auto intro: fault_intros)

lemma touch_parents_mono [fault_intros]: "fault_mono k \<Longrightarrow> fault_mono (touch_parents ps ts nsec k)"
  by (induction ps) (auto intro: fault_intros)

lemma deltas_db_edges [tree_simps]:
  "sel_edge (deltas_db m db) = sel_edge db" "ilinks (deltas_db m db) = ilinks db"
  "subdirs (deltas_db m db) = subdirs db" "uniq db \<Longrightarrow> uniq (deltas_db m db)"
  by (induction m arbitrary: db) (auto simp: tree_simps)

lemma touch_db_edges [tree_simps]:
  "sel_edge (touch_db ps ts ns db) = sel_edge db" "ilinks (touch_db ps ts ns db) = ilinks db"
  "subdirs (touch_db ps ts ns db) = subdirs db" "uniq db \<Longrightarrow> uniq (touch_db ps ts ns db)"
  by (induction ps arbitrary: db) (auto simp: tree_simps)

lemma core_upd_nlink:
  "core_of (upd_node p (\<lambda>r. r\<lparr>n_nlink := n_nlink r + d\<rparr>) db) j =
   map_option (\<lambda>(ty, l, q). (ty, l + (if p = j then d else 0), q)) (core_of db j)"
  by (simp add: core_of_def sel_node_upd option.map_comp o_def)

lemma core_touch: "core_of (upd_node p (touch ts ns) db) j = core_of db j"
  by (simp add: core_of_def sel_node_upd option.map_comp o_def)

lemma core_set_parent:
  "core_of (upd_node i (set_parent p ts ns) db) j =
   map_option (\<lambda>(ty, l, q). (ty, l, if j = i then p else q)) (core_of db j)"
  by (simp add: core_of_def sel_node_upd option.map_comp o_def set_parent_def)

lemma core_deltas_db:
  "core_of (deltas_db m db) j = map_option (\<lambda>(ty, l, q). (ty, l + delta_at m j, q)) (core_of db j)"
proof (induction m arbitrary: db)
  case Nil
  then show ?case by (cases "core_of db j") auto
next
  case (Cons x m)
  then show ?case by (cases x, cases "core_of db j") (auto simp: core_upd_nlink)
qed

lemma core_touch_db: "core_of (touch_db ps ts ns db) = core_of db"
  by (induction ps arbitrary: db) (auto simp: core_touch fun_eq_iff)

lemma total_notin: "p \<notin> fst ` set m \<Longrightarrow> delta_at m p = 0"
  by (induction m) auto

lemma total_add_delta:
  assumes "distinct (map fst m)"
  shows "delta_at (add_delta p d m) j = delta_at m j + (if j = p then d else 0)"
proof (cases "p \<in> fst ` set m")
  case False
  have "delta_at (m @ [(p, d)]) j = delta_at m j + (if j = p then d else 0)"
    by (induction m) auto
  with False show ?thesis by (simp add: add_delta_def)
next
  case True
  have "delta_at (upd fst p (\<lambda>(k, v). (k, v + d)) m) j = delta_at m j + (if j = p then d else 0)"
    using assms True
  proof (induction m)
    case Nil
    then show ?case by simp
  next
    case (Cons x m)
    obtain k v where x: "x = (k, v)" by (rule prod.exhaust)
    show ?case
    proof (cases "k = p")
      case True
      then have "p \<notin> fst ` set m" using Cons.prems(1) x by auto
      then show ?thesis using True x by (simp add: upd_notin)
    next
      case False
      with Cons x show ?thesis by auto
    qed
  qed
  with True show ?thesis by (simp add: add_delta_def)
qed

lemma distinct_add_delta: "distinct (map fst m) \<Longrightarrow> distinct (map fst (add_delta p d m))"
  by (auto simp: add_delta_def map_key_upd [of fst] split: prod.splits)

lemma total_filter: "delta_at (filter (\<lambda>(_, d). d \<noteq> 0) m) j = delta_at m j"
  by (induction m) auto

lemma total_two:
  "delta_at (add_delta q 1 (add_delta p (- 1) [])) j = (if j = q then 1 else 0) - (if j = p then 1 else 0)"
  by (simp add: total_add_delta distinct_add_delta)

section \<open>Moving an entry\<close>

lemma move_entry_mono: "fault_mono (move_entry pS nS pD nD src delta now)"
  unfolding move_entry_def Let_def by (intro fault_intros)

lemma Rename_tx_mono: "fault_mono (Rename_tx pS nS pD nD flags now)"
  unfolding Rename_tx_def Let_def by (intro fault_intros) (auto intro!: fault_intros move_entry_mono)

lemma renameExchange_tx_mono: "fault_mono (renameExchange_tx pS nS pD nD now)"
  unfolding renameExchange_tx_def Let_def by (intro fault_intros)

text \<open>\<open>A\<close> is the tree after the pending deltas; the entry then moves within it.\<close>

lemma move_entry_tree_ok:
  assumes run: "move_entry pS nS pD nD es delta now [] db = (Inr (x, db'), [])"
    and dd: "distinct (map fst delta)"
    and ok: "tree_ok A" and src: "sel_edge A pS nS = Some es"
    and dst: "\<exists>l q. core_of A pD = Some (TypeDirectory, l, q)"
    and cA: "core_of A = (\<lambda>j. map_option (\<lambda>(ty, l, q). (ty, l + delta_at delta j, q)) (core_of db j))"
    and eA: "sel_edge A = sel_edge db" "ilinks A = ilinks db" "subdirs A = subdirs db" and u: "uniq db"
    and free: "sel_edge db pD nD = None"
  shows "tree_ok db' \<and> x = ed_inode es \<and>
    sel_edge db' = (\<lambda>q m. if q = pD \<and> m = nD then Some (es\<lparr>ed_parent := pD, ed_name := nD\<rparr>)
        else if q = pS \<and> m = nS then None else sel_edge db q m)"
proof -
  let ?e = "\<lparr>ed_parent = pD, ed_name = nD, ed_inode = ed_inode es, ed_type = ed_type es\<rparr>"
  define delta' where "delta' = (if ed_type es = TypeDirectory \<and> pS \<noteq> pD
           then add_delta pD 1 (add_delta pS (- 1) delta) else delta)"
  obtain db2 where ins: "ins_edge ?e (del_edge pS nS db) = Some db2"
    using run by (auto simp: move_entry_def tx_simps Let_def split: option.splits)
  have db': "db' = appendChangelog now (ed_inode es) OpRename (PRename pS nS pD nD)
      (touch_db (distinctParents pS pD) (unix_s now) (unix_ns now)
        (deltas_db delta' (upd_node (ed_inode es) (set_parent pD (unix_s now) (unix_ns now)) db2)))"
    and x: "x = ed_inode es"
    using run ins by (auto simp: move_entry_def tx_simps Let_def delta'_def)
  note v = ins_edge_views [OF ins]
  have key: "ed_parent es = pS" "ed_name es = nS" using sel_edge_key [OF src] by auto
  have e: "?e = es\<lparr>ed_parent := pD, ed_name := nD\<rparr>" by simp
  have srcdb: "sel_edge db pS nS = Some es" using src by (simp add: eA)
  have ne: "\<not> (pS = pD \<and> nS = nD)" using srcdb free by auto
  have edge: "sel_edge db' = (\<lambda>q m. if q = pD \<and> m = nD then Some (es\<lparr>ed_parent := pD, ed_name := nD\<rparr>)
        else if q = pS \<and> m = nS then None else sel_edge db q m)"
    by (auto simp: db' tree_simps v fun_eq_iff simp flip: e)
  have core2: "core_of db2 = core_of db"
    by (simp add: core_of_def fun_eq_iff v tree_simps)
  have app: "core_of (appendChangelog n i op p d) = core_of d" for n i op p d
    by (simp add: core_of_def fun_eq_iff tree_simps)
  have core: "core_of db' = (\<lambda>j. map_option (\<lambda>(ty, l, p). (ty,
        l + (if ed_type es = TypeDirectory then (if j = pD then 1 else 0) - (if j = pS then 1 else 0) else 0),
        if j = ed_inode es then pD else p)) (core_of A j))"
  proof
    fix j
    have t: "delta_at delta' j = delta_at delta j +
        (if ed_type es = TypeDirectory then (if j = pD then 1 else 0) - (if j = pS then 1 else 0) else 0)"
      using dd by (auto simp: delta'_def total_add_delta distinct_add_delta)
    show "core_of db' j = map_option (\<lambda>(ty, l, p). (ty,
        l + (if ed_type es = TypeDirectory then (if j = pD then 1 else 0) - (if j = pS then 1 else 0) else 0),
        if j = ed_inode es then pD else p)) (core_of A j)"
      by (cases "core_of db j")
        (auto simp: db' app core_touch_db core_deltas_db core_set_parent core2 cA t)
  qed
  have il: "ilinks db' = ilinks A"
  proof
    fix j
    show "ilinks db' j = ilinks A j"
      using ilinks_del_edge [OF u srcdb, of j] by (simp add: db' tree_simps v eA)
  qed
  have sd: "int (subdirs db' j) = int (subdirs A j) +
        (if ed_type es = TypeDirectory then (if j = pD then 1 else 0) - (if j = pS then 1 else 0) else 0)" for j
    using subdirs_del_edge [OF u srcdb, of j] by (auto simp: db' tree_simps v eA)
  have u': "uniq db'"
    using v(6) u by (simp add: db' tree_simps set_parent_def)
  have "tree_ok db'"
    by (rule move_edge_tree_ok [OF ok src free [folded eA(1)] dst core edge [folded eA(1)] il sd u'])
  with x edge show ?thesis by simp
qed

text \<open>The three ways in which the destination name becomes free.\<close>

lemma Rename_tx_cases:
  assumes "Rename_tx pS nS pD nD flags now [] db = (Inr (x, db'), [])"
  obtains (same) es ed where "sel_edge db pS nS = Some es" "sel_edge db pD nD = Some ed"
      "ed_inode ed = ed_inode es" "x = ed_inode es" "db' = db"
  | (free) es where "sel_edge db pS nS = Some es" "sel_edge db pD nD = None"
      "move_entry pS nS pD nD es [] now [] db = (Inr (x, db'), [])"
  | (dir) es ed where "sel_edge db pS nS = Some es" "sel_edge db pD nD = Some ed" "ed_inode ed \<noteq> ed_inode es"
      "ed_type ed = TypeDirectory" "ed_type es = TypeDirectory" "count_children db (ed_inode ed) = 0"
      "move_entry pS nS pD nD es [(pD, - 1)] now [] (del_edge pD nD (del_node (ed_inode ed) db)) = (Inr (x, db'), [])"
  | (plain) es ed r where "sel_edge db pS nS = Some es" "sel_edge db pD nD = Some ed" "ed_inode ed \<noteq> ed_inode es"
      "ed_type ed \<noteq> TypeDirectory" "ed_type es \<noteq> TypeDirectory" "sel_node db (ed_inode ed) = Some r"
      "move_entry pS nS pD nD es [] now [] (del_edge pD nD
         (let d = upd_node (ed_inode ed) (\<lambda>r. touch_c (unix_s now) (unix_ns now) (r\<lparr>n_nlink := n_nlink r + - 1\<rparr>)) db
          in if n_nlink r \<le> 1 then del_symlink (ed_inode ed) (del_node (ed_inode ed) d) else d)) = (Inr (x, db'), [])"
proof -
  obtain es where es: "sel_edge db pS nS = Some es"
    using assms by (cases "sel_edge db pS nS") (auto simp: Rename_tx_def tx_simps Let_def)
  show ?thesis
  proof (cases "sel_edge db pD nD")
    case None
    with assms es show ?thesis by (intro free) (auto simp: Rename_tx_def tx_simps Let_def)
  next
    case (Some ed)
    note run = assms [unfolded Rename_tx_def Let_def query_ok es Some option.case]
    show ?thesis
    proof (cases "ed_inode ed = ed_inode es")
      case True
      with run show ?thesis
        by (intro same [OF es Some True]) (auto simp: tx_simps split: if_splits)
    next
      case other: False
      show ?thesis
      proof (cases "ed_type ed = TypeDirectory")
        case True
        with run other show ?thesis
          by (intro dir [OF es Some other True]) (auto simp: tx_simps add_delta_def split: if_splits)
      next
        case False
        with run other obtain r where r: "sel_node db (ed_inode ed) = Some r" "ed_type es \<noteq> TypeDirectory"
          by (auto simp: tx_simps bump_nlink_def split: if_splits option.splits)
        with run other False show ?thesis
          by (intro plain [OF es Some other False r(2,1)])
            (auto simp: tx_simps bump_nlink_def Let_def split: if_splits)
      qed
    qed
  qed
qed

lemma core_appendChangelog [simp]: "core_of (appendChangelog n i op p d) = core_of d"
  by (simp add: core_of_def fun_eq_iff tree_simps)

lemma Unlink_tx_runs:
  assumes "sel_edge db p nm = Some e" "ed_type e \<noteq> TypeDirectory" "sel_node db (ed_inode e) = Some r"
  shows "\<exists>sus A. Unlink_tx eng p nm now [] db = (Inr (sus, A), [])"
  using assms
  by (cases "n_nlink r \<le> 1"; cases "isOpen eng (ed_inode e)")
    (simp_all add: Unlink_tx_def tx_simps Let_def bump_nlink_def tree_simps deleteInodeRows_def)

text \<open>The effect of a successful rename on the names: the entry moves, and nothing else changes.\<close>

lemma Rename_tx_tree_ok:
  assumes ok: "tree_ok db" and run: "Rename_tx pS nS pD nD flags now [] db = (Inr (x, db'), [])"
    and dst: "sel_edge db pD nD = None \<Longrightarrow> \<exists>l q. core_of db pD = Some (TypeDirectory, l, q)"
  shows "tree_ok db' \<and> (\<exists>es. sel_edge db pS nS = Some es \<and> x = ed_inode es \<and>
    (db' = db \<or> sel_edge db' = (\<lambda>q m. if q = pD \<and> m = nD then Some (es\<lparr>ed_parent := pD, ed_name := nD\<rparr>)
        else if q = pS \<and> m = nS then None else sel_edge db q m)))"
  using run
proof (cases rule: Rename_tx_cases)
  case (same es ed)
  then show ?thesis using ok by auto
next
  case (free es)
  have "tree_ok db' \<and> x = ed_inode es \<and>
    sel_edge db' = (\<lambda>q m. if q = pD \<and> m = nD then Some (es\<lparr>ed_parent := pD, ed_name := nD\<rparr>)
        else if q = pS \<and> m = nS then None else sel_edge db q m)"
    by (rule move_entry_tree_ok [OF free(3) _ ok free(1) dst [OF free(2)]])
      (use free(2) tree_okD(1) [OF ok] in \<open>auto simp: fun_eq_iff option.map_id split_beta map_option_case split: option.splits\<close>)
  with free(1) show ?thesis by blast
next
  case (dir es ed)
  define k where "k = ed_inode ed"
  let ?dbR = "del_edge pD nD (del_node k db)"
  let ?A = "appendChangelog now k OpRmdir (PEntry pD nD)
      (upd_node pD (\<lambda>r. touch (unix_s now) (unix_ns now) (r\<lparr>n_nlink := n_nlink r - 1\<rparr>))
        (del_xattrs k (del_node k (del_edge pD nD db))))"
  have "Rmdir_tx pD nD now [] db = (Inr ((), ?A), [])"
    using dir by (simp add: Rmdir_tx_def tx_simps Let_def k_def)
  then have okA: "tree_ok ?A" by (rule Rmdir_tx_tree_ok [OF ok])
  have ne: "\<not> (pS = pD \<and> nS = nD)" using dir by auto
  have pDk: "pD \<noteq> k" using no_children_edge [OF dir(6), of nD] dir(2) by (auto simp: k_def)
  have pDdir: "\<exists>l q. core_of db pD = Some (TypeDirectory, l, q)"
    using ok dir(2) sel_edge_key [OF dir(2)] unfolding tree_ok_core_iff by blast
  have cA: "core_of ?A = (\<lambda>j. map_option (\<lambda>(ty, l, q). (ty, l + delta_at [(pD, - 1)] j, q)) (core_of ?dbR j))"
    by (auto simp: fun_eq_iff core_of_def tree_simps option.map_comp o_def)
  have eA: "sel_edge ?A = sel_edge ?dbR" "ilinks ?A = ilinks ?dbR" "subdirs ?A = subdirs ?dbR"
    by (simp_all add: fun_eq_iff sel_edge_def ilinks_def subdirs_def stmt_defs)
  have edgeR: "sel_edge ?dbR = (\<lambda>q m. if q = pD \<and> m = nD then None else sel_edge db q m)"
    by (simp add: tree_simps fun_eq_iff)
  have "tree_ok db' \<and> x = ed_inode es \<and>
    sel_edge db' = (\<lambda>q m. if q = pD \<and> m = nD then Some (es\<lparr>ed_parent := pD, ed_name := nD\<rparr>)
        else if q = pS \<and> m = nS then None else sel_edge ?dbR q m)"
  proof (rule move_entry_tree_ok [OF dir(7) [folded k_def] _ okA _ _ cA eA])
    show "\<exists>l q. core_of ?A pD = Some (TypeDirectory, l, q)"
      using pDdir pDk by (auto simp: cA core_of_def tree_simps)
    show "sel_edge ?A pS nS = Some es" using dir(1) ne by (simp add: eA(1) edgeR)
    show "uniq ?dbR" using tree_okD(1) [OF ok] by (simp add: tree_simps)
  qed (simp_all add: edgeR)
  with dir(1) show ?thesis by (auto simp: edgeR fun_eq_iff)
next
  case (plain es ed r)
  define k where "k = ed_inode ed"
  let ?d = "upd_node k (\<lambda>r. touch_c (unix_s now) (unix_ns now) (r\<lparr>n_nlink := n_nlink r + - 1\<rparr>)) db"
  let ?dbR = "del_edge pD nD (let d = ?d in if n_nlink r \<le> 1 then del_symlink k (del_node k d) else d)"
  have pDdir: "\<exists>l q. core_of db pD = Some (TypeDirectory, l, q)"
    and kfile: "n_type r \<noteq> TypeDirectory"
    using tree_okD(4) [OF ok plain(2)] plain(4,6) sel_edge_key [OF plain(2)] by (auto simp: edge_ok_def core_of_def)
  then have pDk: "pD \<noteq> k" using plain(6) by (auto simp: k_def core_of_def)
  have ne: "\<not> (pS = pD \<and> nS = nD)" using plain by auto
  obtain A sus where A: "Unlink_tx (Open_engine 0 0) pD nD now [] db = (Inr (sus, A), [])"
    using Unlink_tx_runs [OF plain(2,4,6)] by blast
  have okA: "tree_ok A" by (rule Unlink_tx_tree_ok [OF ok A])
  from Unlink_tx_commit [OF A] plain(2,6)
  have vA: "sel_node A = (\<lambda>j. map_option (if j = pD then touch (unix_s now) (unix_ns now) else id)
         ((if n_nlink r \<le> 1 then (sel_node db)(k := None)
           else (sel_node db)(k \<mapsto> touch_c (unix_s now) (unix_ns now) (r\<lparr>n_nlink := n_nlink r - 1\<rparr>))) j))"
      "sel_edge A = (\<lambda>q m. if q = pD \<and> m = nD then None else sel_edge db q m)"
      "ilinks A = ilinks (del_edge pD nD db)" "subdirs A = subdirs (del_edge pD nD db)"
    by (auto simp: k_def isOpen_def Open_engine_def)
  have edgeR: "sel_edge ?dbR = (\<lambda>q m. if q = pD \<and> m = nD then None else sel_edge db q m)"
    by (simp add: tree_simps fun_eq_iff Let_def)
  have cA: "core_of A = (\<lambda>j. map_option (\<lambda>(ty, l, q). (ty, l + delta_at [] j, q)) (core_of ?dbR j))"
    using plain(6) by (auto simp: fun_eq_iff core_of_def tree_simps vA Let_def k_def option.map_comp o_def)
  have eA: "sel_edge A = sel_edge ?dbR" unfolding vA(2) edgeR ..
  have eA2: "ilinks A = ilinks ?dbR" "subdirs A = subdirs ?dbR"
    unfolding vA(3,4) by (simp_all add: fun_eq_iff ilinks_def subdirs_def stmt_defs Let_def)
  have "tree_ok db' \<and> x = ed_inode es \<and>
    sel_edge db' = (\<lambda>q m. if q = pD \<and> m = nD then Some (es\<lparr>ed_parent := pD, ed_name := nD\<rparr>)
        else if q = pS \<and> m = nS then None else sel_edge ?dbR q m)"
  proof (rule move_entry_tree_ok [OF plain(7) [folded k_def] _ okA _ _ cA eA eA2])
    show "\<exists>l q. core_of A pD = Some (TypeDirectory, l, q)"
      using pDdir pDk by (auto simp: core_of_def vA)
    show "sel_edge A pS nS = Some es" using plain(1) ne by (auto simp: vA)
    show "uniq ?dbR" using tree_okD(1) [OF ok] by (simp add: tree_simps Let_def)
  qed (simp_all add: tree_simps)
  with plain(1) show ?thesis unfolding edgeR by (auto simp: fun_eq_iff)
qed

section \<open>Exchanging two entries\<close>

text \<open>The change of a directory's link count when an entry of type \<open>ts\<close> leaves \<open>pS\<close> for \<open>pD\<close> and one of type
  \<open>td\<close> goes the other way.\<close>

definition swap_delta :: "u8 \<Rightarrow> u8 \<Rightarrow> Ino \<Rightarrow> Ino \<Rightarrow> Ino \<Rightarrow> int" where
  "swap_delta ts td pS pD j =
    (if ts = TypeDirectory then (if j = pD then 1 else 0) - (if j = pS then 1 else 0) else 0) +
    (if td = TypeDirectory then (if j = pS then 1 else 0) - (if j = pD then 1 else 0) else 0)"

lemma swap_delta_total:
  assumes "d1 = (if ts = TypeDirectory then add_delta pD 1 (add_delta pS (- 1) []) else [])"
    and "d2 = (if td = TypeDirectory then add_delta pS 1 (add_delta pD (- 1) d1) else d1)"
  shows "delta_at (if pS \<noteq> pD then filter (\<lambda>(_, d). d \<noteq> 0) d2 else []) j = swap_delta ts td pS pD j"
proof -
  have "distinct (map fst d1)" by (simp add: assms(1) distinct_add_delta)
  moreover have "delta_at d1 j = (if ts = TypeDirectory then (if j = pD then 1 else 0) - (if j = pS then 1 else 0) else 0)"
    unfolding assms(1) using total_two [of pD pS j] by simp
  ultimately have "delta_at d2 j = swap_delta ts td pS pD j"
    unfolding assms(2) by (simp add: swap_delta_def total_add_delta distinct_add_delta)
  then show ?thesis by (auto simp: total_filter swap_delta_def)
qed

lemma swap_edges_counts:
  assumes u: "uniq db" and s: "sel_edge db pS nS = Some es" and d: "sel_edge db pD nD = Some ed"
    and ne: "\<not> (pS = pD \<and> nS = nD)"
    and db': "db' = upd_edge pD nD (\<lambda>e. e\<lparr>ed_inode := ed_inode es, ed_type := ed_type es\<rparr>)
      (upd_edge pS nS (\<lambda>e. e\<lparr>ed_inode := ed_inode ed, ed_type := ed_type ed\<rparr>) db)"
  shows "sel_edge db' = (\<lambda>q m. if q = pD \<and> m = nD then Some (ed\<lparr>ed_inode := ed_inode es, ed_type := ed_type es\<rparr>)
        else if q = pS \<and> m = nS then Some (es\<lparr>ed_inode := ed_inode ed, ed_type := ed_type ed\<rparr>) else sel_edge db q m)"
    and "ilinks db' j = ilinks db j"
    and "int (subdirs db' j) = int (subdirs db j) + swap_delta (ed_type es) (ed_type ed) pS pD j"
    and "uniq db'"
proof -
  let ?f = "\<lambda>e. e\<lparr>ed_inode := ed_inode ed, ed_type := ed_type ed\<rparr>"
  let ?g = "\<lambda>e. e\<lparr>ed_inode := ed_inode es, ed_type := ed_type es\<rparr>"
  let ?m = "upd_edge pS nS ?f db"
  have um: "uniq ?m" using u by (simp add: tree_simps)
  have dm: "sel_edge ?m pD nD = Some ed" using d ne by (auto simp: tree_simps)
  show "sel_edge db' = (\<lambda>q m. if q = pD \<and> m = nD then Some (?g ed)
        else if q = pS \<and> m = nS then Some (?f es) else sel_edge db q m)"
    using s d dm by (auto simp: db' tree_simps fun_eq_iff)
  show "uniq db'" using um by (simp add: db' tree_simps)
  have c1: "cnt P (t_edge ?m) + (if P es then 1 else 0) = cnt P (t_edge db) + (if P (?f es) then 1 else 0)" for P
    using cnt_upd [of edge_key "t_edge db" "(pS, nS)" es P ?f] u s by (simp add: uniq_def sel_edge_def upd_edge_def)
  have c2: "cnt P (t_edge db') + (if P ed then 1 else 0) = cnt P (t_edge ?m) + (if P (?g ed) then 1 else 0)" for P
    using cnt_upd [of edge_key "t_edge ?m" "(pD, nD)" ed P ?g] um dm by (simp add: uniq_def sel_edge_def upd_edge_def db')
  have k: "ed_parent es = pS" "ed_parent ed = pD" using sel_edge_key [OF s] sel_edge_key [OF d] by auto
  show "ilinks db' j = ilinks db j"
    using c1 [of "\<lambda>e. ed_inode e = j"] c2 [of "\<lambda>e. ed_inode e = j"] by (simp add: ilinks_def split: if_splits)
  show "int (subdirs db' j) = int (subdirs db j) + swap_delta (ed_type es) (ed_type ed) pS pD j"
    using c1 [of "\<lambda>e. ed_parent e = j \<and> ed_type e = TypeDirectory"]
      c2 [of "\<lambda>e. ed_parent e = j \<and> ed_type e = TypeDirectory"] k
    by (auto simp: subdirs_def swap_delta_def split: if_splits)
qed

lemma renameExchange_tx_cases:
  assumes "renameExchange_tx pS nS pD nD now [] db = (Inr (x, db'), [])"
  obtains (same) es ed where "sel_edge db pS nS = Some es" "sel_edge db pD nD = Some ed"
      "ed_inode ed = ed_inode es" "x = ed_inode es" "db' = db"
  | (swap) es ed m dl where "sel_edge db pS nS = Some es" "sel_edge db pD nD = Some ed"
      "ed_inode ed \<noteq> ed_inode es" "x = ed_inode es"
      "m = upd_edge pD nD (\<lambda>e. e\<lparr>ed_inode := ed_inode es, ed_type := ed_type es\<rparr>)
        (upd_edge pS nS (\<lambda>e. e\<lparr>ed_inode := ed_inode ed, ed_type := ed_type ed\<rparr>) db)"
      "\<And>j. delta_at dl j = swap_delta (ed_type es) (ed_type ed) pS pD j"
      "db' = appendChangelog now (ed_inode es) OpRename (PExchange pS nS pD nD)
        (touch_db (distinctParents pS pD) (unix_s now) (unix_ns now)
        (deltas_db dl (upd_node (ed_inode ed) (set_parent pS (unix_s now) (unix_ns now))
           (upd_node (ed_inode es) (set_parent pD (unix_s now) (unix_ns now)) m))))"
proof -
  obtain es where es: "sel_edge db pS nS = Some es"
    using assms by (cases "sel_edge db pS nS") (auto simp: renameExchange_tx_def tx_simps Let_def)
  obtain ed where ed: "sel_edge db pD nD = Some ed"
    using assms es by (cases "sel_edge db pD nD") (auto simp: renameExchange_tx_def tx_simps Let_def)
  note run = assms [unfolded renameExchange_tx_def Let_def query_ok es ed option.case]
  show ?thesis
  proof (cases "ed_inode ed = ed_inode es")
    case True
    with run show ?thesis by (intro same [OF es ed True]) (auto simp: tx_simps)
  next
    case False
    then show ?thesis
      using run by (intro swap [OF es ed False _ refl swap_delta_total [OF refl refl]]) (auto simp: tx_simps)
  qed
qed

lemma renameExchange_tx_tree_ok:
  assumes ok: "tree_ok db" and run: "renameExchange_tx pS nS pD nD now [] db = (Inr (x, db'), [])"
  shows "tree_ok db'"
  using run
proof (cases rule: renameExchange_tx_cases)
  case (same es ed)
  then show ?thesis using ok by simp
next
  case (swap es ed m dl)
  have ne: "\<not> (pS = pD \<and> nS = nD)" using swap(1-3) by auto
  note v = swap_edges_counts [OF tree_okD(1) [OF ok] swap(1,2) ne swap(5)]
  let ?D = "swap_delta (ed_type es) (ed_type ed) pS pD"
  have core: "core_of db' j = map_option (\<lambda>(ty, l, q). (ty, l + ?D j,
      if j = ed_inode ed then pS else if j = ed_inode es then pD else q)) (core_of db j)" for j
  proof -
    have cm: "core_of m = core_of db" by (simp add: swap(5) core_of_def fun_eq_iff tree_simps)
    show ?thesis
      by (cases "core_of db j") (auto simp: swap(6,7) core_touch_db core_deltas_db core_set_parent cm)
  qed
  have e': "sel_edge db' = sel_edge m" "ilinks db' = ilinks m" "subdirs db' = subdirs m" "uniq db'"
    using v(4) by (simp_all add: swap(7) tree_simps set_parent_def)
  have old: "(\<exists>l q. core_of db p = Some (TypeDirectory, l, q)) \<and>
      (\<exists>l q. core_of db (ed_inode e) = Some (ed_type e, l, q) \<and> (ed_type e = TypeDirectory \<longrightarrow> q = p))"
    if s: "sel_edge db p n = Some e" for p n e
    using ok s sel_edge_key [OF s] unfolding tree_ok_core_iff by blast
  have nodes: "if ty = TypeDirectory then l = 2 + int (subdirs db' i) \<and> ilinks db' i = (if i = RootInode then 0 else 1)
       else l = int (ilinks db' i)" if c: "core_of db' i = Some (ty, l, p)" for i ty l p
  proof -
    obtain p0 where c0: "core_of db i = Some (ty, l - ?D i, p0)" using c by (auto simp: core)
    have "ty \<noteq> TypeDirectory \<Longrightarrow> i \<noteq> pD \<and> i \<noteq> pS" using c0 old [OF swap(1)] old [OF swap(2)] by auto
    then have z: "ty \<noteq> TypeDirectory \<Longrightarrow> ?D i = 0" by (auto simp: swap_delta_def)
    have "if ty = TypeDirectory then l - ?D i = 2 + int (subdirs db i) \<and> ilinks db i = (if i = RootInode then 0 else 1)
       else l - ?D i = int (ilinks db i)"
      using ok c0 unfolding tree_ok_core_iff by blast
    with z v(2,3) [of i] show ?thesis by (auto simp: e' split: if_splits)
  qed
  have edges: "(\<exists>l q. core_of db' (ed_parent e) = Some (TypeDirectory, l, q)) \<and>
      (\<exists>l q. core_of db' (ed_inode e) = Some (ed_type e, l, q) \<and> (ed_type e = TypeDirectory \<longrightarrow> q = ed_parent e))"
    if s: "sel_edge db' p n = Some e" for p n e
  proof -
    consider (D) "p = pD" "n = nD" "e = ed\<lparr>ed_inode := ed_inode es, ed_type := ed_type es\<rparr>"
      | (S) "p = pS" "n = nS" "e = es\<lparr>ed_inode := ed_inode ed, ed_type := ed_type ed\<rparr>"
      | (O) "sel_edge db p n = Some e" "\<not> (p = pD \<and> n = nD)" "\<not> (p = pS \<and> n = nS)"
      using s unfolding e'(1) v(1) by (metis option.inject)
    then show ?thesis
    proof cases
      case D
      then show ?thesis using old [OF swap(1)] old [OF swap(2)] sel_edge_key [OF swap(2)] swap(3) by (auto simp: core)
    next
      case S
      then show ?thesis using old [OF swap(1)] old [OF swap(2)] sel_edge_key [OF swap(1)] swap(3) by (auto simp: core)
    next
      case O
      have "ed_type e = TypeDirectory \<Longrightarrow> ed_inode e \<noteq> ed_inode es \<and> ed_inode e \<noteq> ed_inode ed"
        using only_dir_edge [OF ok O(1) swap(1)] only_dir_edge [OF ok O(1) swap(2)] O(2,3) by auto
      moreover have "\<exists>l' p'. core_of db' j = Some (ty, l', p') \<and>
          (j \<noteq> ed_inode es \<and> j \<noteq> ed_inode ed \<longrightarrow> p' = q)" if "core_of db j = Some (ty, l, q)" for j ty l q
        using that by (simp add: core)
      ultimately show ?thesis using old [OF O(1)] sel_edge_key [OF O(1)] by metis
    qed
  qed
  have "\<exists>l p. core_of db' RootInode = Some (TypeDirectory, l, p)"
    using ok unfolding tree_ok_core_iff core by auto
  with nodes edges e'(4) show ?thesis unfolding tree_ok_core_iff by blast
qed

section \<open>The two-scope fence\<close>

lemma flush_same_mount: "same_mount s (flushScopeCache s)"
  unfolding flushScopeCache_def by (rule same_mountI [where w = "e_owner (s_eng s)" and c = "\<lambda>_. None"]) simp_all

lemma fenced_tx2_ok:
  assumes mono: "fault_mono body" and op: "fenced_tx2 p q body s = (Inr x, s')"
  obtains s1 where "same_mount s s1" and "body [] (s_db s1) = (Inr (x, s_db s'), [])"
    and "s_now s' = s_now s" and "e_openRefs (s_eng s') = e_openRefs (s_eng s)"
    and "e_sustained (s_eng s') = e_sustained (s_eng s)"
proof -
  obtain r1 s1 where a1: "acquireScope p s = (r1, s1)" by (rule prod.exhaust)
  obtain r2 s2 where a2: "acquireScope q s1 = (r2, s2)" by (rule prod.exhaust)
  from op a1 a2 obtain sc g sc' g' where r: "r1 = Inr (sc, g)" "r2 = Inr (sc', g')"
    by (cases r1; cases r2) (auto simp: fenced_tx2_def)
  define tx where "tx = fenceInTx (s_eng s2) sc g (if sc' \<noteq> sc then fenceInTx (s_eng s2) sc' g' body else body)"
  obtain t s3 where run: "run_tx tx s2 = (t, s3)" by (rule prod.exhaust)
  with op a1 a2 r have t: "t = Inr x" and s': "s' = (if sc \<noteq> sc' then flushScopeCache s3 else s3)"
    by (cases t; simp add: fenced_tx2_def tx_def tx_errno_def split: txerr.splits)+
  have m: "same_mount s s2"
    by (rule same_mount_trans [OF acquireScope_same_mount [OF a1] acquireScope_same_mount [OF a2]])
  have "fault_mono tx" using mono by (simp add: tx_def fault_intros)
  from run_tx_commit [OF this run [unfolded t]] have "tx [] (s_db s2) = (Inr (x, s_db s3), [])" .
  then have b: "body [] (s_db s2) = (Inr (x, s_db s3), [])"
    by (auto simp: tx_def dest!: fenceInTx_commit(1) split: if_splits)
  have e: "s_db s' = s_db s3" "s_now s' = s_now s2" "e_openRefs (s_eng s') = e_openRefs (s_eng s2)"
      "e_sustained (s_eng s') = e_sustained (s_eng s2)"
    using run_tx_frame [OF run] by (auto simp: s' flushScopeCache_def)
  show ?thesis
    using that [OF m] b e same_mount_simps(1,3,4) [OF m] by simp
qed

lemma fenced_tx2_err:
  assumes op: "fenced_tx2 p q body s = (Inl e, s')"
  shows "same_mount s s'"
proof -
  obtain r1 s1 where a1: "acquireScope p s = (r1, s1)" by (rule prod.exhaust)
  obtain r2 s2 where a2: "acquireScope q s1 = (r2, s2)" by (rule prod.exhaust)
  have m1: "same_mount s s1" by (rule acquireScope_same_mount [OF a1])
  have m2: "same_mount s s2" by (rule same_mount_trans [OF m1 acquireScope_same_mount [OF a2]])
  show ?thesis
  proof (cases "isl r1 \<or> isl r2")
    case True
    with op a1 a2 m1 m2 show ?thesis by (cases r1; cases r2) (auto simp: fenced_tx2_def)
  next
    case False
    then obtain sc g sc' g' where r: "r1 = Inr (sc, g)" "r2 = Inr (sc', g')" by (cases r1; cases r2) auto
    define tx where "tx = fenceInTx (s_eng s2) sc g (if sc' \<noteq> sc then fenceInTx (s_eng s2) sc' g' body else body)"
    obtain t s3 where run: "run_tx tx s2 = (t, s3)" by (rule prod.exhaust)
    with op a1 a2 r obtain te where t: "t = Inl te" "s' = s3"
      by (cases t) (auto simp: fenced_tx2_def tx_def)
    have "same_mount s2 s3"
      using run_tx_frame [OF run] run_tx_atomic [OF run [unfolded t(1)]] by (intro same_db_same_mount) simp_all
    with m2 t(2) show ?thesis using same_mount_trans by blast
  qed
qed

lemma fenced_tx2_sustained:
  assumes "fault_mono body" and "fenced_tx2 p q body s = (r, s')"
  shows "e_sustained (s_eng s') = e_sustained (s_eng s)"
proof (cases r)
  case (Inl e)
  then show ?thesis using fenced_tx2_err [of p q body s e s'] assms(2) same_mount_simps(4) by blast
next
  case (Inr x)
  from assms(2) [unfolded Inr] show ?thesis by (rule fenced_tx2_ok [OF assms(1)]) simp
qed

context db_invariant
begin

lemma fenced2_preserves:
  assumes "fault_mono body" and "fenced_tx2 p q body s = (r, s')" and "inv (s_db s)"
    and body: "\<And>d x d'. same_but_leases (s_db s) d \<Longrightarrow> inv d \<Longrightarrow> body [] d = (Inr (x, d'), []) \<Longrightarrow> inv d'"
  shows "inv (s_db s')"
proof (cases r)
  case (Inl e)
  have "same_mount s s'" by (rule fenced_tx2_err [OF assms(2) [unfolded Inl]])
  then show ?thesis using not_leases assms(3) same_mount_simps(6) by blast
next
  case (Inr x)
  from assms(2) [unfolded Inr] obtain s1 where "same_mount s s1" "body [] (s_db s1) = (Inr (x, s_db s'), [])"
    by (rule fenced_tx2_ok [OF assms(1)])
  then show ?thesis using not_leases assms(3) same_mount_simps(6) body by blast
qed

end

end
