(* ===== verification/Meta_Slices.thy ===== *)
theory Meta_Slices
  imports Meta_Rename
begin

text \<open>
  The slice table: \<open>Write\<close> and \<open>Read\<close> of mlfs/internal/meta/ops.go, and slices.go (\<open>ReadSlices\<close>, \<open>Truncate\<close>,
  \<open>CloneRange\<close>, \<open>Clone\<close>).

  A parameter that does not fit its INTEGER column is refused by the server, which the code reports as
  EIO.  The two INSERT ... SELECT statements of the clones have no ORDER BY: the order in which the server
  returns the source rows, and so the order of the new row ids, is the parameter \<open>scan\<close>.
\<close>

section \<open>Definitions\<close>

record SliceRef =
  rf_pos :: u32
  rf_slice :: Slice

definition slice_row_of :: "Ino \<Rightarrow> u32 \<Rightarrow> u32 \<Rightarrow> Slice \<Rightarrow> slice_row" where
  "slice_row_of i indx off sl = \<lparr>sr_id = 0, sr_inode = i, sr_indx = uint indx, sr_pos = uint off,
     sr_slice_id = sl_id sl, sr_size = uint (sl_size sl), sr_soff = uint (sl_off sl), sr_slen = uint (sl_len sl)\<rparr>"

definition slice_fits :: "slice_row \<Rightarrow> bool" where
  "slice_fits r \<longleftrightarrow> int4 (sr_indx r) \<and> int4 (sr_pos r) \<and> int4 (sr_size r) \<and> int4 (sr_soff r) \<and> int4 (sr_slen r)"

text \<open>INSERT of one slice row with ON CONFLICT DO NOTHING; the result says whether it was inserted.\<close>

definition ins_slice_new :: "slice_row \<Rightarrow> db \<Rightarrow> (bool \<times> db) option" where
  "ins_slice_new r db =
    (if \<not> slice_fits r then None
     else case sel slice_key (slice_key r) (t_slice_ref db) of
         Some _ \<Rightarrow> Some (False, db)
       | None \<Rightarrow> Some (True, ins_slices [r] db))"

definition set_length :: "int \<Rightarrow> int \<Rightarrow> int \<Rightarrow> node_row \<Rightarrow> node_row" where
  "set_length len ts nsec r = touch ts nsec (r\<lparr>n_length := len\<rparr>)"

text \<open>The end of a write, computed in 64 bits.\<close>

definition newLen :: "u32 \<Rightarrow> u32 \<Rightarrow> Slice \<Rightarrow> u64" where
  "newLen indx off sl = ucast indx * word_of_int ChunkSize + ucast off + ucast (sl_len sl)"

definition Write_tx :: "Ino \<Rightarrow> u32 \<Rightarrow> u32 \<Rightarrow> Slice \<Rightarrow> int \<Rightarrow> (db, unit) tx" where
  "Write_tx inode indx off sl now =
    (let ts = unix_s now; nsec = unix_ns now in
     query (\<lambda>db. getAttr db inode) (\<lambda>cur.
       case cur of
         None \<Rightarrow> tx_abort ENOENT
       | Some cur \<Rightarrow>
           if a_typ cur \<noteq> TypeFile then tx_abort EINVAL
           else
             returning (ins_slice_new (slice_row_of inode indx off sl)) (\<lambda>ins.
               if \<not> ins then tx_ret ()
               else
                 (let len = (if a_length cur < newLen indx off sl then newLen indx off sl else a_length cur)
                  in exec (upd_node inode (set_length (sint len) ts nsec))
                    (exec (appendChangelog now inode OpWrite (PWrite indx off (sl_len sl)))
                    (tx_ret ()))))))"

definition Write :: "Ino \<Rightarrow> u32 \<Rightarrow> u32 \<Rightarrow> Slice \<Rightarrow> sys \<Rightarrow> (errno + unit) \<times> sys" where
  "Write inode indx off sl s = fenced_tx inode (Write_tx inode indx off sl (s_now s)) s"

text \<open>The rows of a chunk in write order, and their two projections.\<close>

definition chunk_rows :: "Ino \<Rightarrow> int \<Rightarrow> db \<Rightarrow> slice_row list" where
  "chunk_rows i indx db = sort_key sr_id (filter (\<lambda>r. sr_inode r = i \<and> sr_indx r = indx) (t_slice_ref db))"

definition row_slice :: "slice_row \<Rightarrow> Slice" where
  "row_slice r = \<lparr>sl_id = sr_slice_id r, sl_size = word_of_int (sr_size r),
     sl_off = word_of_int (sr_soff r), sl_len = word_of_int (sr_slen r)\<rparr>"

definition row_ref :: "slice_row \<Rightarrow> SliceRef" where
  "row_ref r = \<lparr>rf_pos = word_of_int (sr_pos r), rf_slice = row_slice r\<rparr>"

definition sel_chunk :: "Ino \<Rightarrow> u32 \<Rightarrow> db \<Rightarrow> (slice_row list \<times> db) option" where
  "sel_chunk i indx db = (if int4 (uint indx) then Some (chunk_rows i (uint indx) db, db) else None)"

definition Read_slices :: "Ino \<Rightarrow> u32 \<Rightarrow> sys \<Rightarrow> (errno + Slice list) \<times> sys" where
  "Read_slices i indx s = (case run_stmt (sel_chunk i indx) s of
      (None, s') \<Rightarrow> (Inl EIO, s') | (Some rows, s') \<Rightarrow> (Inr (map row_slice rows), s'))"

definition ReadSlices :: "Ino \<Rightarrow> u32 \<Rightarrow> sys \<Rightarrow> (errno + SliceRef list) \<times> sys" where
  "ReadSlices i indx s = (case run_stmt (sel_chunk i indx) s of
      (None, s') \<Rightarrow> (Inl EIO, s') | (Some rows, s') \<Rightarrow> (Inr (map row_ref rows), s'))"

text \<open>\<open>Truncate\<close>: on a shrink, rows past the new size go and a straddling row is cut.\<close>

definition row_start :: "slice_row \<Rightarrow> int" where
  "row_start r = sr_indx r * ChunkSize + sr_pos r"

definition drop_past :: "Ino \<Rightarrow> int \<Rightarrow> db \<Rightarrow> db" where
  "drop_past i sz db =
    db\<lparr>t_slice_ref := filter (\<lambda>r. \<not> (sr_inode r = i \<and> sz \<le> row_start r)) (t_slice_ref db)\<rparr>"

definition trim_row :: "Ino \<Rightarrow> int \<Rightarrow> slice_row \<Rightarrow> slice_row" where
  "trim_row i sz r = (if sr_inode r = i \<and> row_start r < sz \<and> sz < row_start r + sr_slen r
     then r\<lparr>sr_slen := sz - row_start r\<rparr> else r)"

definition trim_at :: "Ino \<Rightarrow> int \<Rightarrow> db \<Rightarrow> db" where
  "trim_at i sz db = db\<lparr>t_slice_ref := map (trim_row i sz) (t_slice_ref db)\<rparr>"

definition Truncate_tx :: "Ino \<Rightarrow> int \<Rightarrow> int \<Rightarrow> (db, unit) tx" where
  "Truncate_tx inode sz now =
    (let ts = unix_s now; nsec = unix_ns now in
     query (\<lambda>db. getAttr db inode) (\<lambda>cur.
       case cur of
         None \<Rightarrow> tx_abort ENOENT
       | Some cur \<Rightarrow>
           if a_typ cur = TypeDirectory then tx_abort EISDIR
           else
             (if sz < sint (a_length cur)
              then (\<lambda>k. exec (drop_past inode sz) (exec (trim_at inode sz) k)) else id)
             (exec (upd_node inode (set_length sz ts nsec))
             (exec (appendChangelog now inode OpSetattr (PTruncate sz))
             (tx_ret ())))))"

definition Truncate :: "Ino \<Rightarrow> int \<Rightarrow> sys \<Rightarrow> (errno + unit) \<times> sys" where
  "Truncate inode sz s = fenced_tx inode (Truncate_tx inode sz (s_now s)) s"

text \<open>\<open>CloneRange\<close>: the upper bounds are computed in 32 bits, then widened.\<close>

definition del_range :: "Ino \<Rightarrow> int \<Rightarrow> int \<Rightarrow> db \<Rightarrow> db option" where
  "del_range i lo hi db =
    (if int4 lo \<and> int4 hi
     then Some (db\<lparr>t_slice_ref := filter (\<lambda>r. \<not> (sr_inode r = i \<and> lo \<le> sr_indx r \<and> sr_indx r < hi)) (t_slice_ref db)\<rparr>)
     else None)"

definition copy_range ::
  "(slice_row list \<Rightarrow> slice_row list) \<Rightarrow> Ino \<Rightarrow> Ino \<Rightarrow> int \<Rightarrow> int \<Rightarrow> int \<Rightarrow> db \<Rightarrow> db option" where
  "copy_range scan src dst shift lo hi db =
    (let rows = scan (filter (\<lambda>r. sr_inode r = src \<and> lo \<le> sr_indx r \<and> sr_indx r < hi) (t_slice_ref db))
     in if int4 shift \<and> int4 lo \<and> int4 hi \<and> (\<forall>r \<in> set rows. int4 (sr_indx r + shift))
        then Some (ins_slices (map (\<lambda>r. r\<lparr>sr_inode := dst, sr_indx := sr_indx r + shift\<rparr>) rows) db)
        else None)"

definition CloneRange_tx ::
  "(slice_row list \<Rightarrow> slice_row list) \<Rightarrow> Ino \<Rightarrow> Ino \<Rightarrow> u32 \<Rightarrow> u32 \<Rightarrow> u32 \<Rightarrow> int \<Rightarrow> (db, unit) tx" where
  "CloneRange_tx scan srcIno dstIno srcIdx dstIdx nChunks now =
    query (\<lambda>db. getAttr db srcIno) (\<lambda>src.
      case src of
        None \<Rightarrow> tx_abort ENOENT
      | Some _ \<Rightarrow>
          query (\<lambda>db. getAttr db dstIno) (\<lambda>dst.
            case dst of
              None \<Rightarrow> tx_abort ENOENT
            | Some dst \<Rightarrow>
                if a_typ dst \<noteq> TypeFile then tx_abort EINVAL
                else
                  exec_may (del_range dstIno (uint dstIdx) (uint (dstIdx + nChunks)))
                 (exec_may (copy_range scan srcIno dstIno (uint dstIdx - uint srcIdx) (uint srcIdx) (uint (srcIdx + nChunks)))
                 (exec (appendChangelog now dstIno OpWrite (PCloneRange srcIno srcIdx dstIdx nChunks))
                 (tx_ret ())))))"

definition CloneRange ::
  "(slice_row list \<Rightarrow> slice_row list) \<Rightarrow> Ino \<Rightarrow> Ino \<Rightarrow> u32 \<Rightarrow> u32 \<Rightarrow> u32 \<Rightarrow> sys \<Rightarrow> (errno + unit) \<times> sys" where
  "CloneRange scan srcIno dstIno srcIdx dstIdx nChunks s =
    (if nChunks = 0 then (Inr (), s)
     else fenced_tx dstIno (CloneRange_tx scan srcIno dstIno srcIdx dstIdx nChunks (s_now s)) s)"

definition copy_all :: "(slice_row list \<Rightarrow> slice_row list) \<Rightarrow> Ino \<Rightarrow> Ino \<Rightarrow> db \<Rightarrow> db" where
  "copy_all scan src dst db =
    ins_slices (map (\<lambda>r. r\<lparr>sr_inode := dst\<rparr>) (scan (filter (\<lambda>r. sr_inode r = src) (t_slice_ref db)))) db"

definition Clone_tx :: "(slice_row list \<Rightarrow> slice_row list) \<Rightarrow> Ino \<Rightarrow> Ino \<Rightarrow> int \<Rightarrow> (db, unit) tx" where
  "Clone_tx scan srcIno dstIno now =
    (let ts = unix_s now; nsec = unix_ns now in
     query (\<lambda>db. getAttr db srcIno) (\<lambda>src.
       case src of
         None \<Rightarrow> tx_abort ENOENT
       | Some src \<Rightarrow>
           query (\<lambda>db. getAttr db dstIno) (\<lambda>dst.
             case dst of
               None \<Rightarrow> tx_abort ENOENT
             | Some _ \<Rightarrow>
                 if a_typ src \<noteq> TypeFile then tx_abort EINVAL
                 else
                   exec (copy_all scan srcIno dstIno)
                  (exec (upd_node dstIno (set_length (sint (a_length src)) ts nsec))
                  (exec (appendChangelog now dstIno OpWrite (PClone srcIno (a_length src)))
                  (tx_ret ()))))))"

definition Clone :: "(slice_row list \<Rightarrow> slice_row list) \<Rightarrow> Ino \<Rightarrow> Ino \<Rightarrow> sys \<Rightarrow> (errno + unit) \<times> sys" where
  "Clone scan srcIno dstIno s = fenced_tx dstIno (Clone_tx scan srcIno dstIno (s_now s)) s"

end
