(* ===== verification/Overlay.thy ===== *)
theory Overlay
  imports Meta_Slices
begin

text \<open>
  Slice overlay resolution of mlfs/internal/fileio/fileio.go: \<open>resolve\<close>, \<open>subtract\<close> and \<open>addCovered\<close> on 32-bit
  positions, and their equivalence with the pointwise definition of what a byte of a chunk is: the newest
  slice that covers it, or a hole.  \<open>sort.Slice\<close> is modelled by a stable sort; the keys it compares are
  distinct here.
\<close>

section \<open>Definitions\<close>

record seg =
  sg_start :: u32
  sg_end :: u32
  sg_id :: u64
  sg_srcOff :: u32

record iv =
  iv_a :: u32
  iv_b :: u32

fun subtract_loop :: "u32 \<Rightarrow> iv list \<Rightarrow> u32 \<Rightarrow> iv list \<times> u32" where
  "subtract_loop b [] cur = ([], cur)"
| "subtract_loop b (c # cs) cur =
    (if iv_b c \<le> cur \<or> b \<le> iv_a c then subtract_loop b cs cur
     else
       (let res = (if cur < iv_a c then [\<lparr>iv_a = cur, iv_b = min (iv_a c) b\<rparr>] else []);
            cur' = (if cur < iv_b c then iv_b c else cur)
        in if b \<le> cur' then (res, cur')
           else (case subtract_loop b cs cur' of (rs, cur'') \<Rightarrow> (res @ rs, cur''))))"

definition subtract :: "u32 \<Rightarrow> u32 \<Rightarrow> iv list \<Rightarrow> iv list" where
  "subtract a b covered =
    (case subtract_loop b covered a of (res, cur) \<Rightarrow> if cur < b then res @ [\<lparr>iv_a = cur, iv_b = b\<rparr>] else res)"

text \<open>The merge loop of \<open>addCovered\<close>; the first argument is the merged list so far, last element first.\<close>

fun merge_iv :: "iv list \<Rightarrow> iv list \<Rightarrow> iv list" where
  "merge_iv ms [] = rev ms"
| "merge_iv [] (c # cs) = merge_iv [c] cs"
| "merge_iv (m # ms) (c # cs) =
    (if iv_a c \<le> iv_b m
     then merge_iv ((if iv_b m < iv_b c then m\<lparr>iv_b := iv_b c\<rparr> else m) # ms) cs
     else merge_iv (c # m # ms) cs)"

definition addCovered :: "iv list \<Rightarrow> u32 \<Rightarrow> u32 \<Rightarrow> iv list" where
  "addCovered covered a b = merge_iv [] (sort_key iv_a (covered @ [\<lparr>iv_a = a, iv_b = b\<rparr>]))"

definition seg_of :: "SliceRef \<Rightarrow> iv \<Rightarrow> seg" where
  "seg_of s g = \<lparr>sg_start = iv_a g, sg_end = iv_b g, sg_id = sl_id (rf_slice s),
     sg_srcOff = sl_off (rf_slice s) + (iv_a g - rf_pos s)\<rparr>"

fun add_all :: "iv list \<Rightarrow> iv list \<Rightarrow> iv list" where
  "add_all [] covered = covered"
| "add_all (g # gs) covered = add_all gs (addCovered covered (iv_a g) (iv_b g))"

text \<open>The loop over the slices, newest first.\<close>

fun overlay :: "SliceRef list \<Rightarrow> u32 \<Rightarrow> u32 \<Rightarrow> iv list \<Rightarrow> seg list \<Rightarrow> iv list \<times> seg list" where
  "overlay [] lo hi covered out = (covered, out)"
| "overlay (s # ss) lo hi covered out =
    (let a = (if rf_pos s < lo then lo else rf_pos s);
         e = rf_pos s + sl_len (rf_slice s);
         b = (if hi < e then hi else e)
     in if b \<le> a then overlay ss lo hi covered out
        else (let gs = subtract a b covered in overlay ss lo hi (add_all gs covered) (out @ map (seg_of s) gs)))"

definition hole :: "iv \<Rightarrow> seg" where
  "hole g = \<lparr>sg_start = iv_a g, sg_end = iv_b g, sg_id = 0, sg_srcOff = 0\<rparr>"

definition resolve :: "SliceRef list \<Rightarrow> u32 \<Rightarrow> u32 \<Rightarrow> seg list" where
  "resolve slices lo hi =
    (if hi \<le> lo then []
     else (case overlay (rev slices) lo hi [] [] of
         (covered, out) \<Rightarrow> sort_key sg_start (out @ map hole (subtract lo hi covered))))"

section \<open>Interval sets\<close>

definition iv_set :: "iv \<Rightarrow> u32 set" where
  "iv_set c = {p. iv_a c \<le> p \<and> p < iv_b c}"

definition cov :: "iv list \<Rightarrow> u32 set" where
  "cov cs = (\<Union>c \<in> set cs. iv_set c)"

text \<open>Sorted, disjoint, without empty members.\<close>

definition iv_ok :: "iv list \<Rightarrow> bool" where
  "iv_ok cs \<longleftrightarrow> (\<forall>c \<in> set cs. iv_a c < iv_b c) \<and> sorted_wrt (\<lambda>x y. iv_b x \<le> iv_a y) cs"

lemma cov_simps [simp]:
  "cov [] = {}" "cov (c # cs) = iv_set c \<union> cov cs" "cov (xs @ ys) = cov xs \<union> cov ys"
  by (auto simp: cov_def)

lemma iv_ok_Nil [simp]: "iv_ok []"
  by (simp add: iv_ok_def)

lemma iv_ok_Cons: "iv_ok (c # cs) \<longleftrightarrow> iv_a c < iv_b c \<and> (\<forall>d \<in> set cs. iv_b c \<le> iv_a d) \<and> iv_ok cs"
  by (auto simp: iv_ok_def)

lemma iv_ok_append:
  "iv_ok (xs @ ys) \<longleftrightarrow> iv_ok xs \<and> iv_ok ys \<and> (\<forall>x \<in> set xs. \<forall>y \<in> set ys. iv_b x \<le> iv_a y)"
  by (auto simp: iv_ok_def sorted_wrt_append)

text \<open>The pieces \<open>subtract\<close> returns are exactly what is left of the interval.\<close>

lemma subtract_loop_spec:
  assumes "iv_ok cs" and "subtract_loop b cs cur = (rs, cur')" and "cur < b"
  shows "cov (rs @ (if cur' < b then [\<lparr>iv_a = cur', iv_b = b\<rparr>] else [])) = {p. cur \<le> p \<and> p < b} - cov cs \<and>
    iv_ok rs \<and> cur \<le> cur' \<and> (\<forall>r \<in> set rs. cur \<le> iv_a r \<and> iv_b r \<le> b \<and> iv_b r \<le> cur')"
  using assms
proof (induction b cs cur arbitrary: rs cur' rule: subtract_loop.induct)
  case (1 b cur)
  then show ?case by (auto simp: iv_set_def)
next
  case (2 b c cs cur)
  have c: "iv_a c < iv_b c" "\<And>d. d \<in> set cs \<Longrightarrow> iv_b c \<le> iv_a d" "iv_ok cs"
    using "2.prems"(1) by (auto simp: iv_ok_Cons)
  have later: "p \<notin> cov cs" if "p < iv_b c" for p
    using c(2) that by (force simp: cov_def iv_set_def)
  show ?case
  proof (cases "iv_b c \<le> cur \<or> b \<le> iv_a c")
    case True
    then have "{p. cur \<le> p \<and> p < b} \<inter> iv_set c = {}" by (auto simp: iv_set_def)
    moreover have "subtract_loop b cs cur = (rs, cur')" using "2.prems"(2) True by simp
    ultimately show ?thesis using "2.IH"(1) [OF True c(3) _ "2.prems"(3)] by auto
  next
    case False
    let ?res = "if cur < iv_a c then [\<lparr>iv_a = cur, iv_b = min (iv_a c) b\<rparr>] else []"
    have cur': "cur < iv_b c" "iv_a c < b" using False by auto
    have first: "cov ?res = {p. cur \<le> p \<and> p < b \<and> p < iv_a c}" using cur' by (auto simp: iv_set_def)
    show ?thesis
    proof (cases "b \<le> iv_b c")
      case True
      then have r: "rs = ?res" "cur' = iv_b c" using "2.prems"(2) False cur' by (auto simp: Let_def)
      have "cov ?res = {p. cur \<le> p \<and> p < b} - (iv_set c \<union> cov cs)"
        unfolding first using later True by (auto simp: iv_set_def)
      moreover have "\<not> cur' < b" using True r(2) by simp
      moreover have "iv_ok ?res" using cur' by (simp add: iv_ok_def)
      moreover have "\<forall>r \<in> set ?res. cur \<le> iv_a r \<and> iv_b r \<le> b \<and> iv_b r \<le> iv_b c"
        using cur' c(1) by (simp add: less_imp_le min.coboundedI1)
      moreover have "cur \<le> iv_b c" using cur' by simp
      ultimately show ?thesis unfolding r by simp
    next
      case rest: False
      obtain rs1 where l: "subtract_loop b cs (iv_b c) = (rs1, cur')" and rs: "rs = ?res @ rs1"
        using "2.prems"(2) False cur' rest by (auto simp: Let_def split: prod.splits)
      have ih: "cov (rs1 @ (if cur' < b then [\<lparr>iv_a = cur', iv_b = b\<rparr>] else [])) = {p. iv_b c \<le> p \<and> p < b} - cov cs"
          "iv_ok rs1" "iv_b c \<le> cur'" "\<forall>r \<in> set rs1. iv_b c \<le> iv_a r \<and> iv_b r \<le> b \<and> iv_b r \<le> cur'"
        using "2.IH"(2) [OF False refl refl _ c(3), of rs1 cur'] l cur' rest by auto
      have "cov (rs @ (if cur' < b then [\<lparr>iv_a = cur', iv_b = b\<rparr>] else [])) = cov ?res \<union> ({p. iv_b c \<le> p \<and> p < b} - cov cs)"
        using ih(1) by (simp add: rs Un_assoc)
      also have "\<dots> = {p. cur \<le> p \<and> p < b} - cov (c # cs)"
        unfolding first using later cur' c(1) by (auto simp: iv_set_def)
      finally show ?thesis
        using ih(2-4) cur' c(1) by (auto simp: rs iv_ok_Cons split: if_splits)
    qed
  qed
qed

lemma subtract_spec:
  assumes "iv_ok cs" and "a < b"
  shows "cov (subtract a b cs) = {p. a \<le> p \<and> p < b} - cov cs" and "iv_ok (subtract a b cs)"
proof -
  obtain rs cur where l: "subtract_loop b cs a = (rs, cur)" by (rule prod.exhaust)
  from subtract_loop_spec [OF assms(1) l assms(2)] l
  show "cov (subtract a b cs) = {p. a \<le> p \<and> p < b} - cov cs" "iv_ok (subtract a b cs)"
    by (auto simp: subtract_def iv_ok_append iv_ok_Cons)
qed

lemma merge_iv_spec:
  assumes "iv_ok (rev ms)" and "sorted (map iv_a cs)" and "\<forall>c \<in> set cs. iv_a c < iv_b c"
    and "ms \<noteq> [] \<Longrightarrow> \<forall>c \<in> set cs. iv_a (hd ms) \<le> iv_a c"
  shows "iv_ok (merge_iv ms cs) \<and> cov (merge_iv ms cs) = cov ms \<union> cov cs"
  using assms
proof (induction ms cs rule: merge_iv.induct)
  case (1 ms)
  then show ?case by (auto simp: cov_def)
next
  case (2 c cs)
  then show ?case by (auto simp: iv_ok_Cons)
next
  case (3 m ms c cs)
  have m: "iv_ok (rev ms)" "\<forall>x \<in> set ms. iv_b x \<le> iv_a m" "iv_a m < iv_b m"
    using "3.prems"(1) by (auto simp: iv_ok_append iv_ok_Cons)
  have mc: "iv_a m \<le> iv_a c" "iv_a c < iv_b c" "\<forall>d \<in> set cs. iv_a c \<le> iv_a d"
    using "3.prems" by auto
  show ?case
  proof (cases "iv_a c \<le> iv_b m")
    case True
    let ?m = "if iv_b m < iv_b c then m\<lparr>iv_b := iv_b c\<rparr> else m"
    have am: "iv_a ?m = iv_a m" "iv_a ?m < iv_b ?m" using m(3) mc by auto
    have "iv_ok (merge_iv (?m # ms) cs) \<and> cov (merge_iv (?m # ms) cs) = cov (?m # ms) \<union> cov cs"
    proof (rule "3.IH"(1) [OF True])
      show "iv_ok (rev (?m # ms))" using m am by (simp add: iv_ok_append iv_ok_Cons)
      show "sorted (map iv_a cs)" "\<forall>c \<in> set cs. iv_a c < iv_b c" using "3.prems" by auto
      show "\<forall>c \<in> set cs. iv_a (hd (?m # ms)) \<le> iv_a c" using mc am(1) by fastforce
    qed
    moreover have "iv_set ?m = iv_set m \<union> iv_set c" using True mc by (auto simp: iv_set_def)
    ultimately show ?thesis using True by auto
  next
    case False
    have "iv_ok (merge_iv (c # m # ms) cs) \<and> cov (merge_iv (c # m # ms) cs) = cov (c # m # ms) \<union> cov cs"
    proof (rule "3.IH"(2) [OF False])
      have "\<forall>x \<in> set ms. iv_b x \<le> iv_a c" using m(2) mc(1) by (meson order_trans)
      then show "iv_ok (rev (c # m # ms))" using m mc(2) False by (auto simp: iv_ok_append iv_ok_Cons)
      show "sorted (map iv_a cs)" "\<forall>c \<in> set cs. iv_a c < iv_b c" using "3.prems" by auto
      show "\<forall>d \<in> set cs. iv_a (hd (c # m # ms)) \<le> iv_a d" using mc by simp
    qed
    then show ?thesis using False by auto
  qed
qed

lemma addCovered_spec:
  assumes "iv_ok cs" and "a < b"
  shows "iv_ok (addCovered cs a b)" and "cov (addCovered cs a b) = cov cs \<union> {p. a \<le> p \<and> p < b}"
proof -
  let ?s = "sort_key iv_a (cs @ [\<lparr>iv_a = a, iv_b = b\<rparr>])"
  have "\<forall>c \<in> set ?s. iv_a c < iv_b c" using assms by (auto simp: iv_ok_def)
  then have "iv_ok (merge_iv [] ?s) \<and> cov (merge_iv [] ?s) = cov [] \<union> cov ?s"
    by (intro merge_iv_spec) auto
  moreover have "cov ?s = cov cs \<union> {p. a \<le> p \<and> p < b}" by (auto simp: cov_def iv_set_def)
  ultimately show "iv_ok (addCovered cs a b)" "cov (addCovered cs a b) = cov cs \<union> {p. a \<le> p \<and> p < b}"
    by (simp_all add: addCovered_def)
qed

lemma add_all_spec:
  assumes "iv_ok cs" and "\<forall>g \<in> set gs. iv_a g < iv_b g"
  shows "iv_ok (add_all gs cs) \<and> cov (add_all gs cs) = cov cs \<union> cov gs"
  using assms
proof (induction gs cs rule: add_all.induct)
  case (1 cs)
  then show ?case by simp
next
  case (2 g gs cs)
  have g: "iv_a g < iv_b g" using "2.prems" by simp
  note a = addCovered_spec [OF "2.prems"(1) g]
  have "iv_set g = {p. iv_a g \<le> p \<and> p < iv_b g}" by (simp add: iv_set_def)
  with a "2.IH" [OF a(1)] "2.prems"(2) show ?case by auto
qed

section \<open>Newest wins\<close>

definition covers :: "SliceRef \<Rightarrow> u32 \<Rightarrow> bool" where
  "covers s p \<longleftrightarrow> uint (rf_pos s) \<le> uint p \<and> uint p < uint (rf_pos s) + uint (sl_len (rf_slice s))"

definition no_wrap :: "SliceRef \<Rightarrow> bool" where
  "no_wrap s \<longleftrightarrow> uint (rf_pos s) + uint (sl_len (rf_slice s)) < 2 ^ 32"

definition source_of :: "SliceRef \<Rightarrow> u32 \<Rightarrow> u64 \<times> u32" where
  "source_of s p = (sl_id (rf_slice s), sl_off (rf_slice s) + (p - rf_pos s))"

text \<open>What byte \<open>p\<close> of a chunk is: the last written slice that covers it, or a hole.\<close>

definition newest :: "SliceRef list \<Rightarrow> u32 \<Rightarrow> (u64 \<times> u32) option" where
  "newest slices p = map_option (\<lambda>s. source_of s p) (find (\<lambda>s. covers s p) (rev slices))"

lemma covers_iff:
  assumes "no_wrap s"
  shows "covers s p \<longleftrightarrow> rf_pos s \<le> p \<and> p < rf_pos s + sl_len (rf_slice s)"
proof -
  have "uint (rf_pos s + sl_len (rf_slice s)) = uint (rf_pos s) + uint (sl_len (rf_slice s))"
    using assms by (intro uint_add_nowrap) (simp add: no_wrap_def)
  then show ?thesis by (simp add: covers_def word_le_def word_less_def)
qed

definition seg_set :: "seg \<Rightarrow> u32 set" where
  "seg_set g = {p. sg_start g \<le> p \<and> p < sg_end g}"

definition seg_shows :: "seg \<Rightarrow> u32 \<Rightarrow> u64 \<times> u32 \<Rightarrow> bool" where
  "seg_shows g p x \<longleftrightarrow> x = (sg_id g, sg_srcOff g + (p - sg_start g))"

lemma seg_of_simps [simp]:
  "seg_set (seg_of s g) = iv_set g" "seg_shows (seg_of s g) p x \<longleftrightarrow> x = source_of s p"
  by (auto simp: seg_set_def seg_of_def iv_set_def seg_shows_def source_of_def algebra_simps)

text \<open>Segments that are not empty and do not overlap.\<close>

definition segs_disjoint :: "seg list \<Rightarrow> bool" where
  "segs_disjoint gs \<longleftrightarrow> distinct gs \<and> (\<forall>g \<in> set gs. sg_start g < sg_end g) \<and>
     (\<forall>g \<in> set gs. \<forall>h \<in> set gs. g \<noteq> h \<longrightarrow> seg_set g \<inter> seg_set h = {})"

lemma segs_disjoint_append:
  assumes "segs_disjoint gs" and "segs_disjoint hs"
    and "\<Union>(seg_set ` set gs) \<inter> \<Union>(seg_set ` set hs) = {}"
  shows "segs_disjoint (gs @ hs)"
proof -
  have ne: "seg_set g \<noteq> {}" if "g \<in> set gs \<union> set hs" for g
    using that assms(1,2) by (force simp: segs_disjoint_def seg_set_def)
  have x: "seg_set g \<inter> seg_set h = {}" if "g \<in> set gs" "h \<in> set hs" for g h
    using that assms(3) by blast
  have "set gs \<inter> set hs = {}" using x ne by fastforce
  then have "distinct (gs @ hs)" and "\<forall>g \<in> set (gs @ hs). sg_start g < sg_end g"
    using assms(1,2) by (auto simp: segs_disjoint_def)
  moreover have "seg_set g \<inter> seg_set h = {}" if "g \<in> set (gs @ hs)" "h \<in> set (gs @ hs)" "g \<noteq> h" for g h
  proof -
    have "g \<in> set gs \<Longrightarrow> h \<in> set gs \<Longrightarrow> ?thesis" "g \<in> set hs \<Longrightarrow> h \<in> set hs \<Longrightarrow> ?thesis"
      using assms(1,2) that(3) unfolding segs_disjoint_def by blast+
    moreover have "g \<in> set hs \<Longrightarrow> h \<in> set gs \<Longrightarrow> ?thesis" using x [of h g] by blast
    ultimately show ?thesis using that(1,2) x by auto
  qed
  ultimately show ?thesis unfolding segs_disjoint_def by blast
qed

lemma segs_disjoint_of_iv:
  assumes "iv_ok gs" and "\<And>g. sg_start (f g) = iv_a g \<and> sg_end (f g) = iv_b g"
  shows "segs_disjoint (map f gs)" and "\<Union>(seg_set ` set (map f gs)) = cov gs"
proof -
  have set: "seg_set (f g) = iv_set g" for g using assms(2) by (simp add: seg_set_def iv_set_def)
  then show "\<Union>(seg_set ` set (map f gs)) = cov gs" by (simp add: cov_def)
  show "segs_disjoint (map f gs)"
    using assms(1)
  proof (induction gs)
    case Nil
    then show ?case by (simp add: segs_disjoint_def)
  next
    case (Cons g gs)
    have "segs_disjoint [f g]" using Cons.prems assms(2) by (simp add: segs_disjoint_def iv_ok_Cons)
    moreover have "segs_disjoint (map f gs)" using Cons by (simp add: iv_ok_Cons)
    moreover have "iv_set g \<inter> iv_set h = {}" if "h \<in> set gs" for h
      using Cons.prems that by (fastforce simp: iv_ok_Cons iv_set_def)
    ultimately show ?case using segs_disjoint_append [of "[f g]" "map f gs"] by (force simp: set)
  qed
qed

lemma segs_disjoint_sorted:
  assumes "segs_disjoint gs" and "sorted (map sg_start gs)"
  shows "sorted_wrt (\<lambda>g h. sg_end g \<le> sg_start h) gs"
  using assms
proof (induction gs)
  case Nil
  then show ?case by simp
next
  case (Cons g gs)
  have "sg_end g \<le> sg_start h" if h: "h \<in> set gs" for h
  proof (rule ccontr)
    assume "\<not> sg_end g \<le> sg_start h"
    then have "sg_start h \<in> seg_set g \<inter> seg_set h"
      using Cons.prems h by (auto simp: segs_disjoint_def seg_set_def)
    moreover have "g \<noteq> h" using Cons.prems h by (auto simp: segs_disjoint_def)
    ultimately show False using Cons.prems(1) h by (auto simp: segs_disjoint_def)
  qed
  moreover have "segs_disjoint gs" using Cons.prems(1) by (auto simp: segs_disjoint_def)
  ultimately show ?case using Cons by simp
qed

definition first_of :: "SliceRef list \<Rightarrow> u32 \<Rightarrow> (u64 \<times> u32) option" where
  "first_of P p = map_option (\<lambda>s. source_of s p) (find (\<lambda>s. covers s p) P)"

lemma first_of_append:
  "first_of (P @ [s]) p = (case first_of P p of None \<Rightarrow> if covers s p then Some (source_of s p) else None | x \<Rightarrow> x)"
  by (induction P) (auto simp: first_of_def)

definition ov_inv :: "SliceRef list \<Rightarrow> u32 \<Rightarrow> u32 \<Rightarrow> iv list \<Rightarrow> seg list \<Rightarrow> bool" where
  "ov_inv P lo hi covered out \<longleftrightarrow> iv_ok covered \<and>
     cov covered = {p. lo \<le> p \<and> p < hi \<and> first_of P p \<noteq> None} \<and>
     segs_disjoint out \<and> \<Union>(seg_set ` set out) = cov covered \<and>
     (\<forall>g \<in> set out. \<forall>p \<in> seg_set g. \<exists>x. first_of P p = Some x \<and> seg_shows g p x)"

lemma overlay_inv:
  assumes "ov_inv P lo hi covered out" and "\<forall>s \<in> set ss. no_wrap s"
    and "overlay ss lo hi covered out = (covered', out')"
  shows "ov_inv (P @ ss) lo hi covered' out'"
  using assms
proof (induction ss arbitrary: P covered out)
  case Nil
  then show ?case by simp
next
  case (Cons s ss)
  define a where "a = (if rf_pos s < lo then lo else rf_pos s)"
  define b where "b = (if hi < rf_pos s + sl_len (rf_slice s) then hi else rf_pos s + sl_len (rf_slice s))"
  have "no_wrap s" using Cons.prems(2) by simp
  then have win: "{p. a \<le> p \<and> p < b} = {p. lo \<le> p \<and> p < hi \<and> covers s p}"
    by (auto simp: covers_iff a_def b_def split: if_splits)
  have inv: "iv_ok covered" "cov covered = {p. lo \<le> p \<and> p < hi \<and> first_of P p \<noteq> None}"
      "segs_disjoint out" "\<Union>(seg_set ` set out) = cov covered"
      "\<And>g p. g \<in> set out \<Longrightarrow> p \<in> seg_set g \<Longrightarrow> \<exists>x. first_of P p = Some x \<and> seg_shows g p x"
    using Cons.prems(1) by (auto simp: ov_inv_def)
  show ?case
  proof (cases "b \<le> a")
    case True
    have "{p. a \<le> p \<and> p < b} = {}" using True by auto
    then have no: "\<not> covers s p" if "lo \<le> p" "p < hi" for p using win that by auto
    have same: "first_of (P @ [s]) p = first_of P p" if "lo \<le> p" "p < hi" for p
      using no [OF that] by (simp add: first_of_append split: option.splits)
    have "ov_inv (P @ [s]) lo hi covered out"
      unfolding ov_inv_def
    proof (intro conjI ballI)
      show "cov covered = {p. lo \<le> p \<and> p < hi \<and> first_of (P @ [s]) p \<noteq> None}" using inv(2) same by auto
    next
      fix g p assume g: "g \<in> set out" "p \<in> seg_set g"
      then have "p \<in> cov covered" using inv(4) by auto
      then have "lo \<le> p" "p < hi" using inv(2) by auto
      then show "\<exists>x. first_of (P @ [s]) p = Some x \<and> seg_shows g p x" using inv(5) [OF g] same by simp
    qed (use inv in simp_all)
    moreover have "overlay ss lo hi covered out = (covered', out')"
      using Cons.prems(3) True by (simp add: a_def b_def Let_def)
    ultimately show ?thesis using Cons.IH [of "P @ [s]"] Cons.prems(2) by simp
  next
    case False
    let ?gs = "subtract a b covered"
    have ab: "a < b" using False by simp
    note sub = subtract_spec [OF inv(1) ab]
    have gne: "\<forall>g \<in> set ?gs. iv_a g < iv_b g" using sub(2) by (simp add: iv_ok_def)
    note add = add_all_spec [OF inv(1) gne]
    note new = segs_disjoint_of_iv [OF sub(2), of "seg_of s"]
    have newset: "cov ?gs = {p. lo \<le> p \<and> p < hi \<and> covers s p \<and> first_of P p = None}"
      unfolding sub(1) win inv(2) set_eq_iff by (simp only: Diff_iff mem_Collect_eq) metis
    have "ov_inv (P @ [s]) lo hi (add_all ?gs covered) (out @ map (seg_of s) ?gs)"
      unfolding ov_inv_def
    proof (intro conjI ballI)
      show "iv_ok (add_all ?gs covered)" using add by simp
      show "cov (add_all ?gs covered) = {p. lo \<le> p \<and> p < hi \<and> first_of (P @ [s]) p \<noteq> None}"
        using add newset inv(2) by (auto simp: first_of_append split: option.splits if_splits)
      show "segs_disjoint (out @ map (seg_of s) ?gs)"
        using inv(3,4) new sub(1) by (intro segs_disjoint_append) (auto simp: seg_of_def)
      show "\<Union>(seg_set ` set (out @ map (seg_of s) ?gs)) = cov (add_all ?gs covered)"
        using inv(4) add by (auto simp: cov_def)
    next
      fix g p assume "g \<in> set (out @ map (seg_of s) ?gs)" "p \<in> seg_set g"
      then consider "g \<in> set out" "p \<in> seg_set g" | h where "h \<in> set ?gs" "g = seg_of s h" "p \<in> iv_set h" by auto
      then show "\<exists>x. first_of (P @ [s]) p = Some x \<and> seg_shows g p x"
      proof cases
        case 1
        from inv(5) [OF this] show ?thesis by (auto simp: first_of_append)
      next
        case 2
        then have "p \<in> cov ?gs" by (auto simp: cov_def)
        then show ?thesis using newset 2(2) by (simp add: first_of_append)
      qed
    qed
    moreover have "overlay ss lo hi (add_all ?gs covered) (out @ map (seg_of s) ?gs) = (covered', out')"
      using Cons.prems(3) False by (simp add: a_def b_def Let_def)
    ultimately show ?thesis using Cons.IH [of "P @ [s]"] Cons.prems(2) by simp
  qed
qed

lemma first_of_newest: "first_of (rev slices) p = newest slices p"
  by (simp add: first_of_def newest_def)

lemma resolve_parts:
  assumes nw: "\<forall>s \<in> set slices. no_wrap s" and lh: "lo < hi"
  shows "segs_disjoint (resolve slices lo hi)" and "\<Union>(seg_set ` set (resolve slices lo hi)) = {p. lo \<le> p \<and> p < hi}"
    and "g \<in> set (resolve slices lo hi) \<Longrightarrow> p \<in> seg_set g \<Longrightarrow>
      (case newest slices p of None \<Rightarrow> sg_id g = 0 | Some x \<Rightarrow> seg_shows g p x)"
proof -
  obtain covered out where ov: "overlay (rev slices) lo hi [] [] = (covered, out)" by (rule prod.exhaust)
  have "ov_inv [] lo hi [] []" by (simp add: ov_inv_def segs_disjoint_def first_of_def)
  from overlay_inv [OF this _ ov] nw have "ov_inv (rev slices) lo hi covered out" by simp
  then have inv: "iv_ok covered" "cov covered = {p. lo \<le> p \<and> p < hi \<and> newest slices p \<noteq> None}"
      "segs_disjoint out" "\<Union>(seg_set ` set out) = cov covered"
      "\<And>g p. g \<in> set out \<Longrightarrow> p \<in> seg_set g \<Longrightarrow> \<exists>x. newest slices p = Some x \<and> seg_shows g p x"
    by (auto simp: ov_inv_def first_of_newest)
  let ?gs = "subtract lo hi covered"
  note sub = subtract_spec [OF inv(1) lh]
  have res: "resolve slices lo hi = sort_key sg_start (out @ map hole ?gs)"
    using lh by (simp add: resolve_def ov not_le [symmetric])
  note new = segs_disjoint_of_iv [OF sub(2), of hole]
  have hs: "\<Union>(seg_set ` set (map hole ?gs)) = cov ?gs" using new(2) by (simp add: hole_def)
  have "segs_disjoint (out @ map hole ?gs)"
    using inv(3,4) new(1) hs sub(1) by (intro segs_disjoint_append) (auto simp: hole_def)
  then show "segs_disjoint (resolve slices lo hi)" by (simp add: res segs_disjoint_def)
  show "\<Union>(seg_set ` set (resolve slices lo hi)) = {p. lo \<le> p \<and> p < hi}"
    using inv(2,4) sub(1) hs by (auto simp: res)
  assume g: "g \<in> set (resolve slices lo hi)" "p \<in> seg_set g"
  then consider "g \<in> set out" | h where "h \<in> set ?gs" "g = hole h" by (auto simp: res)
  then show "case newest slices p of None \<Rightarrow> sg_id g = 0 | Some x \<Rightarrow> seg_shows g p x"
  proof cases
    case 1
    with inv(5) [OF _ g(2)] show ?thesis by auto
  next
    case 2
    then have "p \<in> cov ?gs" using g(2) by (auto simp: cov_def hole_def seg_set_def iv_set_def)
    then have "newest slices p = None" using sub(1) inv(2) by auto
    with 2(2) show ?thesis by (simp add: hole_def)
  qed
qed

section \<open>Properties\<close>

text \<open>C5: Overlay resolution is newest-wins.  For a window [lo, hi) of a chunk, the segments come out ordered
  and non-overlapping, together they are exactly the window, and every byte of a segment comes from the
  last written slice that covers it, at the right source offset, or is a hole when no slice does.\<close>

theorem resolve_newest_wins:
  assumes "\<forall>s \<in> set slices. no_wrap s" and "lo < hi"
  shows "sorted_wrt (\<lambda>g h. sg_end g \<le> sg_start h) (resolve slices lo hi) \<and>
    \<Union>(seg_set ` set (resolve slices lo hi)) = {p. lo \<le> p \<and> p < hi} \<and>
    (\<forall>g \<in> set (resolve slices lo hi). \<forall>p \<in> seg_set g.
       case newest slices p of None \<Rightarrow> sg_id g = 0 | Some x \<Rightarrow> seg_shows g p x)"
proof -
  have "sorted (map sg_start (resolve slices lo hi))" using assms(2) by (simp add: resolve_def split: prod.splits)
  with resolve_parts [OF assms] show ?thesis using segs_disjoint_sorted by blast
qed

definition demo_ref :: "u32 \<Rightarrow> u64 \<Rightarrow> u32 \<Rightarrow> SliceRef" where
  "demo_ref pos i len = \<lparr>rf_pos = pos, rf_slice = \<lparr>sl_id = i, sl_size = len, sl_off = 0, sl_len = len\<rparr>\<rparr>"

theorem resolve_newest_wins_witness:
  "resolve [demo_ref 0 7 10, demo_ref 4 8 2] 0 12 =
     [\<lparr>sg_start = 0, sg_end = 4, sg_id = 7, sg_srcOff = 0\<rparr>, \<lparr>sg_start = 4, sg_end = 6, sg_id = 8, sg_srcOff = 0\<rparr>,
      \<lparr>sg_start = 6, sg_end = 10, sg_id = 7, sg_srcOff = 6\<rparr>, \<lparr>sg_start = 10, sg_end = 12, sg_id = 0, sg_srcOff = 0\<rparr>] \<and>
   \<Union>(seg_set ` set (resolve [demo_ref 0 7 10, demo_ref 4 8 2] 0 12)) = {p. 0 \<le> p \<and> p < 12}"
proof
  show "resolve [demo_ref 0 7 10, demo_ref 4 8 2] 0 12 =
     [\<lparr>sg_start = 0, sg_end = 4, sg_id = 7, sg_srcOff = 0\<rparr>, \<lparr>sg_start = 4, sg_end = 6, sg_id = 8, sg_srcOff = 0\<rparr>,
      \<lparr>sg_start = 6, sg_end = 10, sg_id = 7, sg_srcOff = 6\<rparr>, \<lparr>sg_start = 10, sg_end = 12, sg_id = 0, sg_srcOff = 0\<rparr>]"
    by code_simp
  show "\<Union>(seg_set ` set (resolve [demo_ref 0 7 10, demo_ref 4 8 2] 0 12)) = {p. 0 \<le> p \<and> p < 12}"
    using resolve_newest_wins [of "[demo_ref 0 7 10, demo_ref 4 8 2]" 0 12] by (simp add: no_wrap_def demo_ref_def)
qed

end
