(* ===== verification/Slice_Props.thy ===== *)
theory Slice_Props
  imports Overlay
begin

text \<open>
  What the slice table means for the bytes of a file, and what the slice operations do to it.

  \<open>row_src i o rows\<close> is the source of byte \<open>o\<close> of file \<open>i\<close>: slice id and offset in the slice of the last row that
  covers it.  The invariant \<open>slices_ok\<close> holds the key and range properties of the table; under it the
  overlay that a read performs (\<open>newest\<close> on the rows of one chunk) is \<open>row_src\<close>.
\<close>

section \<open>The source of a byte\<close>

definition row_covers :: "Ino \<Rightarrow> int \<Rightarrow> slice_row \<Rightarrow> bool" where
  "row_covers i o' r \<longleftrightarrow> sr_inode r = i \<and> row_start r \<le> o' \<and> o' < row_start r + sr_slen r"

fun row_src :: "Ino \<Rightarrow> int \<Rightarrow> slice_row list \<Rightarrow> (u64 \<times> int) option" where
  "row_src i o' [] = None"
| "row_src i o' (r # rs) = (case row_src i o' rs of
      Some x \<Rightarrow> Some x
    | None \<Rightarrow> if row_covers i o' r then Some (sr_slice_id r, sr_soff r + (o' - row_start r)) else None)"

definition file_src :: "db \<Rightarrow> Ino \<Rightarrow> int \<Rightarrow> (u64 \<times> int) option" where
  "file_src db i o' = row_src i o' (t_slice_ref db)"

definition row_ok :: "slice_row \<Rightarrow> bool" where
  "row_ok r \<longleftrightarrow> 0 \<le> sr_indx r \<and> sr_indx r < 2 ^ 31 \<and> 0 \<le> sr_pos r \<and> 0 \<le> sr_slen r \<and>
     sr_pos r + sr_slen r \<le> ChunkSize \<and> 0 \<le> sr_soff r \<and> sr_soff r + sr_slen r \<le> sr_size r \<and> sr_size r < 2 ^ 31"

definition slices_ok :: "db \<Rightarrow> bool" where
  "slices_ok db \<longleftrightarrow> distinct (map slice_key (t_slice_ref db)) \<and> sorted_wrt (<) (map sr_id (t_slice_ref db)) \<and>
     (\<forall>r \<in> set (t_slice_ref db). sr_id r < q_slice_ref db \<and> row_ok r)"

lemma row_src_append:
  "row_src i o' (xs @ ys) = (case row_src i o' ys of Some x \<Rightarrow> Some x | None \<Rightarrow> row_src i o' xs)"
  by (induction xs) (auto split: option.splits)

lemma row_src_None: "row_src i o' rows = None \<longleftrightarrow> (\<forall>r \<in> set rows. \<not> row_covers i o' r)"
  by (induction rows) (auto split: option.splits)

lemma row_src_Some_in:
  "row_src i o' rows = Some (id', k) \<Longrightarrow>
   \<exists>r \<in> set rows. row_covers i o' r \<and> id' = sr_slice_id r \<and> k = sr_soff r + (o' - row_start r)"
  by (induction rows) (auto split: option.splits if_splits)

lemma row_src_filter:
  "(\<And>r. r \<in> set rows \<Longrightarrow> row_covers i o' r \<Longrightarrow> P r) \<Longrightarrow> row_src i o' (filter P rows) = row_src i o' rows"
  by (induction rows) (auto split: option.splits)

section \<open>Overlay of one chunk\<close>

lemma newest_simps:
  "newest [] p = None"
  "newest (s # ss) p = (case newest ss p of Some x \<Rightarrow> Some x | None \<Rightarrow> if covers s p then Some (source_of s p) else None)"
proof -
  show "newest [] p = None" by (simp add: newest_def)
  show "newest (s # ss) p = (case newest ss p of Some x \<Rightarrow> Some x | None \<Rightarrow> if covers s p then Some (source_of s p) else None)"
    using first_of_append [of "rev ss" s p] by (simp add: first_of_newest [symmetric] split: option.splits)
qed

lemma sort_key_sorted: "sorted (map f xs) \<Longrightarrow> sort_key f xs = xs"
  by (rule sort_key_id_if_sorted)

lemma chunk_rows_ok:
  assumes "slices_ok db"
  shows "chunk_rows i indx db = filter (\<lambda>r. sr_inode r = i \<and> sr_indx r = indx) (t_slice_ref db)"
proof -
  have "sorted (map sr_id (t_slice_ref db))"
    using assms by (auto simp: slices_ok_def intro: strict_sorted_imp_sorted)
  then have "sorted (map sr_id (filter (\<lambda>r. sr_inode r = i \<and> sr_indx r = indx) (t_slice_ref db)))"
    by (rule sorted_filter)
  then show ?thesis by (simp add: chunk_rows_def sort_key_sorted)
qed

lemma row_ok_ref:
  assumes "row_ok r"
  shows "uint (rf_pos (row_ref r)) = sr_pos r" "uint (sl_len (rf_slice (row_ref r))) = sr_slen r"
    "uint (sl_off (rf_slice (row_ref r))) = sr_soff r" "no_wrap (row_ref r)"
proof -
  have "0 \<le> sr_pos r" "sr_pos r < 2 ^ 32" "0 \<le> sr_slen r" "sr_slen r < 2 ^ 32" "0 \<le> sr_soff r" "sr_soff r < 2 ^ 32"
    using assms by (auto simp: row_ok_def ChunkSize_def)
  then show v: "uint (rf_pos (row_ref r)) = sr_pos r" "uint (sl_len (rf_slice (row_ref r))) = sr_slen r"
    "uint (sl_off (rf_slice (row_ref r))) = sr_soff r"
    by (simp_all add: row_ref_def row_slice_def uint_word_of_int_32)
  show "no_wrap (row_ref r)"
    using assms unfolding no_wrap_def v by (simp add: row_ok_def ChunkSize_def)
qed

lemma covers_row:
  assumes "row_ok r" and "0 \<le> o'" and "sr_inode r = i"
  shows "row_covers i o' r \<longleftrightarrow> sr_indx r = o' div ChunkSize \<and> covers (row_ref r) (word_of_int (o' mod ChunkSize))"
proof -
  have m: "0 \<le> o' mod ChunkSize" "o' mod ChunkSize < ChunkSize" by simp_all
  then have p: "uint (word_of_int (o' mod ChunkSize) :: u32) = o' mod ChunkSize"
    by (intro uint_word_of_int_32) (auto simp: ChunkSize_def)

  have r: "0 \<le> sr_pos r" "0 \<le> sr_slen r" "sr_pos r + sr_slen r \<le> ChunkSize" using assms(1) by (auto simp: row_ok_def)
  have "row_covers i o' r \<Longrightarrow> sr_indx r = o' div ChunkSize"
  proof -
    assume "row_covers i o' r"
    then have "sr_indx r * ChunkSize \<le> o'" "o' < sr_indx r * ChunkSize + ChunkSize"
      using r by (auto simp: row_covers_def row_start_def)
    then have "o' div ChunkSize = sr_indx r"
      by (intro int_div_pos_eq [where r = "o' - sr_indx r * ChunkSize"]) (auto simp: algebra_simps)
    then show ?thesis by simp
  qed
  moreover have "sr_indx r = o' div ChunkSize \<Longrightarrow>
      row_covers i o' r \<longleftrightarrow> covers (row_ref r) (word_of_int (o' mod ChunkSize))"
  proof -
    assume "sr_indx r = o' div ChunkSize"
    then have "row_start r = o' - o' mod ChunkSize + sr_pos r" by (simp add: row_start_def minus_mod_eq_div_mult)
    then show "row_covers i o' r \<longleftrightarrow> covers (row_ref r) (word_of_int (o' mod ChunkSize))"
      using assms(3) by (auto simp: row_covers_def covers_def p row_ok_ref [OF assms(1)])
  qed
  ultimately show ?thesis by blast
qed

text \<open>What a read resolves for a byte is the source \<open>row_src\<close> of that byte.\<close>

lemma newest_file_src:
  assumes ok: "slices_ok db" and o': "0 \<le> o'"
  shows "newest (map row_ref (chunk_rows i (o' div ChunkSize) db)) (word_of_int (o' mod ChunkSize)) =
    map_option (\<lambda>(d, k). (d, word_of_int k)) (file_src db i o')"
proof -
  let ?p = "word_of_int (o' mod ChunkSize) :: u32"
  let ?P = "\<lambda>r. sr_inode r = i \<and> sr_indx r = o' div ChunkSize"
  have src: "source_of (row_ref r) ?p = (sr_slice_id r, word_of_int (sr_soff r + (o' - row_start r)))"
    if "sr_indx r = o' div ChunkSize" for r
  proof -
    have "row_start r = o' - o' mod ChunkSize + sr_pos r"
      using that by (simp add: row_start_def minus_mod_eq_div_mult)
    then show ?thesis by (simp add: source_of_def row_ref_def row_slice_def)
  qed
  have "newest (map row_ref (filter ?P rows)) ?p = map_option (\<lambda>(d, k). (d, word_of_int k)) (row_src i o' rows)"
    if "\<forall>r \<in> set rows. row_ok r" for rows
    using that
  proof (induction rows)
    case Nil
    then show ?case by (simp add: newest_simps)
  next
    case (Cons r rows)
    have r: "sr_inode r = i \<Longrightarrow> row_covers i o' r \<longleftrightarrow> sr_indx r = o' div ChunkSize \<and> covers (row_ref r) ?p"
      using covers_row [OF _ o'] Cons.prems by simp
    have nr: "row_covers i o' r \<Longrightarrow> sr_inode r = i" by (simp add: row_covers_def)
    show ?case
    proof (cases "?P r")
      case True
      with Cons r src [of r] show ?thesis by (auto simp: newest_simps split: option.splits)
    next
      case False
      with Cons r nr show ?thesis by (auto split: option.splits)
    qed
  qed
  with ok show ?thesis by (simp add: chunk_rows_ok [OF ok] file_src_def slices_ok_def)
qed

section \<open>Inserting rows\<close>

lemma ins_slices_one:
  "ins_slices [r] db = (case sel slice_key (slice_key r) (t_slice_ref db) of
     Some _ \<Rightarrow> db
   | None \<Rightarrow> db\<lparr>t_slice_ref := t_slice_ref db @ [r\<lparr>sr_id := q_slice_ref db\<rparr>], q_slice_ref := Suc (q_slice_ref db)\<rparr>)"
  by (simp split: option.splits)

lemma ins_slices_ok:
  assumes "slices_ok db" and "\<forall>r \<in> set rs. row_ok r"
  shows "slices_ok (ins_slices rs db)"
  using assms
proof (induction rs db rule: ins_slices.induct)
  case (1 db)
  then show ?case by simp
next
  case (2 r rs db)
  show ?case
  proof (cases "sel slice_key (slice_key r) (t_slice_ref db)")
    case None
    let ?db = "db\<lparr>t_slice_ref := t_slice_ref db @ [r\<lparr>sr_id := q_slice_ref db\<rparr>], q_slice_ref := Suc (q_slice_ref db)\<rparr>"
    have "row_ok (r\<lparr>sr_id := q_slice_ref db\<rparr>)" using "2.prems"(2) by (simp add: row_ok_def row_start_def)
    then have "slices_ok ?db"
      using "2.prems"(1) None
      by (auto simp: slices_ok_def sel_None_iff sorted_wrt_append less_Suc_eq)
    then show ?thesis using "2.IH"(1) [OF None] "2.prems"(2) None by simp
  next
    case (Some x)
    then show ?thesis using "2.IH"(2) [OF Some] "2.prems" by simp
  qed
qed

lemma file_src_ins_one:
  assumes "sel slice_key (slice_key r) (t_slice_ref db) = None"
  shows "file_src (ins_slices [r] db) i o' =
    (if row_covers i o' r then Some (sr_slice_id r, sr_soff r + (o' - row_start r)) else file_src db i o')"
  using assms by (simp add: file_src_def row_src_append row_covers_def row_start_def)

section \<open>Write\<close>

text \<open>What the data path passes to \<open>Write\<close>: the slice lies within one chunk and within its source.\<close>

definition write_arg_ok :: "u32 \<Rightarrow> u32 \<Rightarrow> Slice \<Rightarrow> bool" where
  "write_arg_ok indx off sl \<longleftrightarrow> uint indx < 2 ^ 31 \<and> uint off + uint (sl_len sl) \<le> ChunkSize \<and>
     uint (sl_off sl) + uint (sl_len sl) \<le> uint (sl_size sl) \<and> uint (sl_size sl) < 2 ^ 31"

lemma write_row_ok: "write_arg_ok indx off sl \<Longrightarrow> row_ok (slice_row_of i indx off sl)"
  by (simp add: write_arg_ok_def row_ok_def slice_row_of_def)

lemma row_ok_fits: "row_ok r \<Longrightarrow> slice_fits r"
  unfolding row_ok_def slice_fits_def int4_def ChunkSize_def by auto

lemmas write_row_fits = row_ok_fits [OF write_row_ok]

lemma Write_tx_mono: "fault_mono (Write_tx i indx off sl now)"
  unfolding Write_tx_def Let_def by (intro fault_intros)

text \<open>The byte range of a write, and the length it leads to.\<close>

abbreviation write_start :: "u32 \<Rightarrow> u32 \<Rightarrow> int" where
  "write_start indx off \<equiv> uint indx * ChunkSize + uint off"

lemma newLen_eq:
  assumes "write_arg_ok indx off sl"
  shows "uint (newLen indx off sl) = write_start indx off + uint (sl_len sl)"
proof -
  let ?v = "write_start indx off + uint (sl_len sl)"
  have b: "0 \<le> ?v" "?v < 2 ^ 64"
    using assms uint_lt2p [of indx] by (auto simp: write_arg_ok_def ChunkSize_def)
  have "newLen indx off sl = word_of_int ?v"
    unfolding newLen_def ucast_eq by (simp only: of_int_add of_int_mult)
  then show ?thesis using uint_word_of_int_64 [OF b] by simp
qed

lemma Write_tx_commit:
  assumes run: "Write_tx i indx off sl now [] db = (Inr (x, db'), [])" and arg: "write_arg_ok indx off sl"
  shows "\<exists>r. sel_node db i = Some r \<and> n_type r = TypeFile \<and>
    (let row = slice_row_of i indx off sl in
     if sel slice_key (slice_key row) (t_slice_ref db) \<noteq> None then db' = db
     else db' = appendChangelog now i OpWrite (PWrite indx off (sl_len sl))
        (upd_node i (set_length (sint (max (word_of_int (n_length r)) (newLen indx off sl))) (unix_s now) (unix_ns now))
          (ins_slices [row] db)))"
proof -
  obtain r where r: "sel_node db i = Some r" "n_type r = TypeFile"
    using run by (auto simp: Write_tx_def Let_def tx_simps getAttr_def split: option.splits if_splits)
  have m: "(if word_of_int (n_length r) < newLen indx off sl then newLen indx off sl else a_length (scanAttr r)) =
      max (word_of_int (n_length r)) (newLen indx off sl)" by (auto simp: max_def)
  show ?thesis
  proof (cases "sel slice_key (slice_key (slice_row_of i indx off sl)) (t_slice_ref db)")
    case None
    with run r write_row_fits [OF arg, of i] show ?thesis
      by (intro exI [of _ r]) (simp add: Write_tx_def Let_def tx_simps getAttr_def ins_slice_new_def m del: ins_slices.simps)
  next
    case (Some y)
    with run r write_row_fits [OF arg, of i] show ?thesis
      by (intro exI [of _ r]) (simp add: Write_tx_def Let_def tx_simps getAttr_def ins_slice_new_def)
  qed
qed

lemma t_slice_frame [simp]:
  "t_slice_ref (upd_node i f db) = t_slice_ref db" "q_slice_ref (upd_node i f db) = q_slice_ref db"
  "t_slice_ref (appendChangelog n i op p db) = t_slice_ref db" "q_slice_ref (appendChangelog n i op p db) = q_slice_ref db"
  by (simp_all add: stmt_defs)

lemma slices_ok_frame [simp]:
  "slices_ok (upd_node i f db) = slices_ok db" "slices_ok (appendChangelog n i op p db) = slices_ok db"
  by (simp_all add: slices_ok_def)

lemma file_src_frame [simp]:
  "file_src (upd_node i f db) = file_src db" "file_src (appendChangelog n i op p db) = file_src db"
  by (simp_all add: file_src_def fun_eq_iff)

lemma Write_tx_slices_ok:
  assumes "slices_ok db" and "write_arg_ok indx off sl" and "Write_tx i indx off sl now [] db = (Inr (x, db'), [])"
  shows "slices_ok db'"
  using Write_tx_commit [OF assms(3,2)] assms(1) ins_slices_ok [OF assms(1), of "[slice_row_of i indx off sl]"]
    write_row_ok [OF assms(2)]
  by (auto simp: Let_def split: if_splits)

definition file_len :: "db \<Rightarrow> Ino \<Rightarrow> int" where
  "file_len db i = (case sel_node db i of None \<Rightarrow> 0 | Some r \<Rightarrow> n_length r)"

lemma row_covers_write:
  "row_covers j o' (slice_row_of i indx off sl) \<longleftrightarrow>
   j = i \<and> write_start indx off \<le> o' \<and> o' < write_start indx off + uint (sl_len sl)"
  by (auto simp: row_covers_def slice_row_of_def row_start_def)

lemma Write_tx_effect:
  assumes run: "Write_tx i indx off sl now [] db = (Inr (x, db'), [])" and arg: "write_arg_ok indx off sl"
    and fresh: "sel slice_key (i, sl_id sl) (t_slice_ref db) = None"
    and len: "0 \<le> file_len db i" "file_len db i < 2 ^ 63"
  shows "file_src db' j o' = (if j = i \<and> write_start indx off \<le> o' \<and> o' < write_start indx off + uint (sl_len sl)
      then Some (sl_id sl, uint (sl_off sl) + (o' - write_start indx off)) else file_src db j o')"
    and "file_len db' j = (if j = i then max (file_len db i) (write_start indx off + uint (sl_len sl)) else file_len db j)"
proof -
  let ?row = "slice_row_of i indx off sl"
  have key: "slice_key ?row = (i, sl_id sl)" by (simp add: slice_row_of_def)
  from Write_tx_commit [OF run arg] fresh obtain r where r: "sel_node db i = Some r"
    and db': "db' = appendChangelog now i OpWrite (PWrite indx off (sl_len sl))
        (upd_node i (set_length (sint (max (word_of_int (n_length r)) (newLen indx off sl))) (unix_s now) (unix_ns now))
          (ins_slices [?row] db))"
    unfolding key Let_def by auto
  have none: "sel slice_key (slice_key ?row) (t_slice_ref db) = None" using fresh by (simp add: key)
  show "file_src db' j o' = (if j = i \<and> write_start indx off \<le> o' \<and> o' < write_start indx off + uint (sl_len sl)
      then Some (sl_id sl, uint (sl_off sl) + (o' - write_start indx off)) else file_src db j o')"
    unfolding db' file_src_frame file_src_ins_one [OF none] row_covers_write
    by (simp add: slice_row_of_def row_start_def)
  have n: "uint (word_of_int (n_length r) :: u64) = n_length r"
    using len r by (intro uint_word_of_int_64) (auto simp: file_len_def)
  have b: "write_start indx off + uint (sl_len sl) < 2 ^ 63" "0 \<le> write_start indx off + uint (sl_len sl)"
    using arg by (auto simp: write_arg_ok_def ChunkSize_def)
  have mx: "sint (max (word_of_int (n_length r)) (newLen indx off sl)) =
      max (n_length r) (write_start indx off + uint (sl_len sl))"
  proof -
    have u: "uint (max (word_of_int (n_length r)) (newLen indx off sl)) =
        max (n_length r) (write_start indx off + uint (sl_len sl))"
      unfolding newLen_eq [OF arg, symmetric] by (simp add: max_def word_le_def n)
    have "max (n_length r) (write_start indx off + uint (sl_len sl)) < 2 ^ 63"
      using b len r by (simp add: file_len_def)
    with u show ?thesis using sint_eq_uint_64 [of "max (word_of_int (n_length r)) (newLen indx off sl)"] by simp
  qed
  have same: "sel_node (ins_slices [?row] db) = sel_node db" by (rule same_tree_views(1) [OF same_tree_stmts(7)])
  show "file_len db' j = (if j = i then max (file_len db i) (write_start indx off + uint (sl_len sl)) else file_len db j)"
    using r by (auto simp: db' file_len_def tree_simps set_length_def mx same simp del: ins_slices.simps)
qed

section \<open>Truncate\<close>

lemma Truncate_tx_mono: "fault_mono (Truncate_tx i sz now)"
  unfolding Truncate_tx_def Let_def by (intro fault_intros) (auto intro!: fault_intros)

lemma trim_row_simps [simp]:
  "sr_id (trim_row i sz r) = sr_id r" "sr_inode (trim_row i sz r) = sr_inode r" "sr_slice_id (trim_row i sz r) = sr_slice_id r"
  "sr_soff (trim_row i sz r) = sr_soff r" "row_start (trim_row i sz r) = row_start r"
  by (simp_all add: trim_row_def row_start_def)

lemma trim_row_ok: "row_ok r \<Longrightarrow> row_ok (trim_row i sz r)"
  by (auto simp: row_ok_def trim_row_def)

lemma trim_row_covers:
  assumes "\<not> (sr_inode r = i \<and> sz \<le> row_start r)"
  shows "row_covers j o' (trim_row i sz r) \<longleftrightarrow> row_covers j o' r \<and> \<not> (j = i \<and> sz \<le> o')"
  using assms by (auto simp: row_covers_def trim_row_def row_start_def)

lemma row_src_trim:
  "row_src j o' (map (trim_row i sz) (filter (\<lambda>r. \<not> (sr_inode r = i \<and> sz \<le> row_start r)) rows)) =
   (if j = i \<and> sz \<le> o' then None else row_src j o' rows)"
proof (induction rows)
  case Nil
  then show ?case by simp
next
  case (Cons r rows)
  show ?case
  proof (cases "sr_inode r = i \<and> sz \<le> row_start r")
    case True
    then have "row_covers j o' r \<Longrightarrow> j = i \<and> sz \<le> o'" by (auto simp: row_covers_def)
    with Cons True show ?thesis by (auto split: option.splits)
  next
    case False
    with Cons trim_row_covers [OF False] show ?thesis by (auto split: option.splits)
  qed
qed

lemma Truncate_tx_commit:
  assumes "Truncate_tx i sz now [] db = (Inr (x, db'), [])"
  shows "\<exists>r. sel_node db i = Some r \<and> n_type r \<noteq> TypeDirectory \<and>
    db' = appendChangelog now i OpSetattr (PTruncate sz) (upd_node i (set_length sz (unix_s now) (unix_ns now))
      (if sz < sint (word_of_int (n_length r) :: u64) then trim_at i sz (drop_past i sz db) else db))"
  using assms
  by (auto simp: Truncate_tx_def Let_def tx_simps getAttr_def split: option.splits if_splits)

lemma Truncate_tx_effect:
  assumes run: "Truncate_tx i sz now [] db = (Inr (x, db'), [])"
    and len: "0 \<le> file_len db i" "file_len db i < 2 ^ 63"
  shows "file_src db' j o' = (if j = i \<and> sz \<le> o' \<and> sz < file_len db i then None else file_src db j o')"
    and "file_len db' j = (if j = i then sz else file_len db j)"
proof -
  from Truncate_tx_commit [OF run] obtain r where r: "sel_node db i = Some r"
    and db': "db' = appendChangelog now i OpSetattr (PTruncate sz) (upd_node i (set_length sz (unix_s now) (unix_ns now))
      (if sz < sint (word_of_int (n_length r) :: u64) then trim_at i sz (drop_past i sz db) else db))" by blast
  have l: "sint (word_of_int (n_length r) :: u64) = file_len db i"
    using len r by (simp add: file_len_def sint_word_of_int_64)
  have cut: "file_src (trim_at i sz (drop_past i sz db)) j o' = (if j = i \<and> sz \<le> o' then None else file_src db j o')"
    using row_src_trim [of j o' i sz "t_slice_ref db"] by (simp add: file_src_def trim_at_def drop_past_def)
  show "file_src db' j o' = (if j = i \<and> sz \<le> o' \<and> sz < file_len db i then None else file_src db j o')"
    using cut by (auto simp: db' l)
  show "file_len db' j = (if j = i then sz else file_len db j)"
    using r by (auto simp: db' file_len_def tree_simps set_length_def) (auto simp: sel_node_def trim_at_def drop_past_def set_length_def touch_def)
qed

lemma Truncate_tx_slices_ok:
  assumes "slices_ok db" and "Truncate_tx i sz now [] db = (Inr (x, db'), [])"
  shows "slices_ok db'"
proof -
  have ok: "\<forall>r \<in> set (t_slice_ref db). sr_id r < q_slice_ref db \<and> row_ok r"
    "distinct (map slice_key (t_slice_ref db))" "sorted_wrt (<) (map sr_id (t_slice_ref db))"
    using assms(1) by (auto simp: slices_ok_def)
  have "slices_ok (trim_at i sz (drop_past i sz db))"
    unfolding slices_ok_def trim_at_def drop_past_def
    using ok by (auto simp: distinct_map_filter o_def sorted_wrt_map sorted_wrt_filter trim_row_ok)
  then show ?thesis using Truncate_tx_commit [OF assms(2)] assms(1) by auto
qed

end
