(* ===== verification/Meta_Xattr.thy ===== *)
theory Meta_Xattr
  imports Meta_Engine
begin

text \<open>
  Extended attributes (mlfs/internal/meta/xattr.go) and the change log with its retention (changelog.go and
  \<open>ScanChangelog\<close> of engine.go).
\<close>

section \<open>Extended attributes\<close>

definition XattrCreate :: u32 where "XattrCreate = 1"

definition XattrReplace :: u32 where "XattrReplace = 2"

definition sel_xattr :: "Ino \<Rightarrow> name \<Rightarrow> db \<Rightarrow> string option" where
  "sel_xattr i nm db = map_option x_value (sel xattr_key (i, nm) (t_xattr db))"

definition GetXAttr :: "Ino \<Rightarrow> name \<Rightarrow> sys \<Rightarrow> (errno + string) \<times> sys" where
  "GetXAttr i nm s = (case run_stmt (\<lambda>db. Some (sel_xattr i nm db, db)) s of
      (None, s') \<Rightarrow> (Inl EIO, s')
    | (Some None, s') \<Rightarrow> (Inl ENODATA, s')
    | (Some (Some v), s') \<Rightarrow> (Inr v, s'))"

definition xattr_names :: "Ino \<Rightarrow> db \<Rightarrow> name list" where
  "xattr_names i db = sort (map x_name (filter (\<lambda>r. x_inode r = i) (t_xattr db)))"

definition ListXAttr :: "Ino \<Rightarrow> sys \<Rightarrow> (errno + name list) \<times> sys" where
  "ListXAttr i s = (case run_stmt (\<lambda>db. Some (xattr_names i db, db)) s of
      (None, s') \<Rightarrow> (Inl EIO, s') | (Some ns, s') \<Rightarrow> (Inr ns, s'))"

definition ins_xattr :: "Ino \<Rightarrow> name \<Rightarrow> string \<Rightarrow> db \<Rightarrow> db" where
  "ins_xattr i nm v db = db\<lparr>t_xattr := upsert xattr_key \<lparr>x_inode = i, x_name = nm, x_value = v\<rparr> (t_xattr db)\<rparr>"

definition SetXAttr_tx :: "Ino \<Rightarrow> name \<Rightarrow> string \<Rightarrow> u32 \<Rightarrow> (db, unit) tx" where
  "SetXAttr_tx inode nm v flags =
    query (\<lambda>db. sel_node db inode \<noteq> None) (\<lambda>found.
      if \<not> found then tx_abort ENOENT
      else
        query (\<lambda>db. sel_xattr inode nm db \<noteq> None) (\<lambda>exists.
          if and flags XattrCreate \<noteq> 0 \<and> exists then tx_abort EEXIST
          else if and flags XattrReplace \<noteq> 0 \<and> \<not> exists then tx_abort ENODATA
          else exec (ins_xattr inode nm v) (tx_ret ())))"

definition SetXAttr :: "Ino \<Rightarrow> name \<Rightarrow> string \<Rightarrow> u32 \<Rightarrow> sys \<Rightarrow> (errno + unit) \<times> sys" where
  "SetXAttr inode nm v flags s = (case run_tx (SetXAttr_tx inode nm v flags) s of (r, s') \<Rightarrow> (tx_errno r, s'))"

definition del_xattr :: "Ino \<Rightarrow> name \<Rightarrow> db \<Rightarrow> (nat \<times> db) option" where
  "del_xattr i nm db = Some (cnt (\<lambda>r. xattr_key r = (i, nm)) (t_xattr db),
     db\<lparr>t_xattr := del xattr_key (i, nm) (t_xattr db)\<rparr>)"

definition RemoveXAttr :: "Ino \<Rightarrow> name \<Rightarrow> sys \<Rightarrow> (errno + unit) \<times> sys" where
  "RemoveXAttr i nm s = (case run_stmt (del_xattr i nm) s of
      (None, s') \<Rightarrow> (Inl EIO, s')
    | (Some n, s') \<Rightarrow> if n = 0 then (Inl ENODATA, s') else (Inr (), s'))"

section \<open>The change log\<close>

definition changelog_max :: "db \<Rightarrow> nat option" where
  "changelog_max db = (case t_changelog db of [] \<Rightarrow> None | es \<Rightarrow> Some (Max (ch_lsn ` set es)))"

definition ChangelogHorizon :: "sys \<Rightarrow> nat option \<times> sys" where
  "ChangelogHorizon s = (case run_stmt (\<lambda>db. Some (changelog_max db, db)) s of
      (None, s') \<Rightarrow> (None, s')
    | (Some m, s') \<Rightarrow> (Some (case m of None \<Rightarrow> 0 | Some l \<Rightarrow> l), s'))"

text \<open>DELETE of the log rows a condition selects, with the number of rows.\<close>

definition trim_log :: "(ChangeEntry \<Rightarrow> bool) \<Rightarrow> db \<Rightarrow> (nat \<times> db) option" where
  "trim_log P db = Some (cnt P (t_changelog db), db\<lparr>t_changelog := filter (\<lambda>c. \<not> P c) (t_changelog db)\<rparr>)"

definition TrimChangelog :: "int \<Rightarrow> sys \<Rightarrow> nat option \<times> sys" where
  "TrimChangelog upTo s =
    (if upTo \<le> 0 then (Some 0, s) else run_stmt (trim_log (\<lambda>c. int (ch_lsn c) \<le> upTo)) s)"

text \<open>The smallest of the newest \<open>keep\<close> numbers; no row is below it in an empty log.\<close>

definition keep_bound :: "nat \<Rightarrow> db \<Rightarrow> nat" where
  "keep_bound keep db = (case take keep (rev (sort (map ch_lsn (t_changelog db)))) of [] \<Rightarrow> 0 | l # ls \<Rightarrow> Min (set (l # ls)))"

definition TrimChangelogKeepLast :: "int \<Rightarrow> sys \<Rightarrow> nat option \<times> sys" where
  "TrimChangelogKeepLast keep s =
    (if keep \<le> 0 then (Some 0, s)
     else run_stmt (\<lambda>db. trim_log (\<lambda>c. ch_lsn c < keep_bound (nat keep) db) db) s)"

definition TrimChangelogOlderThan :: "int \<Rightarrow> sys \<Rightarrow> nat option \<times> sys" where
  "TrimChangelogOlderThan age s =
    (if age \<le> 0 then (Some 0, s) else run_stmt (trim_log (\<lambda>c. ch_ts c < s_now s - age)) s)"

text \<open>\<open>ScanChangelog\<close>: the callback sees the entries in order and stops the scan by failing.\<close>

definition log_after :: "int \<Rightarrow> db \<Rightarrow> ChangeEntry list" where
  "log_after after db = sort_key ch_lsn (filter (\<lambda>c. after < int (ch_lsn c)) (t_changelog db))"

fun feed :: "(ChangeEntry \<Rightarrow> 'st \<Rightarrow> 'st option) \<Rightarrow> ChangeEntry list \<Rightarrow> 'st \<Rightarrow> bool \<times> 'st" where
  "feed fn [] st = (True, st)"
| "feed fn (c # cs) st = (case fn c st of None \<Rightarrow> (False, st) | Some st' \<Rightarrow> feed fn cs st')"

definition ScanChangelog :: "int \<Rightarrow> (ChangeEntry \<Rightarrow> 'st \<Rightarrow> 'st option) \<Rightarrow> 'st \<Rightarrow> sys \<Rightarrow> (bool \<times> 'st) \<times> sys" where
  "ScanChangelog after fn st s = (case run_stmt (\<lambda>db. Some (log_after after db, db)) s of
      (None, s') \<Rightarrow> ((False, st), s') | (Some cs, s') \<Rightarrow> (feed fn cs st, s'))"

section \<open>Extended attributes: lemmas\<close>

lemma SetXAttr_tx_ok:
  "SetXAttr_tx i nm v flags [] db =
    (if sel_node db i = None then (Inl (Abort ENOENT), [])
     else if and flags XattrCreate \<noteq> 0 \<and> sel_xattr i nm db \<noteq> None then (Inl (Abort EEXIST), [])
     else if and flags XattrReplace \<noteq> 0 \<and> sel_xattr i nm db = None then (Inl (Abort ENODATA), [])
     else (Inr ((), ins_xattr i nm v db), []))"
  by (simp add: SetXAttr_tx_def tx_simps)

lemma sel_xattr_ins: "sel_xattr j m (ins_xattr i nm v db) = (if (j, m) = (i, nm) then Some v else sel_xattr j m db)"
  by (simp add: sel_xattr_def ins_xattr_def sel_upsert)

lemma GetXAttr_eq:
  "s_faults s = [] \<Longrightarrow> fst (GetXAttr i nm s) = (case sel_xattr i nm (s_db s) of None \<Rightarrow> Inl ENODATA | Some v \<Rightarrow> Inr v)"
  by (simp add: GetXAttr_def run_stmt_def autocommit_def split: option.splits)

section \<open>The change log: lemmas\<close>

text \<open>Log rows carry increasing numbers below the sequence.\<close>

definition log_ok :: "db \<Rightarrow> bool" where
  "log_ok db \<longleftrightarrow> sorted_wrt (<) (map ch_lsn (t_changelog db)) \<and> (\<forall>c \<in> set (t_changelog db). ch_lsn c < q_changelog db)"

lemma log_ok_append: "log_ok db \<Longrightarrow> log_ok (appendChangelog now i op p db)"
  by (auto simp: log_ok_def appendChangelog_def sorted_wrt_append less_Suc_eq)

lemma log_ok_trim: "log_ok db \<Longrightarrow> trim_log P db = Some (n, db') \<Longrightarrow> log_ok db'"
  by (auto simp: log_ok_def trim_log_def sorted_wrt_map sorted_wrt_filter)

lemma trim_log_Some:
  assumes "trim_log P db = Some (n, db')"
  shows "t_changelog db' = filter (\<lambda>c. \<not> P c) (t_changelog db)" "n + length (t_changelog db') = length (t_changelog db)"
  using assms sum_length_filter_compl [of P "t_changelog db"] by (auto simp: trim_log_def cnt_def)

lemma drop_as_filter:
  fixes f :: "'a \<Rightarrow> nat"
  assumes "sorted_wrt (<) (map f xs)" and "k < length xs"
  shows "filter (\<lambda>x. \<not> f x < f (xs ! k)) xs = drop k xs"
proof -
  have lt: "f (xs ! i) < f (xs ! j)" if "i < j" "j < length xs" for i j
    using assms(1) that sorted_wrt_nth_less [of "(<)" "map f xs" i j] by simp
  have "filter (\<lambda>x. \<not> f x < f (xs ! k)) (take k xs) = []"
    using lt assms(2) by (auto simp: filter_empty_conv in_set_conv_nth)
  moreover have "filter (\<lambda>x. \<not> f x < f (xs ! k)) (drop k xs) = drop k xs"
  proof (rule filter_True, rule ballI)
    fix x assume "x \<in> set (drop k xs)"
    then obtain j where "j < length xs - k" "x = xs ! (k + j)" by (auto simp: in_set_conv_nth)
    then have "k + j < length xs" "x = xs ! (k + j)" by simp_all
    then show "\<not> f x < f (xs ! k)" using lt [of k "k + j"] by (cases j) auto
  qed
  ultimately show ?thesis
    by (metis append_take_drop_id filter_append append_Nil)
qed

lemma case_Min: "L \<noteq> [] \<Longrightarrow> (case L of [] \<Rightarrow> 0 | l # ls \<Rightarrow> Min (set (l # ls))) = Min (set (L :: nat list))"
  by (cases L) simp_all

lemma keep_bound_eq:
  assumes "log_ok db" and "0 < keep" and "keep \<le> length (t_changelog db)"
  shows "keep_bound keep db = ch_lsn (t_changelog db ! (length (t_changelog db) - keep))"
proof -
  let ?ls = "map ch_lsn (t_changelog db)"
  let ?k = "length (t_changelog db) - keep"
  have s: "sorted_wrt (<) ?ls" using assms(1) by (simp add: log_ok_def)
  then have "sort ?ls = ?ls" by (simp add: sorted_sort_id strict_sorted_imp_sorted)
  then have t: "take keep (rev (sort ?ls)) = rev (drop ?k ?ls)"
    using assms(3) by (simp add: take_rev)
  have d: "drop ?k ?ls = ?ls ! ?k # drop (Suc ?k) ?ls"
    using assms(2,3) by (subst Cons_nth_drop_Suc) auto
  have min: "\<forall>x \<in> set (drop (Suc ?k) ?ls). ?ls ! ?k < x"
    using s d sorted_wrt_drop [OF s, of ?k] by simp
  have "Min (set (drop ?k ?ls)) = ?ls ! ?k"
    unfolding d by (rule Min_eqI) (use min in \<open>auto intro: less_imp_le\<close>)
  moreover have "keep_bound keep db = Min (set (drop ?k ?ls))"
    using case_Min [of "rev (drop ?k ?ls)"] d unfolding keep_bound_def t by simp
  ultimately show ?thesis using assms(2,3) by simp
qed

section \<open>Properties\<close>

text \<open>C16: Setting an extended attribute without SQL faults fails exactly as the flags demand (no inode, name
  taken under create, name missing under replace) and then changes nothing; otherwise reading the name
  back returns the value, and every other attribute reads as before.\<close>

theorem SetXAttr_GetXAttr:
  assumes "s_faults s = []" and "SetXAttr i nm v flags s = (r, s')"
  shows "r = (if sel_node (s_db s) i = None then Inl ENOENT
      else if and flags XattrCreate \<noteq> 0 \<and> sel_xattr i nm (s_db s) \<noteq> None then Inl EEXIST
      else if and flags XattrReplace \<noteq> 0 \<and> sel_xattr i nm (s_db s) = None then Inl ENODATA
      else Inr ()) \<and>
    fst (GetXAttr j m s') = (if r = Inr () \<and> (j, m) = (i, nm) then Inr v else fst (GetXAttr j m s))"
proof -
  define q where "q = fst (SetXAttr_tx i nm v flags [] (s_db s))"
  have q: "SetXAttr_tx i nm v flags [] (s_db s) = (q, [])" by (simp add: q_def SetXAttr_tx_ok)
  have run: "SetXAttr i nm v flags s = (case q of Inl e \<Rightarrow> (tx_errno (Inl e), s) | Inr (x, db) \<Rightarrow> (Inr x, s\<lparr>s_db := db\<rparr>))"
    unfolding SetXAttr_def run_tx_nofault [of s "SetXAttr_tx i nm v flags", OF assms(1) q] by (simp add: tx_errno_def split: sum.splits prod.splits)
  have get: "fst (GetXAttr j m (s\<lparr>s_db := ins_xattr i nm v (s_db s)\<rparr>)) =
      (if (j, m) = (i, nm) then Inr v else fst (GetXAttr j m s))"
    using assms(1) by (simp add: GetXAttr_eq sel_xattr_ins)
  define A where "A \<longleftrightarrow> sel_node (s_db s) i = None"
  define B where "B \<longleftrightarrow> and flags XattrCreate \<noteq> 0 \<and> sel_xattr i nm (s_db s) \<noteq> None"
  define C where "C \<longleftrightarrow> and flags XattrReplace \<noteq> 0 \<and> sel_xattr i nm (s_db s) = None"
  have "q = (if A then Inl (Abort ENOENT) else if B then Inl (Abort EEXIST) else if C then Inl (Abort ENODATA)
      else Inr ((), ins_xattr i nm v (s_db s)))"
    unfolding q_def SetXAttr_tx_ok A_def [symmetric] B_def [symmetric] C_def [symmetric] by simp
  with run assms(2) get show ?thesis
    unfolding A_def [symmetric] B_def [symmetric] C_def [symmetric]
    by (cases A; cases B; cases C) (auto simp: tx_errno_def)
qed

definition demo_node :: db where
  "demo_node = empty_db\<lparr>t_node := [root_row 0]\<rparr>"

theorem SetXAttr_GetXAttr_witness:
  "fst (GetXAttr RootInode ''user.k'' (snd (SetXAttr RootInode ''user.k'' ''v'' XattrCreate
     \<lparr>s_db = demo_node, s_eng = Open_engine 0 0, s_faults = [], s_now = 0\<rparr>))) = Inr ''v''"
proof -
  let ?s = "\<lparr>s_db = demo_node, s_eng = Open_engine 0 0, s_faults = [], s_now = 0\<rparr>"
  obtain r s' where run: "SetXAttr RootInode ''user.k'' ''v'' XattrCreate ?s = (r, s')" by (rule prod.exhaust)
  have "sel_node demo_node RootInode = Some (root_row 0)" "sel_xattr RootInode ''user.k'' demo_node = None"
    by (simp_all add: demo_node_def sel_node_def root_row_def sel_xattr_def empty_db_def)
  then show ?thesis
    using SetXAttr_GetXAttr [OF _ run, of RootInode "''user.k''"] unfolding run
    by (simp add: XattrCreate_def XattrReplace_def)
qed

text \<open>C17: Retention keeps the newest entries.  When the log holds at least \<open>keep\<close> entries, a successful trim to
  the last \<open>keep\<close> leaves exactly the suffix of that length and reports how many it removed; with fewer
  entries it removes nothing.\<close>

theorem TrimChangelogKeepLast_suffix:
  assumes "log_ok (s_db s)" and "0 < keep" and "TrimChangelogKeepLast keep s = (Some n, s')"
  shows "t_changelog (s_db s') = drop (length (t_changelog (s_db s)) - nat keep) (t_changelog (s_db s)) \<and>
    n = length (t_changelog (s_db s)) - nat keep"
proof -
  let ?es = "t_changelog (s_db s)" and ?b = "keep_bound (nat keep) (s_db s)"
  have "trim_log (\<lambda>c. ch_lsn c < ?b) (s_db s) = Some (n, s_db s')"
    using assms(2,3) by (auto simp: TrimChangelogKeepLast_def dest: run_stmt_Some)
  note t = trim_log_Some [OF this]
  then have es: "t_changelog (s_db s') = filter (\<lambda>c. \<not> ch_lsn c < ?b) ?es"
    and n: "n = length ?es - length (t_changelog (s_db s'))" by simp_all
  show ?thesis
  proof (cases "nat keep \<le> length ?es")
    case True
    then have "?b = ch_lsn (?es ! (length ?es - nat keep))" using keep_bound_eq assms(1,2) by simp
    moreover have "length ?es - nat keep < length ?es" using True assms(2) by simp
    ultimately have "t_changelog (s_db s') = drop (length ?es - nat keep) ?es"
      using es drop_as_filter [of ch_lsn ?es] assms(1) by (simp add: log_ok_def)
    with n show ?thesis using True by simp
  next
    case False
    then have all: "take (nat keep) (rev (sort (map ch_lsn ?es))) = rev (sort (map ch_lsn ?es))" by simp
    have "?b \<le> ch_lsn c" if "c \<in> set ?es" for c
    proof -
      have "rev (sort (map ch_lsn ?es)) \<noteq> []" using that by (metis (no_types) empty_iff empty_set length_0_conv length_map length_rev length_sort)
      from case_Min [OF this] that show ?thesis unfolding keep_bound_def all by simp
    qed
    then have "t_changelog (s_db s') = ?es" unfolding es by (auto intro: filter_True simp: not_less)
    with n False show ?thesis by simp
  qed
qed

definition demo_log :: db where
  "demo_log = appendChangelog 3 4 OpWrite (PSet 3) (appendChangelog 2 4 OpWrite (PSet 2)
     (appendChangelog 1 4 OpWrite (PSet 1) empty_db))"

theorem TrimChangelogKeepLast_suffix_witness:
  "map ch_ts (t_changelog (s_db (snd (TrimChangelogKeepLast 2
     \<lparr>s_db = demo_log, s_eng = Open_engine 0 0, s_faults = [], s_now = 0\<rparr>)))) = [2, 3]"
proof -
  let ?s = "\<lparr>s_db = demo_log, s_eng = Open_engine 0 0, s_faults = [], s_now = 0\<rparr>"
  have "log_ok empty_db" by (simp add: log_ok_def empty_db_def)
  then have ok: "log_ok (s_db ?s)" by (simp add: demo_log_def log_ok_append)
  obtain r s' where run: "TrimChangelogKeepLast 2 ?s = (r, s')" by (rule prod.exhaust)
  moreover have "r \<noteq> None"
    using run by (auto simp: TrimChangelogKeepLast_def run_stmt_def autocommit_def trim_log_def)
  ultimately obtain n where "TrimChangelogKeepLast 2 ?s = (Some n, s')" by auto
  from TrimChangelogKeepLast_suffix [OF ok _ this] show ?thesis
    unfolding run by (simp add: demo_log_def appendChangelog_def empty_db_def)
qed

text \<open>C18: Trimming up to a checkpoint loses nothing that a reader past the checkpoint would see, whether or not
  the statement fails.\<close>

theorem TrimChangelog_keeps_tail:
  assumes "upTo \<le> after" and "TrimChangelog upTo s = (r, s')"
  shows "log_after after (s_db s') = log_after after (s_db s)"
proof (cases "0 < upTo \<and> r \<noteq> None")
  case True
  then obtain n where "trim_log (\<lambda>c. int (ch_lsn c) \<le> upTo) (s_db s) = Some (n, s_db s')"
    using assms(2) by (auto simp: TrimChangelog_def dest: run_stmt_Some)
  from trim_log_Some(1) [OF this] show ?thesis
    using assms(1) by (auto simp: log_after_def intro!: arg_cong [where f = "sort_key ch_lsn"] filter_cong)
next
  case False
  then have "s_db s' = s_db s"
    using assms(2) run_stmt_None [of _ s s'] by (auto simp: TrimChangelog_def split: if_splits)
  then show ?thesis by simp
qed

theorem TrimChangelog_keeps_tail_witness:
  "log_after 2 (s_db (snd (TrimChangelog 1 \<lparr>s_db = demo_log, s_eng = Open_engine 0 0, s_faults = [], s_now = 0\<rparr>))) =
   log_after 2 demo_log"
  using TrimChangelog_keeps_tail [of 1 2, OF _ prod.collapse [symmetric]] by simp

end
