(* ===== verification/Meta_Locks.thy ===== *)
theory Meta_Locks
  imports Meta_Engine
begin

text \<open>
  Advisory locks over the flock and plock tables: mlfs/internal/meta/locks.go.

  The records column of plock holds the JSON encoding of a list of byte ranges; the model stores the list.
  The lock table contract (no two holders conflict) is the locale \<open>lock_table\<close>, interpreted on the rows of
  both tables.
\<close>

section \<open>Definitions\<close>

definition FlockShared :: u8 where "FlockShared = 82"

definition FlockExclusive :: u8 where "FlockExclusive = 87"

definition FlockUnlock :: u8 where "FlockUnlock = 85"

text \<open>The lock types of fcntl(2) on Linux.\<close>

definition F_RDLCK :: u8 where "F_RDLCK = 0"

definition F_WRLCK :: u8 where "F_WRLCK = 1"

definition F_UNLCK :: u8 where "F_UNLCK = 2"

definition lockSID :: "engine \<Rightarrow> u64" where
  "lockSID e = ucast (e_prefix e)"

subsection \<open>Whole-file locks\<close>

definition flock_conflict :: "u64 \<Rightarrow> u64 \<Rightarrow> u8 \<Rightarrow> flock_row list \<Rightarrow> bool" where
  "flock_conflict sid owner typ rows \<longleftrightarrow>
    (\<exists>r \<in> set rows. \<not> (fl_sid r = sid \<and> fl_owner r = owner) \<and> (typ = FlockExclusive \<or> fl_ltype r = FlockExclusive))"

definition flock_holders :: "Ino \<Rightarrow> db \<Rightarrow> flock_row list" where
  "flock_holders i db = filter (\<lambda>r. fl_inode r = i) (t_flock db)"

definition del_flock :: "Ino \<Rightarrow> u64 \<Rightarrow> u64 \<Rightarrow> db \<Rightarrow> db" where
  "del_flock i sid owner db = db\<lparr>t_flock := del flock_key (i, sid, owner) (t_flock db)\<rparr>"

definition ins_flock :: "Ino \<Rightarrow> u64 \<Rightarrow> u64 \<Rightarrow> u8 \<Rightarrow> db \<Rightarrow> db" where
  "ins_flock i sid owner typ db = db\<lparr>t_flock := upsert flock_key
     \<lparr>fl_inode = i, fl_sid = sid, fl_owner = owner, fl_ltype = typ\<rparr> (t_flock db)\<rparr>"

definition Flock_tx :: "u64 \<Rightarrow> Ino \<Rightarrow> u64 \<Rightarrow> u8 \<Rightarrow> (db, unit) tx" where
  "Flock_tx sid inode owner typ =
    (if typ = FlockUnlock then exec (del_flock inode sid owner) (tx_ret ())
     else
       query (flock_holders inode) (\<lambda>rows.
         if flock_conflict sid owner typ rows then tx_abort EAGAIN
         else exec (ins_flock inode sid owner typ) (tx_ret ())))"

definition Flock :: "Ino \<Rightarrow> u64 \<Rightarrow> u8 \<Rightarrow> sys \<Rightarrow> (errno + unit) \<times> sys" where
  "Flock inode owner typ s =
    (case run_tx (Flock_tx (lockSID (s_eng s)) inode owner typ) s of (r, s') \<Rightarrow> (tx_errno r, s'))"

subsection \<open>Byte-range locks\<close>

definition loadMyPlock :: "u64 \<Rightarrow> Ino \<Rightarrow> u64 \<Rightarrow> db \<Rightarrow> plockRec list" where
  "loadMyPlock sid i owner db = (case sel plock_key (i, sid, owner) (t_plock db) of
      None \<Rightarrow> [] | Some r \<Rightarrow> pk_records r)"

definition loadOtherPlocks :: "u64 \<Rightarrow> Ino \<Rightarrow> u64 \<Rightarrow> db \<Rightarrow> plockRec list" where
  "loadOtherPlocks sid i owner db = concat (map pk_records
     (filter (\<lambda>r. pk_inode r = i \<and> \<not> (pk_sid r = sid \<and> pk_owner r = owner)) (t_plock db)))"

fun plockConflict :: "plockRec list \<Rightarrow> u8 \<Rightarrow> u64 \<Rightarrow> u64 \<Rightarrow> plockRec option" where
  "plockConflict [] typ start end' = None"
| "plockConflict (r # rs) typ start end' =
    (if pl_end r < start \<or> end' < pl_start r then plockConflict rs typ start end'
     else if typ = F_WRLCK \<or> pl_typ r = F_WRLCK then Some r
     else plockConflict rs typ start end')"

fun trim_recs :: "plockRec list \<Rightarrow> u64 \<Rightarrow> u64 \<Rightarrow> plockRec list" where
  "trim_recs [] start end' = []"
| "trim_recs (r # rs) start end' =
    (if pl_end r < start \<or> end' < pl_start r then [r]
     else (if pl_start r < start then [r\<lparr>pl_end := start - 1\<rparr>] else []) @
          (if end' < pl_end r then [r\<lparr>pl_start := end' + 1\<rparr>] else [])) @ trim_recs rs start end'"

definition splitRange :: "plockRec list \<Rightarrow> u8 \<Rightarrow> u64 \<Rightarrow> u64 \<Rightarrow> u32 \<Rightarrow> plockRec list" where
  "splitRange recs typ start end' pid = trim_recs recs start end' @
    (if typ \<noteq> F_UNLCK then [\<lparr>pl_typ = typ, pl_start = start, pl_end = end', pl_pid = pid\<rparr>] else [])"

definition Getlk :: "Ino \<Rightarrow> u64 \<Rightarrow> u8 \<Rightarrow> u64 \<Rightarrow> u64 \<Rightarrow> sys \<Rightarrow> (errno + u8 \<times> u64 \<times> u64 \<times> u32) \<times> sys" where
  "Getlk inode owner typ start end' s =
    (case run_stmt (\<lambda>db. Some (loadOtherPlocks (lockSID (s_eng s)) inode owner db, db)) s of
       (None, s') \<Rightarrow> (Inl EIO, s')
     | (Some others, s') \<Rightarrow>
         (case plockConflict others typ start end' of
            Some c \<Rightarrow> (Inr (pl_typ c, pl_start c, pl_end c, pl_pid c), s')
          | None \<Rightarrow> (Inr (F_UNLCK, start, end', 0), s')))"

definition del_plock :: "Ino \<Rightarrow> u64 \<Rightarrow> u64 \<Rightarrow> db \<Rightarrow> db" where
  "del_plock i sid owner db = db\<lparr>t_plock := del plock_key (i, sid, owner) (t_plock db)\<rparr>"

definition ins_plock :: "Ino \<Rightarrow> u64 \<Rightarrow> u64 \<Rightarrow> plockRec list \<Rightarrow> db \<Rightarrow> db" where
  "ins_plock i sid owner recs db = db\<lparr>t_plock := upsert plock_key
     \<lparr>pk_inode = i, pk_sid = sid, pk_owner = owner, pk_records = recs\<rparr> (t_plock db)\<rparr>"

definition Setlk_tx :: "u64 \<Rightarrow> Ino \<Rightarrow> u64 \<Rightarrow> u8 \<Rightarrow> u64 \<Rightarrow> u64 \<Rightarrow> u32 \<Rightarrow> (db, unit) tx" where
  "Setlk_tx sid inode owner typ start end' pid =
    (let place = query (loadMyPlock sid inode owner) (\<lambda>mine.
           case splitRange mine typ start end' pid of
             [] \<Rightarrow> exec (del_plock inode sid owner) (tx_ret ())
           | r # rs \<Rightarrow> exec (ins_plock inode sid owner (r # rs)) (tx_ret ()))
     in if typ \<noteq> F_UNLCK then
          query (loadOtherPlocks sid inode owner) (\<lambda>others.
            case plockConflict others typ start end' of
              Some _ \<Rightarrow> tx_abort EAGAIN
            | None \<Rightarrow> place)
        else place)"

definition Setlk :: "Ino \<Rightarrow> u64 \<Rightarrow> u8 \<Rightarrow> u64 \<Rightarrow> u64 \<Rightarrow> u32 \<Rightarrow> sys \<Rightarrow> (errno + unit) \<times> sys" where
  "Setlk inode owner typ start end' pid s =
    (case run_tx (Setlk_tx (lockSID (s_eng s)) inode owner typ start end' pid) s of (r, s') \<Rightarrow> (tx_errno r, s'))"

subsection \<open>Clearing\<close>

definition ClearAllLocks :: "sys \<Rightarrow> bool \<times> sys" where
  "ClearAllLocks s =
    (case run_tx (exec (\<lambda>db. db\<lparr>t_flock := []\<rparr>) (exec (\<lambda>db. db\<lparr>t_plock := []\<rparr>) (tx_ret ()))) s of
       (r, s') \<Rightarrow> (\<not> isl r, s'))"

definition ClearLocksForSID :: "u64 \<Rightarrow> sys \<Rightarrow> bool \<times> sys" where
  "ClearLocksForSID sid s =
    (case run_tx (exec (\<lambda>db. db\<lparr>t_flock := del fl_sid sid (t_flock db)\<rparr>)
            (exec (\<lambda>db. db\<lparr>t_plock := del pk_sid sid (t_plock db)\<rparr>) (tx_ret ()))) s of
       (r, s') \<Rightarrow> (\<not> isl r, s'))"

definition ListLockSIDs :: "sys \<Rightarrow> u64 list option \<times> sys" where
  "ListLockSIDs s =
    run_stmt (\<lambda>db. Some (remdups (map fl_sid (t_flock db) @ map pk_sid (t_plock db)), db)) s"

definition ClearPlocks :: "Ino \<Rightarrow> u64 \<Rightarrow> sys \<Rightarrow> sys" where
  "ClearPlocks inode owner s =
    (if owner = 0 then s
     else snd (run_stmt (\<lambda>db. Some ((), del_plock inode (lockSID (s_eng s)) owner db)) s))"

section \<open>Lock tables\<close>

text \<open>The contract of a lock table: one row per holder, and no two holders conflict.\<close>

definition exclusive :: "('r \<Rightarrow> 'k) \<Rightarrow> ('r \<Rightarrow> 'r \<Rightarrow> bool) \<Rightarrow> 'r list \<Rightarrow> bool" where
  "exclusive key ok rows \<longleftrightarrow> distinct (map key rows) \<and>
    (\<forall>a \<in> set rows. \<forall>b \<in> set rows. key a \<noteq> key b \<longrightarrow> ok a b)"

locale lock_table =
  fixes key :: "'r \<Rightarrow> 'k" and ok :: "'r \<Rightarrow> 'r \<Rightarrow> bool"
  assumes compat_sym: "ok a b \<Longrightarrow> ok b a"
begin

lemma exclusive_Nil: "exclusive key ok []"
  by (simp add: exclusive_def)

lemma exclusive_del: "exclusive key ok rows \<Longrightarrow> exclusive key ok (del key2 k rows)"
  by (auto simp: exclusive_def set_del distinct_map_del)

lemma exclusive_upsert:
  assumes "exclusive key ok rows" and "\<And>x. x \<in> set rows \<Longrightarrow> key x \<noteq> key r \<Longrightarrow> ok x r"
  shows "exclusive key ok (upsert key r rows)"
  using assms compat_sym by (auto simp: exclusive_def set_upsert distinct_upsert)

lemma exclusive_pair:
  "exclusive key ok rows \<Longrightarrow> a \<in> set rows \<Longrightarrow> b \<in> set rows \<Longrightarrow> key a \<noteq> key b \<Longrightarrow> ok a b"
  by (simp add: exclusive_def)

end

text \<open>Two whole-file locks on one inode: neither is exclusive.\<close>

definition flock_compat :: "flock_row \<Rightarrow> flock_row \<Rightarrow> bool" where
  "flock_compat a b \<longleftrightarrow> (fl_inode a = fl_inode b \<longrightarrow> fl_ltype a \<noteq> FlockExclusive \<and> fl_ltype b \<noteq> FlockExclusive)"

text \<open>Two byte-range holders of one inode: no byte is covered by both with a write lock among them.\<close>

definition rec_covers :: "u64 \<Rightarrow> plockRec \<Rightarrow> bool" where
  "rec_covers b r \<longleftrightarrow> pl_start r \<le> b \<and> b \<le> pl_end r"

definition recs_compat :: "plockRec list \<Rightarrow> plockRec list \<Rightarrow> bool" where
  "recs_compat xs ys \<longleftrightarrow> (\<forall>x \<in> set xs. \<forall>y \<in> set ys. \<forall>b. rec_covers b x \<and> rec_covers b y \<longrightarrow>
     pl_typ x \<noteq> F_WRLCK \<and> pl_typ y \<noteq> F_WRLCK)"

definition plock_compat :: "plock_row \<Rightarrow> plock_row \<Rightarrow> bool" where
  "plock_compat a b \<longleftrightarrow> (pk_inode a = pk_inode b \<longrightarrow> recs_compat (pk_records a) (pk_records b))"

interpretation flocks: lock_table flock_key flock_compat
  by unfold_locales (auto simp: flock_compat_def)

interpretation plocks: lock_table plock_key plock_compat
  by unfold_locales (auto simp: plock_compat_def recs_compat_def)

definition locks_ok :: "db \<Rightarrow> bool" where
  "locks_ok db \<longleftrightarrow> exclusive flock_key flock_compat (t_flock db) \<and> exclusive plock_key plock_compat (t_plock db)"

section \<open>Byte ranges\<close>

lemma plockConflict_None:
  "plockConflict rs typ start end' = None \<longleftrightarrow>
   (\<forall>r \<in> set rs. pl_end r < start \<or> end' < pl_start r \<or> (typ \<noteq> F_WRLCK \<and> pl_typ r \<noteq> F_WRLCK))"
  by (induction rs) auto

lemma plockConflict_Some:
  "plockConflict rs typ start end' = Some r \<Longrightarrow>
   r \<in> set rs \<and> start \<le> pl_end r \<and> pl_start r \<le> end' \<and> (typ = F_WRLCK \<or> pl_typ r = F_WRLCK)"
  by (induction rs) (auto split: if_splits)

lemma word_pred_le: "a < s \<Longrightarrow> b \<le> s - 1 \<longleftrightarrow> b < (s :: u64)"
proof -
  assume "a < s"
  then have "1 \<le> uint s" using uint_ge_0 [of a] unfolding word_less_def by linarith
  then have "uint (s - 1) = uint s - 1" by (subst uint_sub_nowrap) (simp_all add: word_le_def)
  then show ?thesis by (simp add: word_le_def word_less_def)
qed

lemma word_succ_le: "e < z \<Longrightarrow> e + 1 \<le> b \<longleftrightarrow> e < (b :: u64)"
proof -
  assume "e < z"
  then have "uint e + 1 < 2 ^ 64" using uint_lt2p [of z] by (simp add: word_less_def)
  then have "uint (e + 1) = uint e + 1" by (subst uint_add_nowrap) simp_all
  then show ?thesis unfolding word_le_def word_less_def by linarith
qed

lemma trim_recs_cover:
  assumes "r' \<in> set (trim_recs recs start end')" and "rec_covers b r'"
  shows "\<exists>r \<in> set recs. pl_typ r = pl_typ r' \<and> rec_covers b r \<and> (start \<le> end' \<longrightarrow> b < start \<or> end' < b)"
  using assms
proof (induction recs)
  case (Cons r rs)
  show ?case
  proof (cases "r' \<in> set (trim_recs rs start end')")
    case True
    with Cons show ?thesis by auto
  next
    case False
    with Cons.prems show ?thesis
      by (auto simp: rec_covers_def word_pred_le word_succ_le split: if_splits)
  qed
qed simp

lemma trim_recs_keep:
  assumes "r \<in> set recs" and "rec_covers b r" and "b < start \<or> end' < b"
  shows "\<exists>r' \<in> set (trim_recs recs start end'). pl_typ r' = pl_typ r \<and> rec_covers b r'"
  using assms(1)
proof (induction recs)
  case (Cons x rs)
  show ?case
  proof (cases "r \<in> set rs")
    case True
    with Cons show ?thesis by auto
  next
    case False
    then have x: "x = r" using Cons.prems by simp
    consider "pl_end r < start \<or> end' < pl_start r" | (head) "pl_start r < start" "b < start" "end' \<ge> pl_start r"
      | (tail) "end' < pl_end r" "end' < b" "start \<le> pl_end r"
      using assms(2,3) unfolding rec_covers_def by (meson le_less_trans less_le_trans not_less)
    then show ?thesis
    proof cases
      case 1
      with x assms(2) show ?thesis by (intro bexI [of _ r]) simp_all
    next
      case head
      then have "rec_covers b (r\<lparr>pl_end := start - 1\<rparr>)" using assms(2) by (simp add: rec_covers_def word_pred_le)
      with head x assms(2) show ?thesis by (cases "pl_end r < start") auto
    next
      case tail
      then have "rec_covers b (r\<lparr>pl_start := end' + 1\<rparr>)" using assms(2) by (simp add: rec_covers_def word_succ_le)
      with tail x assms(2) show ?thesis by (cases "end' < pl_start r") auto
    qed
  qed
qed simp

text \<open>The lock types one owner holds on a byte.\<close>

definition held_types :: "plockRec list \<Rightarrow> u64 \<Rightarrow> u8 set" where
  "held_types recs b = pl_typ ` set (filter (rec_covers b) recs)"

lemma held_typesE: "t \<in> held_types recs b \<longleftrightarrow> (\<exists>r \<in> set recs. rec_covers b r \<and> pl_typ r = t)"
  by (auto simp: held_types_def)

lemma held_types_trim:
  assumes "start \<le> end'"
  shows "held_types (trim_recs recs start end') b = (if start \<le> b \<and> b \<le> end' then {} else held_types recs b)"
proof (cases "start \<le> b \<and> b \<le> end'")
  case True
  then have "\<not> (\<exists>r' \<in> set (trim_recs recs start end'). rec_covers b r')"
    using trim_recs_cover [of _ recs start end' b] assms by fastforce
  with True show ?thesis by (auto simp: held_types_def)
next
  case False
  then have out: "b < start \<or> end' < b" by auto
  have "t \<in> held_types (trim_recs recs start end') b \<longleftrightarrow> t \<in> held_types recs b" for t
    unfolding held_typesE
    using trim_recs_cover [of _ recs start end' b] trim_recs_keep [of _ recs b start end', OF _ _ out] by metis
  with False show ?thesis by auto
qed

lemma held_types_split:
  assumes "start \<le> end'"
  shows "held_types (splitRange recs typ start end' pid) b =
    (if start \<le> b \<and> b \<le> end' then (if typ = F_UNLCK then {} else {typ}) else held_types recs b)"
proof -
  have app: "held_types (xs @ ys) b = held_types xs b \<union> held_types ys b" for xs ys
    by (auto simp: held_types_def)
  have new: "held_types [\<lparr>pl_typ = typ, pl_start = start, pl_end = end', pl_pid = pid\<rparr>] b =
      (if start \<le> b \<and> b \<le> end' then {typ} else {})"
    by (auto simp: held_types_def rec_covers_def)
  show ?thesis
    using held_types_trim [OF assms, of recs b] new by (auto simp: splitRange_def app held_types_def [of "[]"])
qed

section \<open>Transactions\<close>

lemma Flock_tx_mono: "fault_mono (Flock_tx sid i owner typ)"
  unfolding Flock_tx_def by (intro fault_intros)

lemma Setlk_tx_mono: "fault_mono (Setlk_tx sid i owner typ start end' pid)"
  unfolding Setlk_tx_def Let_def by (intro fault_intros) (auto intro!: fault_intros split: list.splits)

lemma Flock_tx_ok:
  "Flock_tx sid i owner typ [] db =
    (if typ = FlockUnlock then (Inr ((), del_flock i sid owner db), [])
     else if flock_conflict sid owner typ (flock_holders i db) then (Inl (Abort EAGAIN), [])
     else (Inr ((), ins_flock i sid owner typ db), []))"
  by (simp add: Flock_tx_def tx_simps)

text \<open>The table after a successful range change: the owner's row, or no row when nothing is left.\<close>

definition put_plock :: "Ino \<Rightarrow> u64 \<Rightarrow> u64 \<Rightarrow> plockRec list \<Rightarrow> db \<Rightarrow> db" where
  "put_plock i sid owner recs db = (if recs = [] then del_plock i sid owner db else ins_plock i sid owner recs db)"

lemma Setlk_tx_ok:
  "Setlk_tx sid i owner typ start end' pid [] db =
    (if typ \<noteq> F_UNLCK \<and> plockConflict (loadOtherPlocks sid i owner db) typ start end' \<noteq> None
     then (Inl (Abort EAGAIN), [])
     else (Inr ((), put_plock i sid owner (splitRange (loadMyPlock sid i owner db) typ start end' pid) db), []))"
  by (auto simp: Setlk_tx_def Let_def tx_simps put_plock_def split: option.splits list.splits)

lemma loadMyPlock_put:
  "loadMyPlock sid i owner (put_plock i sid owner recs db) = recs"
  by (simp add: loadMyPlock_def put_plock_def del_plock_def ins_plock_def sel_del sel_upsert)

lemma loadMyPlock_put_other:
  "(j, sid', owner') \<noteq> (i, sid, owner) \<Longrightarrow>
   loadMyPlock sid' j owner' (put_plock i sid owner recs db) = loadMyPlock sid' j owner' db"
  by (auto simp: loadMyPlock_def put_plock_def del_plock_def ins_plock_def sel_del sel_upsert)

section \<open>Mutual exclusion\<close>

lemma flock_locks_ok:
  assumes ok: "locks_ok db" and run: "Flock_tx sid i owner typ [] db = (Inr (x, db'), [])"
  shows "locks_ok db'"
proof (cases "typ = FlockUnlock")
  case True
  with assms flocks.exclusive_del show ?thesis by (auto simp: Flock_tx_ok locks_ok_def del_flock_def)
next
  case False
  let ?r = "\<lparr>fl_inode = i, fl_sid = sid, fl_owner = owner, fl_ltype = typ\<rparr>"
  have nc: "\<not> flock_conflict sid owner typ (flock_holders i db)" and db': "db' = ins_flock i sid owner typ db"
    using run False by (auto simp: Flock_tx_ok split: if_splits)
  have "exclusive flock_key flock_compat (upsert flock_key ?r (t_flock db))"
  proof (rule flocks.exclusive_upsert)
    show "exclusive flock_key flock_compat (t_flock db)" using ok by (simp add: locks_ok_def)
    fix x assume "x \<in> set (t_flock db)" "flock_key x \<noteq> flock_key ?r"
    then show "flock_compat x ?r"
      using nc by (auto simp: flock_compat_def flock_conflict_def flock_holders_def)
  qed
  with ok show ?thesis by (simp add: db' locks_ok_def ins_flock_def)
qed

lemma recs_compat_split:
  assumes other: "recs_compat recs mine" and ty: "typ = F_UNLCK \<or> plockConflict recs typ start end' = None"
  shows "recs_compat recs (splitRange mine typ start end' pid)"
  unfolding recs_compat_def
proof (intro ballI allI impI)
  fix x y b
  assume x: "x \<in> set recs" and y: "y \<in> set (splitRange mine typ start end' pid)" and b: "rec_covers b x \<and> rec_covers b y"
  show "pl_typ x \<noteq> F_WRLCK \<and> pl_typ y \<noteq> F_WRLCK"
  proof (cases "y \<in> set (trim_recs mine start end')")
    case True
    then obtain r where "r \<in> set mine" "pl_typ r = pl_typ y" "rec_covers b r" using trim_recs_cover b by blast
    with other x b show ?thesis unfolding recs_compat_def by metis
  next
    case False
    then have t: "typ \<noteq> F_UNLCK" and y: "y = \<lparr>pl_typ = typ, pl_start = start, pl_end = end', pl_pid = pid\<rparr>"
      using y by (auto simp: splitRange_def split: if_splits)
    with ty t have "plockConflict recs typ start end' = None" by simp
    with x b y show ?thesis unfolding plockConflict_None rec_covers_def by force
  qed
qed

lemma plockConflict_part:
  "plockConflict recs typ start end' = None \<Longrightarrow> set rs \<subseteq> set recs \<Longrightarrow> plockConflict rs typ start end' = None"
  unfolding plockConflict_None by blast

lemma setlk_locks_ok:
  assumes ok: "locks_ok db" and run: "Setlk_tx sid i owner typ start end' pid [] db = (Inr (x, db'), [])"
  shows "locks_ok db'"
proof -
  define recs where "recs = splitRange (loadMyPlock sid i owner db) typ start end' pid"
  let ?r = "\<lparr>pk_inode = i, pk_sid = sid, pk_owner = owner, pk_records = recs\<rparr>"
  have db': "db' = put_plock i sid owner recs db"
    and free: "typ = F_UNLCK \<or> plockConflict (loadOtherPlocks sid i owner db) typ start end' = None"
    using run unfolding recs_def by (auto simp: Setlk_tx_ok split: if_splits)
  have ex: "exclusive plock_key plock_compat (t_plock db)" using ok by (simp add: locks_ok_def)
  have up: "exclusive plock_key plock_compat (upsert plock_key ?r (t_plock db))"
  proof (rule plocks.exclusive_upsert [OF ex])
    fix x assume x: "x \<in> set (t_plock db)" "plock_key x \<noteq> plock_key ?r"
    show "plock_compat x ?r" unfolding plock_compat_def
    proof
      assume i: "pk_inode x = pk_inode ?r"
      with x have "set (pk_records x) \<subseteq> set (loadOtherPlocks sid i owner db)" by (auto simp: loadOtherPlocks_def)
      with free have "typ = F_UNLCK \<or> plockConflict (pk_records x) typ start end' = None"
        using plockConflict_part [of "loadOtherPlocks sid i owner db" "typ" start end' "pk_records x"] by auto
      moreover have "recs_compat (pk_records x) (loadMyPlock sid i owner db)"
      proof (cases "sel plock_key (i, sid, owner) (t_plock db)")
        case None
        then show ?thesis by (simp add: loadMyPlock_def recs_compat_def)
      next
        case (Some m)
        then have m: "m \<in> set (t_plock db)" "plock_key m = (i, sid, owner)" by (auto dest: sel_SomeD)
        then have "plock_compat x m" using plocks.exclusive_pair [OF ex x(1) m(1)] x(2) by simp
        with i m Some show ?thesis by (simp add: plock_compat_def loadMyPlock_def)
      qed
      ultimately show "recs_compat (pk_records x) (pk_records ?r)"
        using recs_compat_split unfolding recs_def by simp
    qed
  qed
  show ?thesis
    using ok up plocks.exclusive_del [OF ex, of plock_key "(i, sid, owner)"] by (simp add: db' locks_ok_def put_plock_def del_plock_def ins_plock_def)
qed

subsection \<open>Any interleaving of lock calls\<close>

datatype lock_op =
    LFlock Ino u64 u8
  | LSetlk Ino u64 u8 u64 u64 u32
  | LClearAll
  | LClearSID u64
  | LClearPlocks Ino u64

fun lock_do :: "lock_op \<Rightarrow> sys \<Rightarrow> sys" where
  "lock_do (LFlock i owner ty) s = snd (Flock i owner ty s)"
| "lock_do (LSetlk i owner ty start end' pid) s = snd (Setlk i owner ty start end' pid s)"
| "lock_do LClearAll s = snd (ClearAllLocks s)"
| "lock_do (LClearSID sid) s = snd (ClearLocksForSID sid s)"
| "lock_do (LClearPlocks i owner) s = ClearPlocks i owner s"

text \<open>A schedule names for each call the mount that makes it and its SQL faults; lock calls keep the engine.\<close>

fun lock_run :: "(nat \<times> faults \<times> lock_op) list \<Rightarrow> (nat \<Rightarrow> engine) \<Rightarrow> db \<Rightarrow> db" where
  "lock_run [] es db = db"
| "lock_run ((k, fs, op) # sched) es db =
    lock_run sched es (s_db (lock_do op \<lparr>s_db = db, s_eng = es k, s_faults = fs, s_now = 0\<rparr>))"

lemma run_tx_preserves:
  assumes "fault_mono m" and "run_tx m s = (r, s')" and "P (s_db s)"
    and "\<And>x d. m [] (s_db s) = (Inr (x, d), []) \<Longrightarrow> P d"
  shows "P (s_db s')"
  using assms run_tx_atomic [of m s _ s'] run_tx_commit [of m s _ s'] by (cases r) auto

lemma run_stmt_upd:
  "s_db (snd (run_stmt (\<lambda>db. Some ((), f db)) s)) = s_db s \<or>
   s_db (snd (run_stmt (\<lambda>db. Some ((), f db)) s)) = f (s_db s)"
  by (simp add: run_stmt_def autocommit_def)

text \<open>The database after a transaction of two updates.\<close>

definition snd_db :: "(db \<Rightarrow> db) \<Rightarrow> (db \<Rightarrow> db) \<Rightarrow> sys \<Rightarrow> db" where
  "snd_db f g s = s_db (snd (run_tx (exec f (exec g (tx_ret ()))) s))"

lemma snd_db_preserves:
  assumes "P (s_db s)" and "P (g (f (s_db s)))"
  shows "P (snd_db f g s)"
proof -
  obtain r s' where r: "run_tx (exec f (exec g (tx_ret ()))) s = (r, s')" by (rule prod.exhaust)
  have "fault_mono (exec f (exec g (tx_ret ())))" by (intro fault_intros)
  from run_tx_preserves [where P = P, OF this r assms(1)] assms(2) show ?thesis
    by (simp add: snd_db_def r tx_simps)
qed

lemma lock_do_ok: "locks_ok (s_db s) \<Longrightarrow> locks_ok (s_db (lock_do op s))"
proof (cases op)
  case (LFlock i owner ty)
  obtain r s' where r: "run_tx (Flock_tx (lockSID (s_eng s)) i owner ty) s = (r, s')" by (rule prod.exhaust)
  assume "locks_ok (s_db s)"
  with LFlock r show ?thesis
    using run_tx_preserves [where P = locks_ok, OF Flock_tx_mono r] flock_locks_ok by (simp add: Flock_def)
next
  case (LSetlk i owner ty start end' pid)
  obtain r s' where r: "run_tx (Setlk_tx (lockSID (s_eng s)) i owner ty start end' pid) s = (r, s')" by (rule prod.exhaust)
  assume "locks_ok (s_db s)"
  with LSetlk r show ?thesis
    using run_tx_preserves [where P = locks_ok, OF Setlk_tx_mono r] setlk_locks_ok by (simp add: Setlk_def)
next
  case LClearAll
  assume "locks_ok (s_db s)"
  then have "locks_ok (snd_db (\<lambda>db. db\<lparr>t_flock := []\<rparr>) (\<lambda>db. db\<lparr>t_plock := []\<rparr>) s)"
    by (rule snd_db_preserves) (simp add: locks_ok_def flocks.exclusive_Nil plocks.exclusive_Nil)
  with LClearAll show ?thesis by (simp add: ClearAllLocks_def snd_db_def case_prod_beta)
next
  case (LClearSID sid)
  assume ok: "locks_ok (s_db s)"
  then have "locks_ok (snd_db (\<lambda>db. db\<lparr>t_flock := del fl_sid sid (t_flock db)\<rparr>)
      (\<lambda>db. db\<lparr>t_plock := del pk_sid sid (t_plock db)\<rparr>) s)"
    by (rule snd_db_preserves) (use ok in \<open>simp add: locks_ok_def flocks.exclusive_del plocks.exclusive_del\<close>)
  with LClearSID show ?thesis by (simp add: ClearLocksForSID_def snd_db_def case_prod_beta)
next
  case (LClearPlocks i owner)
  assume ok: "locks_ok (s_db s)"
  then have "locks_ok (del_plock i (lockSID (s_eng s)) owner (s_db s))"
    by (simp add: locks_ok_def del_plock_def plocks.exclusive_del)
  with LClearPlocks ok show ?thesis
    using run_stmt_upd [of "del_plock i (lockSID (s_eng s)) owner" s] by (auto simp: ClearPlocks_def)
qed

lemma lock_run_ok: "locks_ok db \<Longrightarrow> locks_ok (lock_run sched es db)"
  by (induction sched es db rule: lock_run.induct) (simp_all add: lock_do_ok)

section \<open>Conflicts seen by a request\<close>

text \<open>One row per holder and no empty range.\<close>

definition plocks_wf :: "db \<Rightarrow> bool" where
  "plocks_wf db \<longleftrightarrow> distinct (map plock_key (t_plock db)) \<and>
    (\<forall>k \<in> set (t_plock db). \<forall>r \<in> set (pk_records k). pl_start r \<le> pl_end r)"

text \<open>Another owner holds a byte of the range, and one of the two locks is for writing.\<close>

definition range_conflict :: "db \<Rightarrow> u64 \<Rightarrow> Ino \<Rightarrow> u64 \<Rightarrow> u8 \<Rightarrow> u64 \<Rightarrow> u64 \<Rightarrow> bool" where
  "range_conflict db sid i owner ty start end' \<longleftrightarrow>
    (\<exists>sid' owner' b t. (sid', owner') \<noteq> (sid, owner) \<and> start \<le> b \<and> b \<le> end' \<and>
       t \<in> held_types (loadMyPlock sid' i owner' db) b \<and> (ty = F_WRLCK \<or> t = F_WRLCK))"

lemma loadMyPlock_row:
  "distinct (map plock_key (t_plock db)) \<Longrightarrow> k \<in> set (t_plock db) \<Longrightarrow>
   loadMyPlock (pk_sid k) (pk_inode k) (pk_owner k) db = pk_records k"
  using sel_in_distinct [of plock_key "t_plock db" k] by (simp add: loadMyPlock_def)

lemma loadMyPlock_in:
  assumes "r \<in> set (loadMyPlock sid i owner db)"
  obtains k where "k \<in> set (t_plock db)" "plock_key k = (i, sid, owner)" "r \<in> set (pk_records k)"
  using assms that sel_SomeD [of plock_key "(i, sid, owner)" "t_plock db"]
  by (cases "sel plock_key (i, sid, owner) (t_plock db)") (auto simp: loadMyPlock_def)

lemma range_conflict_iff:
  assumes wf: "plocks_wf db" and range: "start \<le> end'"
  shows "plockConflict (loadOtherPlocks sid i owner db) ty start end' \<noteq> None \<longleftrightarrow>
    range_conflict db sid i owner ty start end'"
proof
  assume "plockConflict (loadOtherPlocks sid i owner db) ty start end' \<noteq> None"
  then obtain r where r: "r \<in> set (loadOtherPlocks sid i owner db)" "start \<le> pl_end r" "pl_start r \<le> end'"
    "ty = F_WRLCK \<or> pl_typ r = F_WRLCK" using plockConflict_Some by blast
  then obtain k where k: "k \<in> set (t_plock db)" "pk_inode k = i" "(pk_sid k, pk_owner k) \<noteq> (sid, owner)"
    "r \<in> set (pk_records k)" by (auto simp: loadOtherPlocks_def)
  have le: "pl_start r \<le> pl_end r" using wf k by (auto simp: plocks_wf_def)
  have my: "loadMyPlock (pk_sid k) i (pk_owner k) db = pk_records k"
    using loadMyPlock_row [of db k] wf k by (simp add: plocks_wf_def)
  let ?b = "max start (pl_start r)"
  have "rec_covers ?b r" "start \<le> ?b" "?b \<le> end'" using r le range by (simp_all add: rec_covers_def)
  then have "start \<le> ?b \<and> ?b \<le> end' \<and> pl_typ r \<in> held_types (loadMyPlock (pk_sid k) i (pk_owner k) db) ?b"
    unfolding my held_typesE using k(4) by blast
  with k(3) r(4) show "range_conflict db sid i owner ty start end'" unfolding range_conflict_def by blast
next
  assume "range_conflict db sid i owner ty start end'"
  then obtain sid' owner' b r where o': "(sid', owner') \<noteq> (sid, owner)" and b: "start \<le> b" "b \<le> end'"
    and r: "r \<in> set (loadMyPlock sid' i owner' db)" "rec_covers b r" "ty = F_WRLCK \<or> pl_typ r = F_WRLCK"
    unfolding range_conflict_def held_typesE by blast
  from r(1) obtain k where "k \<in> set (t_plock db)" "plock_key k = (i, sid', owner')" "r \<in> set (pk_records k)"
    by (rule loadMyPlock_in)
  with o' have "r \<in> set (loadOtherPlocks sid i owner db)" by (auto simp: loadOtherPlocks_def)
  moreover have "\<not> (pl_end r < start \<or> end' < pl_start r)"
    using r(2) b unfolding rec_covers_def by (meson le_less_trans not_le order_trans)
  ultimately show "plockConflict (loadOtherPlocks sid i owner db) ty start end' \<noteq> None"
    using r(3) unfolding plockConflict_None by blast
qed

lemma Setlk_eq:
  assumes "s_faults s = []"
  shows "Setlk i owner ty start end' pid s =
    (if ty \<noteq> F_UNLCK \<and> plockConflict (loadOtherPlocks (lockSID (s_eng s)) i owner (s_db s)) ty start end' \<noteq> None
     then (Inl EAGAIN, s)
     else (Inr (), s\<lparr>s_db := put_plock i (lockSID (s_eng s)) owner
        (splitRange (loadMyPlock (lockSID (s_eng s)) i owner (s_db s)) ty start end' pid) (s_db s)\<rparr>))"
proof -
  let ?c = "ty \<noteq> F_UNLCK \<and> plockConflict (loadOtherPlocks (lockSID (s_eng s)) i owner (s_db s)) ty start end' \<noteq> None"
  have same: "s\<lparr>s_faults := []\<rparr> = s" "s\<lparr>s_db := d, s_faults := []\<rparr> = s\<lparr>s_db := d\<rparr>" for d
    using assms by (cases s, simp)+
  have "run_tx (Setlk_tx (lockSID (s_eng s)) i owner ty start end' pid) s = (if ?c then (Inl (Abort EAGAIN), s)
      else (Inr (), s\<lparr>s_db := put_plock i (lockSID (s_eng s)) owner
        (splitRange (loadMyPlock (lockSID (s_eng s)) i owner (s_db s)) ty start end' pid) (s_db s)\<rparr>))"
    unfolding run_tx_def withTx_def Setlk_tx_ok assms list.sel by (cases ?c) (simp_all add: same)
  note run = this
  show ?thesis unfolding Setlk_def run by (simp add: tx_errno_def)
qed

section \<open>Properties\<close>

text \<open>C4: Locks exclude each other across mounts.  Starting without locks, after any interleaving of lock calls
  by any number of mounts, under any SQL faults, an exclusive whole-file lock has no other holder on its
  inode, and a byte held for writing by one owner is held by no other owner.\<close>

theorem locks_mutual_exclusion:
  assumes "t_flock db = []" and "t_plock db = []" and "db' = lock_run sched es db"
  shows "(\<forall>a \<in> set (t_flock db'). \<forall>b \<in> set (t_flock db').
      fl_inode a = fl_inode b \<and> (fl_sid a, fl_owner a) \<noteq> (fl_sid b, fl_owner b) \<longrightarrow>
      fl_ltype a \<noteq> FlockExclusive \<and> fl_ltype b \<noteq> FlockExclusive) \<and>
    ((sid, owner) \<noteq> (sid', owner') \<and> F_WRLCK \<in> held_types (loadMyPlock sid i owner db') b \<longrightarrow>
      held_types (loadMyPlock sid' i owner' db') b = {})"
proof -
  have ok: "locks_ok db'"
    unfolding assms(3) by (rule lock_run_ok) (simp add: locks_ok_def assms flocks.exclusive_Nil plocks.exclusive_Nil)
  have f: "fl_ltype a \<noteq> FlockExclusive \<and> fl_ltype b \<noteq> FlockExclusive"
    if "a \<in> set (t_flock db')" "b \<in> set (t_flock db')" "fl_inode a = fl_inode b"
      "(fl_sid a, fl_owner a) \<noteq> (fl_sid b, fl_owner b)" for a b
    using flocks.exclusive_pair [of "t_flock db'" a b] ok that by (auto simp: locks_ok_def flock_compat_def)
  have p: "held_types (loadMyPlock sid' i owner' db') b = {}"
    if ne: "(sid, owner) \<noteq> (sid', owner')" and w: "F_WRLCK \<in> held_types (loadMyPlock sid i owner db') b"
  proof (rule ccontr)
    assume "held_types (loadMyPlock sid' i owner' db') b \<noteq> {}"
    then obtain y where y: "y \<in> set (loadMyPlock sid' i owner' db')" "rec_covers b y" by (auto simp: held_types_def)
    from w obtain x where x: "x \<in> set (loadMyPlock sid i owner db')" "rec_covers b x" "pl_typ x = F_WRLCK"
      unfolding held_typesE by blast
    from x(1) obtain k where k: "k \<in> set (t_plock db')" "plock_key k = (i, sid, owner)" "x \<in> set (pk_records k)"
      by (rule loadMyPlock_in)
    from y(1) obtain m where m: "m \<in> set (t_plock db')" "plock_key m = (i, sid', owner')" "y \<in> set (pk_records m)"
      by (rule loadMyPlock_in)
    have "plock_compat k m"
      using plocks.exclusive_pair [of "t_plock db'" k m] ok k m ne by (auto simp: locks_ok_def)
    with k m x y show False unfolding plock_compat_def recs_compat_def by auto
  qed
  show ?thesis using f p by blast
qed

definition demo_locks :: db where
  "demo_locks = lock_run [(0, [], LFlock 7 1 FlockExclusive), (1, [False, True], LFlock 7 2 FlockExclusive),
     (0, [], LSetlk 7 1 F_WRLCK 0 9 5), (1, [], LSetlk 7 2 F_WRLCK 4 12 6)]
     (\<lambda>k. Open_engine 1 (word_of_nat k)) empty_db"

lemma demo_locks_eq:
  "t_plock demo_locks = [\<lparr>pk_inode = 7, pk_sid = 256, pk_owner = 1,
     pk_records = [\<lparr>pl_typ = F_WRLCK, pl_start = 0, pl_end = 9, pl_pid = 5\<rparr>]\<rparr>]"
  "t_flock demo_locks = [\<lparr>fl_inode = 7, fl_sid = 256, fl_owner = 1, fl_ltype = FlockExclusive\<rparr>]"
  by (simp_all add: demo_locks_def Flock_def Setlk_def run_tx_def withTx_def Flock_tx_def Setlk_tx_def query_def exec_def
      tx_simps lockSID_def Open_engine_def flock_conflict_def flock_holders_def empty_db_def ins_flock_def upsert_def
      FlockExclusive_def FlockUnlock_def F_WRLCK_def F_UNLCK_def loadOtherPlocks_def loadMyPlock_def splitRange_def
      ins_plock_def Let_def)

theorem locks_mutual_exclusion_witness:
  "F_WRLCK \<in> held_types (loadMyPlock 256 7 1 demo_locks) 5 \<and> held_types (loadMyPlock 257 7 2 demo_locks) 5 = {}"
proof -
  have w: "F_WRLCK \<in> held_types (loadMyPlock 256 7 1 demo_locks) 5"
    by (simp add: loadMyPlock_def demo_locks_eq held_types_def rec_covers_def)
  have "t_flock empty_db = []" "t_plock empty_db = []" by (simp_all add: empty_db_def)
  from locks_mutual_exclusion [OF this demo_locks_def, of 256 1 257 2] w show ?thesis by simp
qed

text \<open>C13: A byte-range request of one owner changes exactly the requested bytes: inside the range the owner then
  holds the new type, or nothing after an unlock, and outside it every byte keeps its type.\<close>

theorem splitRange_bytes:
  assumes "start \<le> end'"
  shows "held_types (splitRange recs typ start end' pid) b =
    (if start \<le> b \<and> b \<le> end' then (if typ = F_UNLCK then {} else {typ}) else held_types recs b)"
  by (rule held_types_split [OF assms])

theorem splitRange_bytes_witness:
  "held_types (splitRange [\<lparr>pl_typ = F_RDLCK, pl_start = 0, pl_end = 100, pl_pid = 4\<rparr>] F_UNLCK 10 20 4) 21 = {F_RDLCK}"
  by (subst splitRange_bytes) (simp_all add: held_types_def rec_covers_def)

text \<open>C14: A byte-range request without SQL faults is refused with EAGAIN exactly when another owner holds a
  conflicting byte of the range, and then changes nothing; otherwise it succeeds, the owner's bytes change
  as requested and every other owner's records stay as they are.\<close>

theorem Setlk_result:
  assumes "s_faults s = []" and "plocks_wf (s_db s)" and "start \<le> end'"
    and "Setlk i owner ty start end' pid s = (r, s')" and "sid = lockSID (s_eng s)"
  shows "(if ty \<noteq> F_UNLCK \<and> range_conflict (s_db s) sid i owner ty start end'
      then r = Inl EAGAIN \<and> s_db s' = s_db s
      else r = Inr () \<and>
        held_types (loadMyPlock sid i owner (s_db s')) b =
          (if start \<le> b \<and> b \<le> end' then (if ty = F_UNLCK then {} else {ty})
           else held_types (loadMyPlock sid i owner (s_db s)) b) \<and>
        ((j, sid', owner') \<noteq> (i, sid, owner) \<longrightarrow>
          loadMyPlock sid' j owner' (s_db s') = loadMyPlock sid' j owner' (s_db s)))"
proof -
  have iff: "plockConflict (loadOtherPlocks sid i owner (s_db s)) ty start end' \<noteq> None \<longleftrightarrow>
      range_conflict (s_db s) sid i owner ty start end'" by (rule range_conflict_iff [OF assms(2,3)])
  note run = assms(4) [unfolded Setlk_eq [OF assms(1)], folded assms(5), unfolded iff]
  show ?thesis
  proof (cases "ty \<noteq> F_UNLCK \<and> range_conflict (s_db s) sid i owner ty start end'")
    case True
    with run show ?thesis by auto
  next
    case False
    with run have "r = Inr ()" and db: "s_db s' =
        put_plock i sid owner (splitRange (loadMyPlock sid i owner (s_db s)) ty start end' pid) (s_db s)"
      by (auto split: if_splits)
    with False show ?thesis
      by (simp add: loadMyPlock_put loadMyPlock_put_other held_types_split [OF assms(3)])
  qed
qed

theorem Setlk_result_witness:
  "fst (Setlk 7 2 F_WRLCK 4 12 6 \<lparr>s_db = demo_locks, s_eng = Open_engine 1 1, s_faults = [], s_now = 0\<rparr>) = Inl EAGAIN"
proof -
  let ?s = "\<lparr>s_db = demo_locks, s_eng = Open_engine 1 1, s_faults = [], s_now = 0\<rparr>"
  obtain r s' where run: "Setlk 7 2 F_WRLCK 4 12 6 ?s = (r, s')" by (rule prod.exhaust)
  have sid: "257 = lockSID (s_eng ?s)" by (simp add: lockSID_def Open_engine_def)
  have wf: "plocks_wf (s_db ?s)" by (simp add: plocks_wf_def demo_locks_eq)
  have "range_conflict (s_db ?s) 257 7 2 F_WRLCK 4 12"
    unfolding range_conflict_def
    by (intro exI [of _ 256] exI [of _ 1] exI [of _ 5] exI [of _ F_WRLCK])
      (simp add: loadMyPlock_def demo_locks_eq held_types_def rec_covers_def)
  then show ?thesis
    using Setlk_result [OF _ wf _ run sid] unfolding run by (simp add: F_WRLCK_def F_UNLCK_def)
qed

section \<open>Limits\<close>

text \<open>
  The transactions above run one after the other.  The database connection uses the default isolation
  level, READ COMMITTED, in which each statement sees what was committed when it started.  \<open>Flock_stmts\<close> is
  a lock call at that level: \<open>seen\<close> is what its SELECT reads, \<open>db\<close> what its INSERT finds.
\<close>

definition Flock_stmts :: "u64 \<Rightarrow> Ino \<Rightarrow> u64 \<Rightarrow> u8 \<Rightarrow> db \<Rightarrow> db \<Rightarrow> errno + db" where
  "Flock_stmts sid i owner ty seen db =
    (if ty = FlockUnlock then Inr (del_flock i sid owner db)
     else if flock_conflict sid owner ty (flock_holders i seen) then Inl EAGAIN
     else Inr (ins_flock i sid owner ty db))"

lemma Flock_stmts_serial:
  "Flock_tx sid i owner ty [] db = (case Flock_stmts sid i owner ty db db of
      Inl e \<Rightarrow> (Inl (Abort e), []) | Inr db' \<Rightarrow> (Inr ((), db'), []))"
  by (simp add: Flock_tx_ok Flock_stmts_def)

text \<open>Two calls whose SELECTs both run before either commits are both granted an exclusive lock.\<close>

theorem Flock_read_committed_race:
  assumes "flock_holders i db = []" and "(sid, owner) \<noteq> (sid', owner')"
  shows "\<exists>db1 db2. Flock_stmts sid i owner FlockExclusive db db = Inr db1 \<and>
    Flock_stmts sid' i owner' FlockExclusive db db1 = Inr db2 \<and>
    {\<lparr>fl_inode = i, fl_sid = sid, fl_owner = owner, fl_ltype = FlockExclusive\<rparr>,
      \<lparr>fl_inode = i, fl_sid = sid', fl_owner = owner', fl_ltype = FlockExclusive\<rparr>} \<subseteq> set (t_flock db2)"
  using assms
  by (auto simp: Flock_stmts_def flock_conflict_def ins_flock_def set_upsert FlockExclusive_def FlockUnlock_def)

lemma session_of_lockSID: "ucast (lockSID (Open_engine region session)) = session"
  by (rule bit_word_eqI) (simp add: lockSID_def Open_engine_def bit_simps)

text \<open>The session byte is drawn at every start, so a restarted node clears the locks of another session than
  the one its crashed incarnation used: the stale rows stay and keep refusing other owners.\<close>

theorem restart_keeps_stale_locks:
  assumes "session \<noteq> session'" and "s_eng s = Open_engine region session'"
    and "r \<in> set (t_flock (s_db s))" and "fl_sid r = lockSID (Open_engine region session)"
  shows "r \<in> set (t_flock (s_db (snd (ClearLocksForSID (lockSID (s_eng s)) s))))"
proof -
  let ?sid = "lockSID (Open_engine region session')"
  have "lockSID (Open_engine region session) \<noteq> ?sid" using assms(1) session_of_lockSID by metis
  then have keep: "r \<in> set (del fl_sid ?sid (t_flock (s_db s)))" using assms(3,4) by (simp add: set_del)
  have "r \<in> set (t_flock (snd_db (\<lambda>db. db\<lparr>t_flock := del fl_sid ?sid (t_flock db)\<rparr>)
      (\<lambda>db. db\<lparr>t_plock := del pk_sid ?sid (t_plock db)\<rparr>) s))"
    by (rule snd_db_preserves [where P = "\<lambda>d. r \<in> set (t_flock d)"]) (simp_all add: keep assms(3))
  then show ?thesis by (simp add: ClearLocksForSID_def snd_db_def case_prod_beta assms(2))
qed

end
