(* ===== verification/Meta_Gc.thy ===== *)
theory Meta_Gc
  imports Meta_Tree
begin

text \<open>
  Liveness queries and the reaper of orphaned inodes: mlfs/internal/meta/gc.go.
\<close>

section \<open>Definitions\<close>

definition live_ids :: "db \<Rightarrow> u64 set" where
  "live_ids db = sr_slice_id ` set (t_slice_ref db)"

definition LiveSliceIDs :: "sys \<Rightarrow> u64 set option \<times> sys" where
  "LiveSliceIDs s = run_stmt (\<lambda>db. Some (live_ids db, db)) s"

definition LiveSliceIDsIn :: "u64 list \<Rightarrow> sys \<Rightarrow> u64 set option \<times> sys" where
  "LiveSliceIDsIn ids s =
    (if ids = [] then (Some {}, s)
     else run_stmt (\<lambda>db. Some (sr_slice_id ` set (filter (\<lambda>r. sr_slice_id r \<in> set ids) (t_slice_ref db)), db)) s)"

text \<open>Rows without links that no edge names, the root excepted.\<close>

definition zombies :: "db \<Rightarrow> Ino list" where
  "zombies db = map n_inode (filter (\<lambda>n. n_nlink n \<le> 0 \<and> n_inode n \<noteq> RootInode \<and>
     (\<forall>e \<in> set (t_edge db). ed_inode e \<noteq> n_inode n)) (t_node db))"

fun reap_all :: "Ino list \<Rightarrow> nat \<Rightarrow> (db, nat) tx" where
  "reap_all [] reaped = tx_ret reaped"
| "reap_all (i # is) reaped = deleteInodeRows i (reap_all is (Suc reaped))"

definition ReapOrphanedInodes :: "sys \<Rightarrow> nat option \<times> sys" where
  "ReapOrphanedInodes s = (case run_tx (query zombies (\<lambda>zs. reap_all zs 0)) s of
      (Inl _, s') \<Rightarrow> (None, s') | (Inr n, s') \<Rightarrow> (Some n, s'))"

section \<open>Reaping\<close>

definition delete_rows :: "Ino \<Rightarrow> db \<Rightarrow> db" where
  "delete_rows i db = del_xattrs i (del_slices i (del_symlink i (del_node i db)))"

lemma deleteInodeRows_ok [tx_simps]: "deleteInodeRows i k [] db = k [] (delete_rows i db)"
  by (simp add: deleteInodeRows_def delete_rows_def tx_simps)

fun delete_all :: "Ino list \<Rightarrow> db \<Rightarrow> db" where
  "delete_all [] db = db"
| "delete_all (i # is) db = delete_all is (delete_rows i db)"

lemma reap_all_mono [fault_intros]: "fault_mono (reap_all is n)"
  by (induction "is" n rule: reap_all.induct) (auto intro: fault_intros)

lemma reap_all_ok: "reap_all is n [] db = (Inr (n + length is, delete_all is db), [])"
  by (induction "is" arbitrary: n db) (simp_all add: tx_simps)

lemma reap_tx_mono: "fault_mono (query zombies (\<lambda>zs. reap_all zs 0))"
  by (intro fault_intros)

lemma delete_rows_views [tree_simps]:
  "sel_node (delete_rows i db) j = (if j = i then None else sel_node db j)"
  "sel_edge (delete_rows i db) = sel_edge db" "ilinks (delete_rows i db) = ilinks db"
  "subdirs (delete_rows i db) = subdirs db" "t_edge (delete_rows i db) = t_edge db"
  by (simp_all add: delete_rows_def tree_simps) (simp add: stmt_defs)

lemma zombie_dead:
  assumes ok: "tree_ok db" and z: "i \<in> set (zombies db)"
  shows "ilinks db i = 0" and "sel_node db i = Some r \<Longrightarrow> n_type r \<noteq> TypeDirectory"
proof -
  from z obtain n where n: "n \<in> set (t_node db)" "n_inode n = i" "n_nlink n \<le> 0" "i \<noteq> RootInode"
    and e: "\<forall>e \<in> set (t_edge db). ed_inode e \<noteq> i" by (auto simp: zombies_def)
  show l: "ilinks db i = 0" using e by (simp add: ilinks_def cnt_0_iff)
  have "sel_node db i = Some n"
    using n sel_in_distinct [of n_inode "t_node db" n] tree_okD(1) [OF ok] by (simp add: sel_node_def uniq_def)
  moreover assume "sel_node db i = Some r"
  ultimately show "n_type r \<noteq> TypeDirectory"
    using tree_okD(3) [OF ok, of i r] n(3) by (auto simp: node_ok_def split: if_splits)
qed

lemma delete_rows_tree_ok:
  "tree_ok db \<Longrightarrow> ilinks db i = 0 \<Longrightarrow> (\<And>r. sel_node db i = Some r \<Longrightarrow> n_type r \<noteq> TypeDirectory) \<Longrightarrow> tree_ok (delete_rows i db)"
  unfolding delete_rows_def by (rule deleteInodeRows_tree_ok)

lemma delete_all_tree_ok:
  assumes "tree_ok db" and "\<forall>i \<in> set is. ilinks db i = 0 \<and> (\<forall>r. sel_node db i = Some r \<longrightarrow> n_type r \<noteq> TypeDirectory)"
  shows "tree_ok (delete_all is db)"
  using assms
proof (induction "is" arbitrary: db)
  case (Cons i "is")
  have "tree_ok (delete_rows i db)" using Cons.prems by (intro delete_rows_tree_ok) auto
  then show ?case using Cons.prems by (auto intro!: Cons.IH simp: tree_simps split: if_splits)
qed simp

lemma Reap_tree_ok: "tree_ok db \<Longrightarrow> tree_ok (delete_all (zombies db) db)"
  using zombie_dead by (intro delete_all_tree_ok) blast+

lemma delete_all_rows:
  "delete_all is db = db\<lparr>t_node := filter (\<lambda>r. n_inode r \<notin> set is) (t_node db),
     t_symlink := filter (\<lambda>r. sy_inode r \<notin> set is) (t_symlink db),
     t_slice_ref := filter (\<lambda>r. sr_inode r \<notin> set is) (t_slice_ref db),
     t_xattr := filter (\<lambda>r. x_inode r \<notin> set is) (t_xattr db)\<rparr>"
proof (induction "is" arbitrary: db)
  case (Cons i "is")
  then show ?case by (simp add: delete_rows_def stmt_defs del_def filter_filter conj_commute)
qed simp

lemma zombies_iff:
  assumes "tree_ok db"
  shows "i \<in> set (zombies db) \<longleftrightarrow> (\<exists>r. sel_node db i = Some r \<and> n_nlink r \<le> 0) \<and> ilinks db i = 0 \<and> i \<noteq> RootInode"
proof -
  have "sel_node db i = Some n \<longleftrightarrow> n \<in> set (t_node db) \<and> n_inode n = i" for n
    using sel_in_distinct [of n_inode "t_node db" n] tree_okD(1) [OF assms]
    by (auto simp: sel_node_def uniq_def dest: sel_Some_in sel_Some_key)
  then show ?thesis by (auto simp: zombies_def ilinks_def cnt_0_iff)
qed

text \<open>C15: Reaping removes exactly the orphans.  A successful run on a well-formed tree deletes the node, symlink, slice
  and attribute rows of the inodes other than the root that have a row with no link left and no name, and no other row of
  any table; it reports how many inodes went and leaves a well-formed tree.  A failed run changes nothing.\<close>

theorem ReapOrphanedInodes_exact:
  assumes "tree_ok (s_db s)" and "ReapOrphanedInodes s = (r, s')"
  shows "tree_ok (s_db s') \<and>
    (case r of
       None \<Rightarrow> s_db s' = s_db s
     | Some n \<Rightarrow> \<exists>dead. finite dead \<and> n = card dead \<and>
         (\<forall>i. i \<in> dead \<longleftrightarrow> (\<exists>nr. sel_node (s_db s) i = Some nr \<and> n_nlink nr \<le> 0) \<and> ilinks (s_db s) i = 0 \<and> i \<noteq> RootInode) \<and>
         s_db s' = (s_db s)\<lparr>t_node := filter (\<lambda>r. n_inode r \<notin> dead) (t_node (s_db s)),
           t_symlink := filter (\<lambda>r. sy_inode r \<notin> dead) (t_symlink (s_db s)),
           t_slice_ref := filter (\<lambda>r. sr_inode r \<notin> dead) (t_slice_ref (s_db s)),
           t_xattr := filter (\<lambda>r. x_inode r \<notin> dead) (t_xattr (s_db s))\<rparr>)"
proof -
  let ?zs = "zombies (s_db s)"
  obtain q t where run: "run_tx (query zombies (\<lambda>zs. reap_all zs 0)) s = (q, t)" by (rule prod.exhaust)
  show ?thesis
  proof (cases q)
    case (Inl e)
    then show ?thesis using assms run_tx_atomic [of _ s e t] run by (auto simp: ReapOrphanedInodes_def)
  next
    case (Inr n)
    then have r: "r = Some n" "s' = t" using assms(2) run by (simp_all add: ReapOrphanedInodes_def)
    have "reap_all ?zs 0 [] (s_db s) = (Inr (n, s_db s'), [])"
      using run_tx_commit [OF reap_tx_mono run [unfolded Inr]] r by (simp add: tx_simps)
    then have n: "n = length ?zs" and db: "s_db s' = delete_all ?zs (s_db s)" by (simp_all add: reap_all_ok)
    have "distinct ?zs" using tree_okD(1) [OF assms(1)] by (simp add: zombies_def uniq_def distinct_map_filter)
    then have card: "n = card (set ?zs)" by (simp add: n distinct_card)
    have tree: "tree_ok (s_db s')" unfolding db by (rule Reap_tree_ok [OF assms(1)])
    show ?thesis unfolding r(1) option.case
      by (intro conjI exI [of _ "set ?zs"] allI tree card finite_set zombies_iff [OF assms(1)] db [unfolded delete_all_rows])
  qed
qed

definition demo_orphan :: db where
  "demo_orphan = empty_db\<lparr>t_node := [root_row 0, (root_row 0)\<lparr>n_inode := 9, n_type := TypeFile, n_nlink := 0\<rparr>],
     t_slice_ref := [\<lparr>sr_id = 1, sr_inode = 9, sr_indx = 0, sr_pos = 0, sr_slice_id = 5, sr_size = 4, sr_soff = 0, sr_slen = 4\<rparr>]\<rparr>"

lemma demo_orphan_ok: "tree_ok demo_orphan"
proof -
  have n: "sel_node demo_orphan i = (if i = RootInode then Some (root_row 0)
      else if i = 9 then Some ((root_row 0)\<lparr>n_inode := 9, n_type := TypeFile, n_nlink := 0\<rparr>) else None)" for i
    by (simp add: demo_orphan_def sel_node_def root_row_def RootInode_def)
  have e: "sel_edge demo_orphan p nm = None" "ilinks demo_orphan i = 0" "subdirs demo_orphan i = 0" for p nm i
    by (simp_all add: demo_orphan_def sel_edge_def ilinks_def subdirs_def empty_db_def)
  have u: "uniq demo_orphan" by (simp add: uniq_def demo_orphan_def empty_db_def root_row_def RootInode_def)
  show ?thesis
    unfolding tree_ok_def using u by (auto simp: n e node_ok_def root_row_def TypeDirectory_def TypeFile_def RootInode_def)
qed

theorem ReapOrphanedInodes_exact_witness:
  "\<exists>dead. (\<forall>i. i \<in> dead \<longleftrightarrow> i = 9) \<and>
     s_db (snd (ReapOrphanedInodes \<lparr>s_db = demo_orphan, s_eng = Open_engine 0 0, s_faults = [], s_now = 0\<rparr>)) =
       demo_orphan\<lparr>t_node := filter (\<lambda>r. n_inode r \<notin> dead) (t_node demo_orphan), t_slice_ref := [], t_xattr := []\<rparr>"
proof -
  let ?s = "\<lparr>s_db = demo_orphan, s_eng = Open_engine 0 0, s_faults = [], s_now = 0\<rparr>"
  obtain r s' where run: "ReapOrphanedInodes ?s = (r, s')" by (rule prod.exhaust)
  have z: "(\<exists>nr. sel_node demo_orphan i = Some nr \<and> n_nlink nr \<le> 0) \<and> ilinks demo_orphan i = 0 \<and> i \<noteq> RootInode \<longleftrightarrow> i = 9" for i
    by (auto simp: sel_node_def demo_orphan_def empty_db_def root_row_def RootInode_def ilinks_def)
  obtain n where n: "r = Some n" using run by (auto simp: ReapOrphanedInodes_def run_tx_def withTx_def tx_simps reap_all_ok)
  from ReapOrphanedInodes_exact [of ?s, OF _ run] demo_orphan_ok obtain dead where "\<forall>i. i \<in> dead \<longleftrightarrow> i = 9"
    "s_db s' = demo_orphan\<lparr>t_node := filter (\<lambda>r. n_inode r \<notin> dead) (t_node demo_orphan),
       t_symlink := filter (\<lambda>r. sy_inode r \<notin> dead) (t_symlink demo_orphan),
       t_slice_ref := filter (\<lambda>r. sr_inode r \<notin> dead) (t_slice_ref demo_orphan),
       t_xattr := filter (\<lambda>r. x_inode r \<notin> dead) (t_xattr demo_orphan)\<rparr>"
    unfolding n option.case sys.simps z by auto
  then show ?thesis unfolding run snd_conv by (intro exI [of _ dead]) (simp add: demo_orphan_def empty_db_def)
qed

end
