(* ===== verification/Meta_Alloc.thy ===== *)
theory Meta_Alloc
  imports Meta_Engine
begin

text \<open>
  Uniqueness of the identifiers that concurrently running mounts draw from the shared counters.
  \<open>nextInode\<close> and \<open>NewSlice\<close> follow one protocol, stated as the locale \<open>batch_counter\<close>: serve from the
  mount's reserved batch, and reserve the next batch of 1024 values from the database when it is used
  up.  The locale is interpreted for both, and the uniqueness of the values drawn by any interleaving
  of mounts is proved once.
\<close>

section \<open>Interleaved allocation by several mounts\<close>

text \<open>
  A schedule names, for each allocation, the mount that makes it and the faults its SQL statement
  meets.  The result collects the values handed out.
\<close>

fun alloc_run :: "(sys \<Rightarrow> u64 option \<times> sys) \<Rightarrow> (nat \<times> faults) list \<Rightarrow> (nat \<Rightarrow> engine) \<Rightarrow> db \<Rightarrow> u64 list"
  where
  "alloc_run tk [] es db = []"
| "alloc_run tk ((k, fs) # rest) es db =
    (case tk \<lparr>s_db = db, s_eng = es k, s_faults = fs, s_now = 0\<rparr> of
       (None, s') \<Rightarrow> alloc_run tk rest (es(k := s_eng s')) (s_db s')
     | (Some x, s') \<Rightarrow> x # alloc_run tk rest (es(k := s_eng s')) (s_db s'))"

definition counter_value :: "string \<Rightarrow> db \<Rightarrow> int option" where
  "counter_value nm db = map_option ct_value (sel ct_name nm (t_counter db))"

section \<open>The protocol\<close>

locale batch_counter =
  fixes nxt fin :: "engine \<Rightarrow> u64"
    and tk :: "sys \<Rightarrow> u64 option \<times> sys"
    and cname :: string
  assumes take_local:
      "nxt (s_eng s) < fin (s_eng s) \<Longrightarrow> tk s = (r, s') \<Longrightarrow>
         r = Some (nxt (s_eng s)) \<and> s_db s' = s_db s \<and>
         nxt (s_eng s') = nxt (s_eng s) + 1 \<and> fin (s_eng s') = fin (s_eng s)"
    and take_refill:
      "\<not> nxt (s_eng s) < fin (s_eng s) \<Longrightarrow> tk s = (Some c, s') \<Longrightarrow>
         \<exists>v. counter_value cname (s_db s) = Some v \<and>
             counter_value cname (s_db s') = Some (v + inodeBatch) \<and>
             c = word_of_int v \<and> nxt (s_eng s') = word_of_int v + 1 \<and>
             fin (s_eng s') = word_of_int (v + inodeBatch)"
    and take_fail:
      "tk s = (None, s') \<Longrightarrow> s_db s' = s_db s \<and>
         nxt (s_eng s') = nxt (s_eng s) \<and> fin (s_eng s') = fin (s_eng s)"
begin

definition batch :: "engine \<Rightarrow> int set" where
  "batch e = {uint (nxt e) ..< uint (fin e)}"

text \<open>
  The invariant of a run: the counter stands at \<open>v\<close>, the reserved batches lie below it and are
  disjoint, and no value handed out lies in a batch.
\<close>

definition alloc_inv :: "int \<Rightarrow> int \<Rightarrow> int set \<Rightarrow> (nat \<Rightarrow> engine) \<Rightarrow> db \<Rightarrow> bool" where
  "alloc_inv lo v used es db \<longleftrightarrow>
     counter_value cname db = Some v \<and> 0 \<le> lo \<and> lo \<le> v \<and> used \<subseteq> {lo ..< v} \<and>
     (\<forall>k. batch (es k) \<subseteq> {lo ..< v} \<and> batch (es k) \<inter> used = {}) \<and>
     (\<forall>j k. j \<noteq> k \<longrightarrow> batch (es j) \<inter> batch (es k) = {})"

lemma alloc_inv_local:
  assumes inv: "alloc_inv lo v used es db"
    and lt: "nxt (es k) < fin (es k)"
    and e': "nxt e' = nxt (es k) + 1" "fin e' = fin (es k)"
  shows "alloc_inv lo v (insert (uint (nxt (es k))) used) (es(k := e')) db"
    and "uint (nxt (es k)) \<notin> used" and "lo \<le> uint (nxt (es k))" and "uint (nxt (es k)) < v"
proof -
  have lt': "uint (nxt (es k)) < uint (fin (es k))"
    using lt by (simp add: word_less_def)
  have "uint (nxt (es k)) + 1 < 2 ^ 64"
    using lt' uint_lt2p [of "fin (es k)"] by simp
  then have nx: "uint (nxt (es k) + 1) = uint (nxt (es k)) + 1"
    using uint_ge_0 [of "nxt (es k)"] by (simp add: uint_word_ariths)
  have old: "uint (nxt (es k)) \<in> batch (es k)"
    using lt' by (simp add: batch_def)
  have new: "batch e' = batch (es k) - {uint (nxt (es k))}"
    by (auto simp: batch_def e' nx)
  have sub: "\<And>j. batch (es j) \<subseteq> {lo ..< v}" and lov: "0 \<le> lo" "lo \<le> v" and used: "used \<subseteq> {lo ..< v}"
    and uj: "\<And>j. batch (es j) \<inter> used = {}" and dj: "\<And>i j. i \<noteq> j \<Longrightarrow> batch (es i) \<inter> batch (es j) = {}"
    and ctr: "counter_value cname db = Some v"
    using inv by (simp_all add: alloc_inv_def)
  have nk: "uint (nxt (es k)) \<in> {lo ..< v}" using sub old by blast
  show "uint (nxt (es k)) \<notin> used" using uj [of k] old by blast
  show "lo \<le> uint (nxt (es k))" and "uint (nxt (es k)) < v" using nk by simp_all
  have smaller: "batch ((es(k := e')) j) \<subseteq> batch (es j)" for j
    by (simp add: new)
  have b: "batch ((es(k := e')) j) \<subseteq> {lo ..< v} \<and>
      batch ((es(k := e')) j) \<inter> insert (uint (nxt (es k))) used = {}" for j
  proof (cases "j = k")
    case True
    then show ?thesis using sub [of k] uj [of k] by (auto simp: new)
  next
    case False
    then have "uint (nxt (es k)) \<notin> batch (es j)" using dj [of j k] old by blast
    with False show ?thesis using sub [of j] uj [of j] by auto
  qed
  have d: "batch ((es(k := e')) i) \<inter> batch ((es(k := e')) j) = {}" if "i \<noteq> j" for i j
    using smaller [of i] smaller [of j] dj [OF that] by blast
  show "alloc_inv lo v (insert (uint (nxt (es k))) used) (es(k := e')) db"
    unfolding alloc_inv_def using ctr lov used nk b d by blast
qed

lemma alloc_inv_refill:
  assumes inv: "alloc_inv lo v used es db" and bd: "v + inodeBatch < 2 ^ 63"
    and empty: "\<not> nxt (es k) < fin (es k)"
    and e': "nxt e' = word_of_int v + 1" "fin e' = word_of_int (v + inodeBatch)"
    and db': "counter_value cname db' = Some (v + inodeBatch)"
  shows "alloc_inv lo (v + inodeBatch) (insert v used) (es(k := e')) db'"
    and "uint (word_of_int v :: u64) = v" and "v \<notin> used"
proof -
  have v0: "0 \<le> v" using inv by (simp add: alloc_inv_def)
  then show v: "uint (word_of_int v :: u64) = v"
    using bd by (simp add: uint_word_of_int inodeBatch_def)
  have vb: "uint (word_of_int (v + inodeBatch) :: u64) = v + inodeBatch"
    using v0 bd by (intro uint_word_of_int_64) (simp_all add: inodeBatch_def)
  have v1: "uint (word_of_int v + 1 :: u64) = v + 1"
    using v v0 bd by (simp add: uint_word_ariths inodeBatch_def)
  have new: "batch e' = {v + 1 ..< v + inodeBatch}"
    unfolding batch_def e' v1 vb ..
  show "v \<notin> used" using inv by (auto simp: alloc_inv_def)
  have old: "\<And>j. batch (es j) \<subseteq> {lo ..< v}" and lov: "0 \<le> lo" "lo \<le> v" and used: "used \<subseteq> {lo ..< v}"
    and uj: "\<And>j. batch (es j) \<inter> used = {}" and dj: "\<And>i j. i \<noteq> j \<Longrightarrow> batch (es i) \<inter> batch (es j) = {}"
    using inv by (simp_all add: alloc_inv_def)
  have ib: "0 < inodeBatch" by (simp add: inodeBatch_def)
  have b: "batch ((es(k := e')) j) \<subseteq> {lo ..< v + inodeBatch} \<and>
      batch ((es(k := e')) j) \<inter> insert v used = {}" for j
  proof (cases "j = k")
    case True
    then show ?thesis using lov used by (auto simp: new)
  next
    case False
    then show ?thesis using old [of j] uj [of j] ib by auto
  qed
  have d: "batch ((es(k := e')) i) \<inter> batch ((es(k := e')) j) = {}" if "i \<noteq> j" for i j
  proof -
    have far: "\<And>m. batch (es m) \<inter> {v + 1 ..< v + inodeBatch} = {}"
      using old by fastforce
    show ?thesis using that dj [OF that] far by (auto simp: new)
  qed
  have u: "insert v used \<subseteq> {lo ..< v + inodeBatch}"
    using used lov ib by auto
  show "alloc_inv lo (v + inodeBatch) (insert v used) (es(k := e')) db'"
    unfolding alloc_inv_def using db' lov ib u b d by (intro conjI allI impI) auto
qed

lemma alloc_run_unique:
  assumes "alloc_inv lo v used es db" and "v + inodeBatch * int (length sched) < 2 ^ 63"
  shows "distinct (alloc_run tk sched es db) \<and>
    (\<forall>x \<in> set (alloc_run tk sched es db). lo \<le> uint x \<and> uint x \<notin> used \<and>
       uint x < v + inodeBatch * int (length sched))"
  using assms
proof (induction sched arbitrary: v used es db)
  case Nil
  then show ?case by simp
next
  case (Cons p sched)
  obtain k fs where p: "p = (k, fs)" by (rule prod.exhaust)
  define s where "s = \<lparr>s_db = db, s_eng = es k, s_faults = fs, s_now = 0\<rparr>"
  have sd: "s_db s = db" "s_eng s = es k" by (simp_all add: s_def)
  obtain r s' where t: "tk s = (r, s')" by (rule prod.exhaust)
  have len: "v + inodeBatch + inodeBatch * int (length sched) < 2 ^ 63"
    using Cons.prems(2) by (simp add: distrib_left add.assoc add.commute)
  have vb: "v + inodeBatch < 2 ^ 63"
    using len by (simp add: inodeBatch_def)
  have ib: "0 < inodeBatch" and il: "0 \<le> inodeBatch * int (length sched)" by (simp_all add: inodeBatch_def)
  have grow: "v + inodeBatch * int (length (p # sched)) = v + inodeBatch + inodeBatch * int (length sched)"
    by (simp add: distrib_left)
  have vl: "v + inodeBatch * int (length sched) < 2 ^ 63"
    using len by (simp add: inodeBatch_def)
  define es' where "es' = es(k := s_eng s')"
  have le: "v + inodeBatch * int (length sched) \<le> v + inodeBatch + inodeBatch * int (length sched)"
    using ib by simp
  show ?case
  proof (cases r)
    case None
    have st: "s_db s' = db" "nxt (s_eng s') = nxt (es k)" "fin (s_eng s') = fin (es k)"
      using take_fail [of s s'] t None sd by auto
    have inv: "alloc_inv lo v used es' db"
      using Cons.prems(1) st by (simp add: alloc_inv_def batch_def es'_def)
    have run: "alloc_run tk (p # sched) es db = alloc_run tk sched es' db"
      using t None st(1) by (simp add: p s_def es'_def)
    show ?thesis
      unfolding run grow using Cons.IH [OF inv vl] le by (meson order_less_le_trans)
  next
    case (Some x)
    have run: "alloc_run tk (p # sched) es db = x # alloc_run tk sched es' (s_db s')"
      using t Some by (simp add: p s_def es'_def)
    show ?thesis
    proof (cases "nxt (es k) < fin (es k)")
      case True
      have st: "x = nxt (es k)" "s_db s' = db" "nxt (s_eng s') = nxt (es k) + 1"
          "fin (s_eng s') = fin (es k)"
        using take_local [of s r s'] t True Some sd by auto
      note inv = alloc_inv_local [OF Cons.prems(1) True st(3,4), folded es'_def]
      have ih: "distinct (alloc_run tk sched es' db)"
        "\<And>y. y \<in> set (alloc_run tk sched es' db) \<Longrightarrow> lo \<le> uint y \<and>
           uint y \<notin> insert (uint (nxt (es k))) used \<and> uint y < v + inodeBatch + inodeBatch * int (length sched)"
        using Cons.IH [OF inv(1) vl] le order_less_le_trans by blast+
      have new: "nxt (es k) \<notin> set (alloc_run tk sched es' db)" using ih(2) by blast
      have "uint (nxt (es k)) < v + inodeBatch + inodeBatch * int (length sched)"
        using inv(4) ib il by linarith
      with new show ?thesis
        unfolding run st(1,2) grow using ih inv(2,3) by simp
    next
      case False
      obtain w where w: "counter_value cname db = Some w" "x = word_of_int w"
          "counter_value cname (s_db s') = Some (w + inodeBatch)"
          "nxt (s_eng s') = word_of_int w + 1" "fin (s_eng s') = word_of_int (w + inodeBatch)"
        using take_refill [of s x s'] t False Some sd by auto
      have wv: "w = v" using w(1) Cons.prems(1) by (simp add: alloc_inv_def)
      have lov: "lo \<le> v" using Cons.prems(1) by (simp add: alloc_inv_def)
      note inv = alloc_inv_refill [OF Cons.prems(1) vb False w(4,5,3) [unfolded wv], folded es'_def]
      have "v < v + inodeBatch + inodeBatch * int (length sched)" using ib il by linarith
      then show ?thesis
        unfolding run w(2) wv grow using Cons.IH [OF inv(1) len] inv(2,3) lov by auto
    qed
  qed
qed

lemma fresh_mounts_unique:
  assumes "counter_value cname db = Some v" and "0 \<le> v" and "\<And>k. nxt (es k) = fin (es k)"
    and "v + inodeBatch * int (length sched) < 2 ^ 63"
  shows "distinct (alloc_run tk sched es db)"
    and "x \<in> set (alloc_run tk sched es db) \<Longrightarrow>
      v \<le> uint x \<and> uint x < v + inodeBatch * int (length sched)"
proof -
  have "alloc_inv v v {} es db"
    using assms(1-3) by (simp add: alloc_inv_def batch_def)
  from alloc_run_unique [OF this assms(4)]
  show "distinct (alloc_run tk sched es db)"
    and "x \<in> set (alloc_run tk sched es db) \<Longrightarrow>
      v \<le> uint x \<and> uint x < v + inodeBatch * int (length sched)" by auto
qed

end

section \<open>Both allocators follow it\<close>

lemma bump_counter_Some:
  assumes "bump_counter nm db = Some (v', db')"
  shows "\<exists>v. counter_value nm db = Some v \<and> v' = v + inodeBatch \<and>
    counter_value nm db' = Some (v + inodeBatch) \<and> v + inodeBatch < 2 ^ 63 \<and>
    db' = db\<lparr>t_counter := t_counter db'\<rparr>"
  using assms
  by (auto simp: bump_counter_def counter_value_def sel_upd int8_def split: option.splits if_splits)

lemma word_of_int_sub_batch: "word_of_int (v + inodeBatch) - word_of_int inodeBatch = (word_of_int v :: u64)"
  by simp

lemma NewSlice_refill:
  assumes "\<not> e_sliceNext (s_eng s) < e_sliceEnd (s_eng s)" and "NewSlice s = (Some c, s')"
  shows "\<exists>v. counter_value ''nextslice'' (s_db s) = Some v \<and>
    counter_value ''nextslice'' (s_db s') = Some (v + inodeBatch) \<and> c = word_of_int v \<and>
    e_sliceNext (s_eng s') = word_of_int v + 1 \<and> e_sliceEnd (s_eng s') = word_of_int (v + inodeBatch) \<and>
    v + inodeBatch < 2 ^ 63"
proof -
  obtain r s1 where st: "run_stmt (bump_counter ''nextslice'') s = (r, s1)" by (rule prod.exhaust)
  with assms obtain v' where r: "r = Some v'" by (cases r) (auto simp: NewSlice_def Let_def)
  have c: "c = word_of_int v' - word_of_int inodeBatch"
    and s': "s' = s1\<lparr>s_eng := (s_eng s)\<lparr>e_sliceEnd := word_of_int v', e_sliceNext := c + 1\<rparr>\<rparr>"
    using assms st r by (auto simp: NewSlice_def Let_def)
  from run_stmt_Some [OF st [unfolded r]] obtain v where v: "counter_value ''nextslice'' (s_db s) = Some v"
    "v' = v + inodeBatch" "counter_value ''nextslice'' (s_db s1) = Some (v + inodeBatch)"
    "v + inodeBatch < 2 ^ 63"
    using bump_counter_Some by blast
  have cv: "c = word_of_int v" unfolding c v(2) by (rule word_of_int_sub_batch)
  show ?thesis using v cv by (intro exI [of _ v]) (simp add: s')
qed

lemma takeIno_refill:
  assumes "\<not> e_inoNext (s_eng s) < e_inoEnd (s_eng s)" and "takeIno s = (Some c, s')"
  shows "\<exists>v. counter_value ''nextinode'' (s_db s) = Some v \<and>
    counter_value ''nextinode'' (s_db s') = Some (v + inodeBatch) \<and> c = word_of_int v \<and>
    e_inoNext (s_eng s') = word_of_int v + 1 \<and> e_inoEnd (s_eng s') = word_of_int (v + inodeBatch)"
proof -
  obtain r s1 where st: "run_stmt (bump_counter ''nextinode'') s = (r, s1)" by (rule prod.exhaust)
  with assms obtain v' where r: "r = Some v'" by (cases r) (auto simp: takeIno_def Let_def)
  have c: "c = word_of_int v' - word_of_int inodeBatch"
    and s': "s' = s1\<lparr>s_eng := (s_eng s)\<lparr>e_inoEnd := word_of_int v', e_inoNext := c + 1\<rparr>\<rparr>"
    using assms st r by (auto simp: takeIno_def Let_def)
  from run_stmt_Some [OF st [unfolded r]] obtain v where v: "counter_value ''nextinode'' (s_db s) = Some v"
    "v' = v + inodeBatch" "counter_value ''nextinode'' (s_db s1) = Some (v + inodeBatch)"
    using bump_counter_Some by blast
  have cv: "c = word_of_int v" unfolding c v(2) by (rule word_of_int_sub_batch)
  show ?thesis using v cv by (intro exI [of _ v]) (simp add: s')
qed

lemma NewSlice_None:
  assumes "NewSlice s = (None, s')"
  shows "s_db s' = s_db s" and "s_eng s' = s_eng s"
proof -
  obtain r s1 where st: "run_stmt (bump_counter ''nextslice'') s = (r, s1)" by (rule prod.exhaust)
  with assms have "r = None" "s' = s1"
    by (cases r; simp add: NewSlice_def Let_def split: if_splits)+
  with st show "s_db s' = s_db s" and "s_eng s' = s_eng s"
    by (auto dest: run_stmt_None run_stmt_frame)
qed

lemma takeIno_None:
  assumes "takeIno s = (None, s')"
  shows "s_db s' = s_db s" and "s_eng s' = s_eng s"
proof -
  obtain r s1 where st: "run_stmt (bump_counter ''nextinode'') s = (r, s1)" by (rule prod.exhaust)
  with assms have "r = None" "s' = s1"
    by (cases r; simp add: takeIno_def Let_def split: if_splits)+
  with st show "s_db s' = s_db s" and "s_eng s' = s_eng s"
    by (auto dest: run_stmt_None run_stmt_frame)
qed

interpretation slice_ids: batch_counter e_sliceNext e_sliceEnd NewSlice "''nextslice''"
proof (unfold_locales, goal_cases)
  case (1 s r s')
  then show ?case by (auto simp: NewSlice_def Let_def)
next
  case (2 s c s')
  then show ?case using NewSlice_refill by blast
next
  case (3 s s')
  then show ?case by (simp add: NewSlice_None)
qed

interpretation inode_counters: batch_counter e_inoNext e_inoEnd takeIno "''nextinode''"
proof (unfold_locales, goal_cases)
  case (1 s r s')
  then show ?case by (auto simp: takeIno_def Let_def)
next
  case (2 s c s')
  then show ?case by (rule takeIno_refill)
next
  case (3 s s')
  then show ?case by (simp add: takeIno_None)
qed

section \<open>Inode numbers\<close>

lemma inoLowMask_mask: "inoLowMask = mask 48"
  by (simp add: inoLowMask_def mask_eq_exp_minus_1)

text \<open>The low 48 bits of an inode number are the counter value it was composed from.\<close>

lemma compose_ino_low: "and (compose_ino p c) inoLowMask = and c inoLowMask"
  unfolding compose_ino_def inoLowMask_mask
  by (rule bit_word_eqI) (auto simp: bit_simps)

lemma low_counter:
  assumes "uint c < 2 ^ 48" shows "and c inoLowMask = (c :: u64)"
proof -
  have "uint (take_bit 48 c) = uint c"
    using assms by (simp add: unsigned_take_bit_eq take_bit_int_eq_self)
  then have "take_bit 48 c = c" by (metis word_of_int_uint)
  then show ?thesis
    by (simp add: inoLowMask_mask flip: take_bit_eq_mask)
qed

lemma nextInode_runs_takeIno:
  "map (\<lambda>x. and x inoLowMask) (alloc_run nextInode sched es db) =
   map (\<lambda>x. and x inoLowMask) (alloc_run takeIno sched es db)"
proof (induction sched arbitrary: es db)
  case Nil
  then show ?case by simp
next
  case (Cons p sched)
  obtain k fs where p: "p = (k, fs)" by (rule prod.exhaust)
  obtain r s' where t: "takeIno \<lparr>s_db = db, s_eng = es k, s_faults = fs, s_now = 0\<rparr> = (r, s')"
    by (rule prod.exhaust)
  then have "nextInode \<lparr>s_db = db, s_eng = es k, s_faults = fs, s_now = 0\<rparr> =
      (map_option (compose_ino (e_prefix (s_eng s'))) r, s')"
    by (cases r) (simp_all add: nextInode_def)
  with t show ?case
    by (cases r) (simp_all add: p compose_ino_low Cons.IH [of "es(k := s_eng s')" "s_db s'", simplified fun_upd_def] fun_upd_def)
qed

lemma nextInode_unique:
  assumes "counter_value ''nextinode'' db = Some v" and "0 \<le> v" and "\<And>k. e_inoNext (es k) = e_inoEnd (es k)"
    and "v + inodeBatch * int (length sched) < 2 ^ 48"
  shows "distinct (alloc_run nextInode sched es db)"
    and "x \<in> set (alloc_run nextInode sched es db) \<Longrightarrow> v \<le> uint (and x inoLowMask)"
proof -
  let ?raw = "alloc_run takeIno sched es db"
  have b: "v + inodeBatch * int (length sched) < 2 ^ 63" using assms(4) by simp
  note raw = inode_counters.fresh_mounts_unique [OF assms(1-3) b]
  have id: "and c inoLowMask = c" if "c \<in> set ?raw" for c
    using raw(2) [OF that] assms(4) by (intro low_counter) simp
  have m: "map (\<lambda>x. and x inoLowMask) (alloc_run nextInode sched es db) = ?raw"
    unfolding nextInode_runs_takeIno by (rule map_idI) (rule id)
  with raw(1) have "distinct (map (\<lambda>x. and x inoLowMask) (alloc_run nextInode sched es db))" by simp
  then show "distinct (alloc_run nextInode sched es db)" by (simp add: distinct_map)
  assume "x \<in> set (alloc_run nextInode sched es db)"
  then have "and x inoLowMask \<in> set (map (\<lambda>x. and x inoLowMask) (alloc_run nextInode sched es db))" by simp
  then have "and x inoLowMask \<in> set ?raw" unfolding m .
  from raw(2) [OF this] show "v \<le> uint (and x inoLowMask)" by simp
qed

section \<open>Properties\<close>

definition fresh_db :: db where
  "fresh_db = s_db (snd (bootstrap
     \<lparr>s_db = empty_db, s_eng = Open_engine 0 0, s_faults = [], s_now = 0\<rparr>))"

lemma fresh_db_counters:
  "counter_value ''nextinode'' fresh_db = Some 2" "counter_value ''nextslice'' fresh_db = Some 1"
  by (simp_all add: fresh_db_def bootstrap_def bootstrap_tx_def run_tx_def tx_simps seed_node_def ins_node_def
      root_row_def sel_node_def sel_def empty_db_def seed_counter_def counter_value_def RootInode_def)

text \<open>C6: Slice ids are globally unique.  Any number of mounts, each starting with an empty batch,
  call \<open>NewSlice\<close> against one shared database in any interleaving and under any schedule of SQL
  faults; no id is handed out twice, and none is smaller than the counter's first value.\<close>

theorem NewSlice_unique:
  assumes "counter_value ''nextslice'' db = Some v" and "0 \<le> v"
    and "\<And>k. e_sliceNext (es k) = e_sliceEnd (es k)"
    and "v + inodeBatch * int (length sched) < 2 ^ 63"
  shows "distinct (alloc_run NewSlice sched es db) \<and> (\<forall>x \<in> set (alloc_run NewSlice sched es db). v \<le> uint x)"
  using slice_ids.fresh_mounts_unique [of db v es sched, OF assms] by blast

theorem NewSlice_unique_witness:
  "distinct (alloc_run NewSlice [(0, []), (1, [True]), (1, []), (0, [])] (\<lambda>k. Open_engine 1 (word_of_nat k)) fresh_db)"
proof -
  have "1 + inodeBatch * int (length [(0 :: nat, [] :: faults), (1, [True]), (1, []), (0, [])]) < 2 ^ 63"
    by (simp add: inodeBatch_def)
  moreover have "\<And>k. e_sliceNext (Open_engine 1 (word_of_nat k)) = e_sliceEnd (Open_engine 1 (word_of_nat k))"
    by (simp add: Open_engine_def)
  ultimately show ?thesis
    by (intro NewSlice_unique [OF fresh_db_counters(2), THEN conjunct1]) simp_all
qed

text \<open>C7: Inode numbers are globally unique and the root inode is never issued again, even when two
  mounts drew the same random session byte, as long as fewer than 2^48 counter values are used.\<close>

theorem nextInode_no_reuse:
  assumes "counter_value ''nextinode'' db = Some v" and "2 \<le> v"
    and "\<And>k. e_inoNext (es k) = e_inoEnd (es k)"
    and "v + inodeBatch * int (length sched) < 2 ^ 48"
  shows "distinct (alloc_run nextInode sched es db) \<and> RootInode \<notin> set (alloc_run nextInode sched es db)"
proof -
  have v: "0 \<le> v" using assms(2) by simp
  note u = nextInode_unique [of db v es sched, OF assms(1) v assms(3,4)]
  have "uint (and RootInode inoLowMask) = 1"
    by (simp add: RootInode_def inoLowMask_def)
  then show ?thesis using u assms(2) by fastforce
qed

theorem nextInode_no_reuse_witness:
  "distinct (alloc_run nextInode [(0, []), (1, [True]), (1, []), (0, [])] (\<lambda>k. Open_engine 1 7) fresh_db)"
proof -
  have "2 + inodeBatch * int (length [(0 :: nat, [] :: faults), (1, [True]), (1, []), (0, [])]) < 2 ^ 48"
    by (simp add: inodeBatch_def)
  moreover have "\<And>k :: nat. e_inoNext (Open_engine 1 7) = e_inoEnd (Open_engine 1 7)"
    by (simp add: Open_engine_def)
  ultimately show ?thesis
    by (intro nextInode_no_reuse [OF fresh_db_counters(1), THEN conjunct1]) simp_all
qed

end
