(* ===== verification/Meta_Fs.thy ===== *)
theory Meta_Fs
  imports Slice_Props Meta_Xattr Meta_Locks Meta_Gc Meta_Alloc
begin

text \<open>
  The metadata engine as a whole: one constructor per operation of the packages meta/*.go, the state of several
  mounts over one database, and what every reachable state satisfies.
\<close>

section \<open>Unlinked but open files\<close>

text \<open>An inode without name whose row is kept for an open handle.\<close>

definition ntype :: "db \<Rightarrow> Ino \<Rightarrow> u8 option" where
  "ntype db i = map_option n_type (sel_node db i)"

definition ghost :: "db \<Rightarrow> Ino \<Rightarrow> bool" where
  "ghost db i \<longleftrightarrow> ilinks db i = 0 \<and> ntype db i \<noteq> None \<and> ntype db i \<noteq> Some TypeDirectory"

definition ghosts_ok :: "Ino set \<Rightarrow> db \<Rightarrow> bool" where
  "ghosts_ok S db \<longleftrightarrow> tree_ok db \<and> (\<forall>i \<in> S. ghost db i)"

lemma ilinks_0_iff:
  assumes "uniq db"
  shows "ilinks db i = 0 \<longleftrightarrow> (\<forall>p nm e. sel_edge db p nm = Some e \<longrightarrow> ed_inode e \<noteq> i)"
proof
  assume "ilinks db i = 0"
  then show "\<forall>p nm e. sel_edge db p nm = Some e \<longrightarrow> ed_inode e \<noteq> i"
    using ilinks_pos [of db] by fastforce
next
  assume a: "\<forall>p nm e. sel_edge db p nm = Some e \<longrightarrow> ed_inode e \<noteq> i"
  have "ed_inode e \<noteq> i" if "e \<in> set (t_edge db)" for e
    using a sel_in_distinct [of edge_key "t_edge db" e] that assms by (auto simp: sel_edge_def uniq_def)
  then show "ilinks db i = 0" by (simp add: ilinks_def cnt_0_iff)
qed

lemma ghost_no_edge: "ghost db i \<Longrightarrow> sel_edge db p nm = Some e \<Longrightarrow> ed_inode e \<noteq> i"
  using ilinks_pos [of db p nm e] by (auto simp: ghost_def)

lemma ghost_not_dir: "ghost db i \<Longrightarrow> sel_node db i = Some r \<Longrightarrow> n_type r \<noteq> TypeDirectory"
  by (simp add: ghost_def ntype_def)

lemma ghost_same_tree: "same_tree db db' \<Longrightarrow> ghost db' i = ghost db i"
  by (simp add: ghost_def ntype_def same_tree_views)

lemma ghostI:
  "uniq db' \<Longrightarrow> ntype db' i = ntype db i \<Longrightarrow> ghost db i \<Longrightarrow>
   (\<And>p nm e. sel_edge db' p nm = Some e \<Longrightarrow> ed_inode e \<noteq> i) \<Longrightarrow> ghost db' i"
  by (simp add: ghost_def ilinks_0_iff)

lemma create_tx_ghost:
  assumes "ghosts_ok S db" and run: "create_tx i p nm ty mode rdev tgt op c now [] db = (Inr (a, db'), [])"
  shows "ghosts_ok S db'"
proof -
  have ok: "tree_ok db" using assms(1) by (simp add: ghosts_ok_def)
  have "ghost db' j" if g: "ghost db j" for j
  proof -
    from create_tx_commit [OF run] obtain pr where pr: "sel_node db p = Some pr" "n_type pr = TypeDirectory"
      and n: "sel_node db i = None" and v: "sel_node db' = (sel_node db)(i \<mapsto> new_row i p ty mode rdev tgt c (unix_s now) (unix_ns now),
        p \<mapsto> touch (unix_s now) (unix_ns now) (if ty = TypeDirectory then pr\<lparr>n_nlink := n_nlink pr + 1\<rparr> else pr))"
        "ilinks db' = (\<lambda>j. ilinks db j + (if j = i then 1 else 0))" by blast
    have "j \<noteq> i" "j \<noteq> p" using g n pr by (auto simp: ghost_def ntype_def)
    with g v show ?thesis by (simp add: ghost_def ntype_def)
  qed
  with assms(1) create_tx_tree_ok [OF ok run] show ?thesis by (simp add: ghosts_ok_def)
qed

lemma Unlink_tx_ghost:
  assumes g: "ghosts_ok S db" and run: "Unlink_tx eng p nm now [] db = (Inr (sus, db'), [])"
  shows "ghosts_ok (case sus of None \<Rightarrow> S | Some i \<Rightarrow> insert i S) db'" and "sus = Some i \<Longrightarrow> i \<notin> S"
proof -
  have ok: "tree_ok db" using g by (simp add: ghosts_ok_def)
  from Unlink_tx_commit [OF run] obtain e r where e: "sel_edge db p nm = Some e" "ed_type e \<noteq> TypeDirectory"
    and r: "sel_node db (ed_inode e) = Some r"
    and v: "sel_node db' = (\<lambda>j. map_option (if j = p then touch (unix_s now) (unix_ns now) else id)
         ((if n_nlink r \<le> 1 \<and> \<not> isOpen eng (ed_inode e) then (sel_node db)(ed_inode e := None)
           else (sel_node db)(ed_inode e \<mapsto> touch_c (unix_s now) (unix_ns now) (r\<lparr>n_nlink := n_nlink r - 1\<rparr>))) j))"
      "ilinks db' = ilinks (del_edge p nm db)"
    and sus: "sus = (if n_nlink r \<le> 1 \<and> isOpen eng (ed_inode e) then Some (ed_inode e) else None)" by blast
  have ty: "n_type r = ed_type e" using tree_okD(4) [OF ok e(1)] r by (auto simp: edge_ok_def)
  have il: "ilinks db j = ilinks db' j + (if ed_inode e = j then 1 else 0)" for j
    using ilinks_del_edge [OF tree_okD(1) [OF ok] e(1), of j] v(2) by simp
  have keep: "ghost db' j" if "ghost db j" for j
    using that ghost_no_edge [OF that e(1)] il [of j] by (auto simp: ghost_def ntype_def v(1) option.map_comp o_def)
  have new: "ghost db' (ed_inode e)" if "n_nlink r \<le> 1" "isOpen eng (ed_inode e)"
  proof -
    have "n_nlink r = int (ilinks db (ed_inode e))"
      using tree_okD(3) [OF ok r] ty e(2) by (simp add: node_ok_def)
    then have "ilinks db' (ed_inode e) = 0" using il [of "ed_inode e"] that(1) by simp
    with that(2) ty e(2) show ?thesis by (auto simp: ghost_def ntype_def v(1))
  qed
  show "ghosts_ok (case sus of None \<Rightarrow> S | Some i \<Rightarrow> insert i S) db'"
    using g keep new Unlink_tx_tree_ok [OF ok run] by (auto simp: ghosts_ok_def sus)
  show "sus = Some i \<Longrightarrow> i \<notin> S"
    using g ghost_no_edge [OF _ e(1)] by (auto simp: ghosts_ok_def sus split: if_splits)
qed

lemma Rmdir_tx_ghost:
  assumes g: "ghosts_ok S db" and run: "Rmdir_tx p nm now [] db = (Inr (x, db'), [])"
  shows "ghosts_ok S db'"
proof -
  have ok: "tree_ok db" using g by (simp add: ghosts_ok_def)
  from Rmdir_tx_commit [OF run] obtain e where e: "sel_edge db p nm = Some e" "ed_type e = TypeDirectory"
    and v: "sel_node db' = (\<lambda>j. map_option (if j = p
          then (\<lambda>r. touch (unix_s now) (unix_ns now) (r\<lparr>n_nlink := n_nlink r - 1\<rparr>)) else id)
         (((sel_node db)(ed_inode e := None)) j))" "ilinks db' = ilinks (del_edge p nm db)" by blast
  have "ghost db' j" if "ghost db j" for j
    using that ghost_no_edge [OF that e(1)] ilinks_del_edge [OF tree_okD(1) [OF ok] e(1), of j]
    by (auto simp: ghost_def ntype_def v option.map_comp o_def)
  with g Rmdir_tx_tree_ok [OF ok run] show ?thesis by (simp add: ghosts_ok_def)
qed

text \<open>A hard link needs a source that still has a name; \<open>vfs_link\<close> of the kernel refuses others.\<close>

lemma Link_tx_ghost:
  assumes g: "ghosts_ok S db" and run: "Link_tx i p nm now [] db = (Inr (a, db'), [])" and linked: "0 < ilinks db i"
  shows "ghosts_ok S db'"
proof -
  have ok: "tree_ok db" using g by (simp add: ghosts_ok_def)
  from Link_tx_commit [OF run] obtain r pr where p: "sel_node db p = Some pr" "n_type pr = TypeDirectory"
    and v: "sel_node db' = (sel_node db)(i \<mapsto> touch_c (unix_s now) (unix_ns now) (r\<lparr>n_nlink := n_nlink r + 1\<rparr>),
        p \<mapsto> touch (unix_s now) (unix_ns now) pr)" "ilinks db' = (\<lambda>j. ilinks db j + (if j = i then 1 else 0))" by blast
  have "ghost db' j" if j: "ghost db j" for j
  proof -
    have "j \<noteq> i" "j \<noteq> p" using j linked p by (auto simp: ghost_def ntype_def)
    with j v show ?thesis by (simp add: ghost_def ntype_def)
  qed
  with g Link_tx_tree_ok [OF ok run] show ?thesis by (simp add: ghosts_ok_def)
qed

section \<open>Operations that keep names\<close>

lemma ghosts_same_tree: "same_tree db db' \<Longrightarrow> ghosts_ok S db' = ghosts_ok S db"
  by (simp add: ghosts_ok_def ghost_same_tree tree_ok_same_tree)

lemma ghosts_upd_attr:
  assumes "ghosts_ok S db" and "\<And>r. n_inode (f r) = n_inode r \<and> n_type (f r) = n_type r \<and>
    n_nlink (f r) = n_nlink r \<and> n_parent (f r) = n_parent r"
  shows "ghosts_ok S (upd_node i f db)"
proof -
  have "tree_ok (upd_node i f db)"
    using assms(1) by (intro tree_ok_upd_attr [OF _ assms(2)]) (simp add: ghosts_ok_def)
  moreover have "ghost (upd_node i f db) j = ghost db j" for j
    using assms(2) by (auto simp: ghost_def ntype_def tree_simps option.map_comp o_def)
  ultimately show ?thesis using assms(1) by (simp add: ghosts_ok_def)
qed

lemma ghosts_log [simp]: "ghosts_ok S (appendChangelog now i op p db) = ghosts_ok S db"
  by (rule ghosts_same_tree [OF same_tree_stmts(4)])

lemma set_length_core:
  "n_inode (set_length l ts ns r) = n_inode r \<and> n_type (set_length l ts ns r) = n_type r \<and>
   n_nlink (set_length l ts ns r) = n_nlink r \<and> n_parent (set_length l ts ns r) = n_parent r"
  by (simp add: set_length_def)

lemma same_tree_slices:
  "same_tree db (trim_at i sz db)" "same_tree db (drop_past i sz db)"
  "del_range i lo hi db = Some db' \<Longrightarrow> same_tree db db'"
  "copy_range scan src dst sh lo hi db = Some db' \<Longrightarrow> same_tree db db'"
  "same_tree db (copy_all scan src dst db)"
  using same_tree_stmts(7) [of db]
  by (auto simp: same_tree_def trim_at_def drop_past_def del_range_def copy_range_def copy_all_def Let_def split: if_splits)

lemma SetAttr_tx_ghost:
  assumes "ghosts_ok S db" and "SetAttr_tx i sm attr c now [] db = (Inr (x, db'), [])"
  shows "ghosts_ok S db'"
proof -
  from SetAttr_tx_commit [OF assms(2)] show ?thesis
    using assms(1) by (auto simp: Let_def intro!: ghosts_upd_attr)
qed

lemma Write_tx_ghost:
  assumes "ghosts_ok S db" and "Write_tx i indx off sl now [] db = (Inr (x, db'), [])"
  shows "ghosts_ok S db'"
proof -
  have w: "ghosts_ok S (ins_slices rs db)" for rs
    using assms(1) by (simp only: ghosts_same_tree [OF same_tree_stmts(7)])
  have "ghosts_ok S (upd_node i (set_length l ts ns) (ins_slices rs db))" for l ts ns rs
    by (rule ghosts_upd_attr [OF w set_length_core])
  with assms show ?thesis
    by (auto simp: Write_tx_def Let_def tx_simps ins_slice_new_def simp del: ins_slices.simps
        split: option.splits if_splits)
qed

lemma Truncate_tx_ghost:
  assumes "ghosts_ok S db" and "Truncate_tx i sz now [] db = (Inr (x, db'), [])"
  shows "ghosts_ok S db'"
proof -
  have "ghosts_ok S (trim_at i sz (drop_past i sz db))"
    using assms(1) by (simp only: ghosts_same_tree [OF same_tree_slices(1)] ghosts_same_tree [OF same_tree_slices(2)])
  then show ?thesis
    using Truncate_tx_commit [OF assms(2)] assms(1) ghosts_upd_attr [OF _ set_length_core] by auto
qed

lemma CloneRange_tx_mono: "fault_mono (CloneRange_tx scan src dst si di n now)"
  unfolding CloneRange_tx_def by (intro fault_intros)

lemma Clone_tx_mono: "fault_mono (Clone_tx scan src dst now)"
  unfolding Clone_tx_def Let_def by (intro fault_intros)

lemma CloneRange_tx_ghost:
  assumes "ghosts_ok S db" and "CloneRange_tx scan src dst si di n now [] db = (Inr (x, db'), [])"
  shows "ghosts_ok S db'"
proof -
  obtain d1 d2 where "del_range dst (uint di) (uint (di + n)) db = Some d1"
    "copy_range scan src dst (uint di - uint si) (uint si) (uint (si + n)) d1 = Some d2"
    "db' = appendChangelog now dst OpWrite (PCloneRange src si di n) d2"
    using assms(2) by (auto simp: CloneRange_tx_def tx_simps split: option.splits if_splits)
  with assms(1) show ?thesis
    using ghosts_same_tree [OF same_tree_slices(3)] ghosts_same_tree [OF same_tree_slices(4)] by simp
qed

lemma Clone_tx_ghost:
  assumes "ghosts_ok S db" and "Clone_tx scan src dst now [] db = (Inr (x, db'), [])"
  shows "ghosts_ok S db'"
proof -
  have w: "ghosts_ok S (copy_all scan src dst db)"
    using assms(1) by (simp only: ghosts_same_tree [OF same_tree_slices(5)])
  show ?thesis
    using assms(2) ghosts_upd_attr [OF w set_length_core]
    by (auto simp: Clone_tx_def Let_def tx_simps split: option.splits if_splits)
qed

section \<open>Renames\<close>

lemma ntype_core: "ntype db i = map_option fst (core_of db i)"
  by (simp add: ntype_def core_of_def option.map_comp o_def)

lemma move_entry_types:
  assumes "move_entry pS nS pD nD es delta now [] db = (Inr (x, db'), [])"
  shows "ntype db' = ntype db"
proof -
  obtain db2 dl where ins: "ins_edge \<lparr>ed_parent = pD, ed_name = nD, ed_inode = ed_inode es, ed_type = ed_type es\<rparr>
      (del_edge pS nS db) = Some db2"
    and db': "db' = appendChangelog now (ed_inode es) OpRename (PRename pS nS pD nD)
      (touch_db (distinctParents pS pD) (unix_s now) (unix_ns now)
        (deltas_db dl (upd_node (ed_inode es) (set_parent pD (unix_s now) (unix_ns now)) db2)))"
    using assms by (auto simp: move_entry_def tx_simps Let_def split: option.splits)
  have "core_of db2 = core_of db" by (simp add: core_of_def fun_eq_iff ins_edge_views [OF ins] tree_simps)
  moreover have "core_of (appendChangelog n i op p d) = core_of d" for n i op p d
    by (simp add: core_of_def fun_eq_iff tree_simps)
  ultimately show ?thesis
    by (auto simp: fun_eq_iff ntype_core db' core_touch_db core_deltas_db core_set_parent option.map_comp o_def
        split_beta cong: option.map_cong)
qed

lemma Rename_tx_ghost:
  assumes g: "ghosts_ok S db" and run: "Rename_tx pS nS pD nD flags now [] db = (Inr (x, db'), [])"
    and dst: "sel_edge db pD nD = None \<Longrightarrow> ntype db pD = Some TypeDirectory"
  shows "ghosts_ok S db'"
proof -
  have ok: "tree_ok db" using g by (simp add: ghosts_ok_def)
  have d: "\<exists>l q. core_of db pD = Some (TypeDirectory, l, q)" if "sel_edge db pD nD = None"
    using dst [OF that] by (auto simp: ntype_core)
  from Rename_tx_tree_ok [OF ok run d] obtain es where ok': "tree_ok db'"
    and edge: "sel_edge db pS nS = Some es" "db' = db \<or> sel_edge db' = (\<lambda>q m. if q = pD \<and> m = nD
        then Some (es\<lparr>ed_parent := pD, ed_name := nD\<rparr>) else if q = pS \<and> m = nS then None else sel_edge db q m)" by blast
  have types: "ntype db' j = ntype db j" if j: "ghost db j" for j
    using run
  proof (cases rule: Rename_tx_cases)
    case (free es)
    then show ?thesis using move_entry_types by metis
  next
    case (dir es ed)
    then have "j \<noteq> ed_inode ed" using ghost_no_edge [OF j] by auto
    then show ?thesis using move_entry_types [OF dir(7)] by (simp add: ntype_def tree_simps)
  next
    case (plain es ed r)
    then have "j \<noteq> ed_inode ed" using ghost_no_edge [OF j] by auto
    then show ?thesis using move_entry_types [OF plain(7)] by (simp add: ntype_def tree_simps Let_def)
  qed simp
  have "ghost db' j" if j: "ghost db j" for j
  proof (rule ghostI [OF tree_okD(1) [OF ok'] types [OF j] j])
    fix p nm e
    assume "sel_edge db' p nm = Some e"
    then have "e = es\<lparr>ed_parent := pD, ed_name := nD\<rparr> \<or> sel_edge db p nm = Some e"
      using edge(2) by (elim disjE) (simp_all split: if_splits)
    then have "ed_inode e = ed_inode es \<or> sel_edge db p nm = Some e" by (elim disjE) simp_all
    then show "ed_inode e \<noteq> j" using ghost_no_edge [OF j] ghost_no_edge [OF j edge(1)] by metis
  qed
  with g ok' show ?thesis by (simp add: ghosts_ok_def)
qed

lemma renameExchange_tx_ghost:
  assumes g: "ghosts_ok S db" and run: "renameExchange_tx pS nS pD nD now [] db = (Inr (x, db'), [])"
  shows "ghosts_ok S db'"
  using run
proof (cases rule: renameExchange_tx_cases)
  case (same es ed)
  then show ?thesis using g by simp
next
  case (swap es ed m dl)
  have ok: "tree_ok db" using g by (simp add: ghosts_ok_def)
  have ne: "\<not> (pS = pD \<and> nS = nD)" using swap(1-3) by auto
  note v = swap_edges_counts [OF tree_okD(1) [OF ok] swap(1,2) ne swap(5)]
  have "core_of m = core_of db" by (simp add: swap(5) core_of_def fun_eq_iff tree_simps)
  moreover have "core_of (appendChangelog n i op p d) = core_of d" for n i op p d
    by (simp add: core_of_def fun_eq_iff tree_simps)
  ultimately have "ntype db' j = ntype db j" for j
    by (auto simp: ntype_core swap(7) core_touch_db core_deltas_db core_set_parent option.map_comp o_def
        split_beta cong: option.map_cong)
  moreover have "ilinks db' j = ilinks db j" for j using v(2) by (simp add: swap(7) tree_simps)
  ultimately show ?thesis
    using g renameExchange_tx_tree_ok [OF ok run] by (simp add: ghosts_ok_def ghost_def)
qed

section \<open>Operations of a mount\<close>

text \<open>
  One rule per operation, each a serial run of its transaction.  Two rules carry a condition that the engine does not
  check: the source of a hard link has a name, and the target directory of a rename exists.  The kernel of one mount
  checks both before it sends the request; when another mount has removed the name or the directory in between, nobody
  does (\<open>Link_unlinked_dangling\<close> and \<open>Rename_dangling\<close> below).
\<close>

definition link_source_named :: "db \<Rightarrow> Ino \<Rightarrow> bool" where
  "link_source_named db i \<longleftrightarrow> 0 < ilinks db i"

definition rename_target_exists :: "db \<Rightarrow> Ino \<Rightarrow> string \<Rightarrow> bool" where
  "rename_target_exists db pD nD \<longleftrightarrow> (sel_edge db pD nD = None \<longrightarrow> ntype db pD = Some TypeDirectory)"

inductive fs_op :: "(slice_row list \<Rightarrow> slice_row list) \<Rightarrow> sys \<Rightarrow> sys \<Rightarrow> bool"
  for scan :: "slice_row list \<Rightarrow> slice_row list" where
  do_create: "create p nm ty mode rdev tgt op c s = (r, s') \<Longrightarrow> fs_op scan s s'"
| do_unlink: "Unlink p nm s = (r, s') \<Longrightarrow> fs_op scan s s'"
| do_rmdir: "Rmdir p nm s = (r, s') \<Longrightarrow> fs_op scan s s'"
| do_link: "Link i p nm s = (r, s') \<Longrightarrow> link_source_named (s_db s) i \<Longrightarrow> fs_op scan s s'"
| do_rename: "Rename pS nS pD nD flags s = (r, s') \<Longrightarrow> rename_target_exists (s_db s) pD nD \<Longrightarrow> fs_op scan s s'"
| do_setattr: "SetAttr i sm attr ctx s = (r, s') \<Longrightarrow> fs_op scan s s'"
| do_write: "Write i indx off sl s = (r, s') \<Longrightarrow> fs_op scan s s'"
| do_truncate: "Truncate i sz s = (r, s') \<Longrightarrow> fs_op scan s s'"
| do_clone: "Clone scan src dst s = (r, s') \<Longrightarrow> fs_op scan s s'"
| do_clone_range: "CloneRange scan src dst si di n s = (r, s') \<Longrightarrow> fs_op scan s s'"
| do_open: "Open_inode i s = (r, s') \<Longrightarrow> fs_op scan s s'"
| do_close: "Close i s = (r, s') \<Longrightarrow> fs_op scan s s'"
| do_setxattr: "SetXAttr i nm v xflags s = (r, s') \<Longrightarrow> fs_op scan s s'"
| do_removexattr: "RemoveXAttr i nm s = (r, s') \<Longrightarrow> fs_op scan s s'"
| do_store_class: "SetStoreClass i class s = (r, s') \<Longrightarrow> fs_op scan s s'"
| do_content_hash: "SetContentHash i hash s = (r, s') \<Longrightarrow> fs_op scan s s'"
| do_new_slice: "NewSlice s = (q, s') \<Longrightarrow> fs_op scan s s'"
| do_lock: "fs_op scan s (lock_do lop s)"
| do_trim: "TrimChangelog upTo s = (n', s') \<Longrightarrow> fs_op scan s s'"

text \<open>
  Several mounts over one database.  A step is one operation of one mount, at any time and under any SQL
  faults; a mount may stop at any moment and start again with a fresh engine; the reaper, whose comment says "Safe
  offline only", runs only while no mount holds an unlinked open file.
\<close>

inductive fs_reach :: "(slice_row list \<Rightarrow> slice_row list) \<Rightarrow> db \<Rightarrow> (nat \<Rightarrow> engine) \<Rightarrow> bool"
  for scan :: "slice_row list \<Rightarrow> slice_row list" where
  start: "bootstrap \<lparr>s_db = empty_db, s_eng = e, s_faults = fs, s_now = now\<rparr> = (True, s) \<Longrightarrow>
    (\<And>k. e_sustained (es k) = {}) \<Longrightarrow> fs_reach scan (s_db s) es"
| step: "fs_reach scan db es \<Longrightarrow> fs_op scan \<lparr>s_db = db, s_eng = es k, s_faults = fs, s_now = now\<rparr> s' \<Longrightarrow>
    fs_reach scan (s_db s') (es(k := s_eng s'))"
| restart: "fs_reach scan db es \<Longrightarrow> e_sustained e = {} \<Longrightarrow> fs_reach scan db (es(k := e))"
| reap: "fs_reach scan db es \<Longrightarrow> (\<And>k. e_sustained (es k) = {}) \<Longrightarrow>
    ReapOrphanedInodes \<lparr>s_db = db, s_eng = e, s_faults = fs, s_now = now\<rparr> = (r, s') \<Longrightarrow>
    fs_reach scan (s_db s') es"

section \<open>Preservation\<close>

text \<open>The invariant as one mount sees it: \<open>T\<close> are the unlinked open files of the other mounts.\<close>

definition fs_inv :: "Ino set \<Rightarrow> sys \<Rightarrow> bool" where
  "fs_inv T s \<longleftrightarrow> ghosts_ok (T \<union> e_sustained (s_eng s)) (s_db s) \<and> T \<inter> e_sustained (s_eng s) = {}"

interpretation ghosts: db_invariant "ghosts_ok S" for S
  by unfold_locales (simp add: ghosts_same_tree [OF same_tree_stmts(6)])

lemma ghosts_subset: "ghosts_ok S db \<Longrightarrow> S' \<subseteq> S \<Longrightarrow> ghosts_ok S' db"
  by (auto simp: ghosts_ok_def)

lemma fs_inv_frame:
  assumes "fs_inv T s" and "e_sustained (s_eng s') = e_sustained (s_eng s)"
    and "\<And>S. ghosts_ok S (s_db s) \<Longrightarrow> ghosts_ok S (s_db s')"
  shows "fs_inv T s'"
  using assms by (simp add: fs_inv_def)

lemma fs_inv_run_stmt:
  assumes "fs_inv T s" and "run_stmt st s = (q, s')"
    and "\<And>S x d. ghosts_ok S (s_db s) \<Longrightarrow> st (s_db s) = Some (x, d) \<Longrightarrow> ghosts_ok S d"
  shows "fs_inv T s'"
proof (rule fs_inv_frame [OF assms(1)])
  show "e_sustained (s_eng s') = e_sustained (s_eng s)" using run_stmt_frame [OF assms(2)] by simp
  show "ghosts_ok S (s_db s')" if "ghosts_ok S (s_db s)" for S
    using that assms run_stmt_None [of st s s'] run_stmt_Some [of st s _ s'] by (cases q) auto
qed

lemma fs_inv_run_tx:
  assumes "fs_inv T s" and "fault_mono m" and "run_tx m s = (q, s')"
    and "\<And>S x d. ghosts_ok S (s_db s) \<Longrightarrow> m [] (s_db s) = (Inr (x, d), []) \<Longrightarrow> ghosts_ok S d"
  shows "fs_inv T s'"
proof (rule fs_inv_frame [OF assms(1)])
  show "e_sustained (s_eng s') = e_sustained (s_eng s)" using run_tx_frame [OF assms(3)] by simp
  show "ghosts_ok S (s_db s')" if "ghosts_ok S (s_db s)" for S
    using run_tx_preserves [where P = "ghosts_ok S", OF assms(2,3) that] assms(4) [OF that] by blast
qed

lemma fs_inv_fenced:
  assumes "fs_inv T s" and "fault_mono body" and "fenced_tx i body s = (q, s')"
    and "\<And>S x d d'. same_but_leases (s_db s) d \<Longrightarrow> ghosts_ok S d \<Longrightarrow> body [] d = (Inr (x, d'), []) \<Longrightarrow> ghosts_ok S d'"
  shows "fs_inv T s'"
  using fs_inv_frame [OF assms(1) fenced_tx_sustained(1) [OF assms(2,3)]] ghosts.fenced_preserves [OF assms(2,3)] assms(4)
  by blast

lemma fs_inv_fenced2:
  assumes "fs_inv T s" and "fault_mono body" and "fenced_tx2 p r body s = (q, s')"
    and "\<And>S x d d'. same_but_leases (s_db s) d \<Longrightarrow> ghosts_ok S d \<Longrightarrow> body [] d = (Inr (x, d'), []) \<Longrightarrow> ghosts_ok S d'"
  shows "fs_inv T s'"
  using fs_inv_frame [OF assms(1) fenced_tx2_sustained [OF assms(2,3)]] ghosts.fenced2_preserves [OF assms(2,3)] assms(4)
  by blast

lemma fs_inv_same_tree:
  "fs_inv T s \<Longrightarrow> e_sustained (s_eng s') = e_sustained (s_eng s) \<Longrightarrow> same_tree (s_db s) (s_db s') \<Longrightarrow> fs_inv T s'"
  by (rule fs_inv_frame) (simp_all add: ghosts_same_tree)

lemma fs_inv_GetAttr: "fs_inv T s \<Longrightarrow> GetAttr i s = (r, s') \<Longrightarrow> fs_inv T s'"
  by (erule fs_inv_same_tree)
    (auto simp: GetAttr_def same_tree_def split: prod.splits option.splits dest: run_stmt_read)

lemma fs_inv_GetAttrOrNil: "fs_inv T s \<Longrightarrow> fs_inv T (snd (GetAttrOrNil i s))"
  using fs_inv_GetAttr [OF _ prod.collapse [symmetric]]
  by (auto simp: GetAttrOrNil_def split: prod.splits sum.splits) (metis snd_conv)+

lemma counter_same_tree: "bump_counter nm db = Some (x, d) \<Longrightarrow> same_tree db d"
  by (auto simp: bump_counter_def same_tree_def split: option.splits if_splits)

lemma fs_inv_bump:
  "fs_inv T s \<Longrightarrow> run_stmt (bump_counter nm) s = (q, s') \<Longrightarrow> fs_inv T s'"
  by (erule (1) fs_inv_run_stmt) (simp add: ghosts_same_tree [OF counter_same_tree])

lemma fs_inv_eng:
  "fs_inv T s \<Longrightarrow> e_sustained e = e_sustained (s_eng s) \<Longrightarrow> fs_inv T (s\<lparr>s_eng := e\<rparr>)"
  by (simp add: fs_inv_def)

lemma fs_inv_NewSlice: "fs_inv T s \<Longrightarrow> NewSlice s = (q, s') \<Longrightarrow> fs_inv T s'"
  using fs_inv_bump [of T s "''nextslice''"]
  by (auto simp: NewSlice_def Let_def intro!: fs_inv_eng split: if_splits prod.splits option.splits)

lemma fs_inv_nextInode: "fs_inv T s \<Longrightarrow> nextInode s = (q, s') \<Longrightarrow> fs_inv T s'"
  using fs_inv_bump [of T s "''nextinode''"]
  by (auto simp: nextInode_def takeIno_def Let_def intro!: fs_inv_eng split: if_splits prod.splits option.splits)

lemma fs_inv_create:
  assumes "fs_inv T s" and "create p nm ty mode rdev tgt op c s = (r, s')"
  shows "fs_inv T s'"
proof -
  obtain q s1 where n: "nextInode s = (q, s1)" by (rule prod.exhaust)
  have i: "fs_inv T s1" by (rule fs_inv_nextInode [OF assms(1) n])
  show ?thesis
  proof (cases q)
    case None
    then show ?thesis using assms(2) n i by (simp add: create_def)
  next
    case (Some j)
    obtain w s2 where f: "fenced_tx p (create_tx j p nm ty mode rdev tgt op c (s_now s1)) s1 = (w, s2)" by (rule prod.exhaust)
    have "fs_inv T s2" by (rule fs_inv_fenced [OF i create_tx_mono f]) (rule create_tx_ghost)
    then show ?thesis using assms(2) n f Some by (auto simp: create_def split: sum.splits)
  qed
qed

lemma fs_inv_Unlink:
  assumes inv: "fs_inv T s" and "Unlink p nm s = (r, s')"
  shows "fs_inv T s'"
proof -
  obtain w s1 where f: "fenced_tx p (Unlink_tx (s_eng s) p nm (s_now s)) s = (w, s1)" by (rule prod.exhaust)
  have own: "e_sustained (s_eng s1) = e_sustained (s_eng s)"
    by (rule fenced_tx_sustained(1) [OF Unlink_tx_mono f])
  show ?thesis
  proof (cases w)
    case (Inl e)
    have "fs_inv T s1"
    proof (rule fs_inv_same_tree [OF inv own])
      show "same_tree (s_db s) (s_db s1)"
        using same_mount_simps(6) [OF fenced_tx_err [OF f [unfolded Inl]]] by (rule same_tree_stmts(6))
    qed
    then show ?thesis using assms(2) f Inl by (simp add: Unlink_def)
  next
    case (Inr sus)
    from f [unfolded Inr] obtain s0 where m: "same_mount s s0"
      and b: "Unlink_tx (s_eng s) p nm (s_now s) [] (s_db s0) = (Inr (sus, s_db s1), [])"
      by (rule fenced_tx_ok [OF Unlink_tx_mono])
    have g: "ghosts_ok (T \<union> e_sustained (s_eng s)) (s_db s0)"
      using inv ghosts_same_tree [OF same_tree_stmts(6) [OF same_mount_simps(6) [OF m]]] by (simp add: fs_inv_def)
    note gh = Unlink_tx_ghost [OF g b]
    have disj: "T \<inter> e_sustained (s_eng s) = {}" using inv by (simp add: fs_inv_def)
    show ?thesis
    proof (cases sus)
      case None
      then show ?thesis using assms(2) f Inr gh(1) own disj by (simp add: Unlink_def fs_inv_def)
    next
      case (Some i)
      have "ghosts_ok (T \<union> insert i (e_sustained (s_eng s))) (s_db s1)" "i \<notin> T"
        using gh(1) gh(2) [of i] Some by auto
      moreover have "ghosts_ok (T \<union> e_sustained (s_eng s)) (s_db s1)"
        by (rule ghosts_subset [OF calculation(1)]) blast
      ultimately show ?thesis
        using assms(2) f Inr Some own disj by (cases "i = 0") (auto simp: Unlink_def fs_inv_def markSustained_def)
    qed
  qed
qed

lemma delete_rows_ghosts:
  assumes "ghosts_ok (insert i S) db" and "i \<notin> S"
  shows "ghosts_ok S (delete_rows i db)"
proof -
  have "tree_ok (delete_rows i db)"
    using assms(1) ghost_not_dir [of db i] by (intro delete_rows_tree_ok) (auto simp: ghosts_ok_def ghost_def)
  moreover have "ghost (delete_rows i db) j" if "j \<in> S" for j
    using that assms by (auto simp: ghosts_ok_def ghost_def ntype_def tree_simps)
  ultimately show ?thesis by (simp add: ghosts_ok_def)
qed

lemma fs_inv_Close:
  assumes inv: "fs_inv T s" and run: "Close i s = (r, s')"
  shows "fs_inv T s'"
proof (cases "e_openRefs (s_eng s) i - 1 = 0 \<and> i \<in> e_sustained (s_eng s)")
  case False
  then show ?thesis using inv run by (auto simp: Close_def Let_def fs_inv_def)
next
  case True
  define own where "own = e_sustained (s_eng s) - {i}"
  define s1 where "s1 = s\<lparr>s_eng := (s_eng s)\<lparr>e_openRefs := (e_openRefs (s_eng s))(i := 0), e_sustained := own\<rparr>\<rparr>"
  obtain w s2 where t: "run_tx (deleteInodeRows i (tx_ret ())) s1 = (w, s2)" by (rule prod.exhaust)
  have s': "s' = s2" using run True t by (auto simp: Close_def Let_def s1_def own_def split: sum.splits)
  have all: "insert i (T \<union> own) = T \<union> e_sustained (s_eng s)" using True by (auto simp: own_def)
  have g: "ghosts_ok (insert i (T \<union> own)) (s_db s1)" unfolding all using inv by (simp add: fs_inv_def s1_def)
  have ni: "i \<notin> T \<union> own" using inv True by (auto simp: fs_inv_def own_def)
  have mono: "fault_mono (deleteInodeRows i (tx_ret ()))" unfolding deleteInodeRows_def by (intro fault_intros)
  have "ghosts_ok (T \<union> own) (s_db s2)"
    by (rule run_tx_preserves [where P = "ghosts_ok (T \<union> own)", OF mono t])
      (use ghosts_subset [OF g] delete_rows_ghosts [OF g ni] in \<open>auto simp: tx_simps\<close>)
  then show ?thesis
    using run_tx_frame(1) [OF t] inv by (auto simp: s' fs_inv_def s1_def own_def)
qed

lemma fs_inv_Rename:
  assumes inv: "fs_inv T s" and run: "Rename pS nS pD nD flags s = (r, s')"
    and dst: "sel_edge (s_db s) pD nD = None \<Longrightarrow> ntype (s_db s) pD = Some TypeDirectory"
  shows "fs_inv T s'"
proof -
  have one: "fs_inv T (snd (case fenced_tx2 pS pD body s of (Inl e, s1) \<Rightarrow> (Inl e, s1)
      | (Inr i, s1) \<Rightarrow> (case GetAttrOrNil i s1 of (a, s2) \<Rightarrow> (Inr (i, a), s2))))"
    if "fault_mono body" and "\<And>S x d d'. same_but_leases (s_db s) d \<Longrightarrow> ghosts_ok S d \<Longrightarrow> body [] d = (Inr (x, d'), []) \<Longrightarrow> ghosts_ok S d'"
    for body
  proof -
    obtain q s1 where f: "fenced_tx2 pS pD body s = (q, s1)" by (rule prod.exhaust)
    have "fs_inv T s1" by (rule fs_inv_fenced2 [OF inv that(1) f that(2)])
    then show ?thesis using fs_inv_GetAttrOrNil f by (simp add: case_prod_beta split: sum.splits)
  qed
  have leases: "sel_edge d pD nD = None \<Longrightarrow> ntype d pD = Some TypeDirectory" if "same_but_leases (s_db s) d" for d
    using dst same_tree_views(1,2) [OF same_tree_stmts(6) [OF that]] by (simp add: ntype_def)
  have ren: "ghosts_ok S d'" if "same_but_leases (s_db s) d" "ghosts_ok S d"
    "Rename_tx pS nS pD nD flags (s_now s) [] d = (Inr (x, d'), [])" for S d x d'
    using Rename_tx_ghost [OF that(2,3) leases [OF that(1)]] .
  have exch: "fs_inv T (snd (case fenced_tx2 pS pD (renameExchange_tx pS nS pD nD (s_now s)) s of (Inl e, s1) \<Rightarrow> (Inl e, s1)
      | (Inr i, s1) \<Rightarrow> (case GetAttrOrNil i s1 of (a, s2) \<Rightarrow> (Inr (i, a), s2))))"
    by (rule one [OF renameExchange_tx_mono]) (rule renameExchange_tx_ghost)
  have plain: "fs_inv T (snd (case fenced_tx2 pS pD (Rename_tx pS nS pD nD flags (s_now s)) s of (Inl e, s1) \<Rightarrow> (Inl e, s1)
      | (Inr i, s1) \<Rightarrow> (case GetAttrOrNil i s1 of (a, s2) \<Rightarrow> (Inr (i, a), s2))))"
    by (rule one [OF Rename_tx_mono]) (rule ren)
  have "fs_inv T (snd (Rename pS nS pD nD flags s))"
    using inv exch plain by (simp add: Rename_def Let_def)
  then show ?thesis by (simp add: run)
qed

lemma same_tree_lock_do: "same_tree (s_db s) (s_db (lock_do op s))" "s_eng (lock_do op s) = s_eng s"
proof -
  let ?P = "same_tree (s_db s)"
  have tx: "?P (s_db (snd (run_tx m s)))" if "fault_mono m" "\<And>x d. m [] (s_db s) = (Inr (x, d), []) \<Longrightarrow> ?P d"
    for m :: "(db, 'z) tx"
    by (rule run_tx_preserves [where P = ?P, OF that(1) prod.collapse [symmetric] _ that(2)]) (simp_all add: same_tree_def)
  have st: "?P (s_db (snd (run_stmt (\<lambda>db. Some ((), f db)) s)))" if "?P (f (s_db s))" for f
    using run_stmt_upd [of f s] that by (auto simp: same_tree_def)
  have two: "fault_mono (exec f (exec g (tx_ret ())))" for f g :: "db \<Rightarrow> db" by (intro fault_intros)
  show "?P (s_db (lock_do op s))"
  proof (cases op)
    case (LFlock i owner ty)
    have "?P (s_db (snd (run_tx (Flock_tx (lockSID (s_eng s)) i owner ty) s)))"
      by (rule tx [OF Flock_tx_mono]) (auto simp: Flock_tx_ok same_tree_def del_flock_def ins_flock_def split: if_splits)
    with LFlock show ?thesis by (simp add: Flock_def case_prod_beta)
  next
    case (LSetlk i owner ty start end' pid)
    have "?P (s_db (snd (run_tx (Setlk_tx (lockSID (s_eng s)) i owner ty start end' pid) s)))"
      by (rule tx [OF Setlk_tx_mono]) (auto simp: Setlk_tx_ok put_plock_def same_tree_def del_plock_def ins_plock_def split: if_splits)
    with LSetlk show ?thesis by (simp add: Setlk_def case_prod_beta)
  qed (use tx [OF two] st in \<open>simp_all add: ClearAllLocks_def ClearLocksForSID_def ClearPlocks_def case_prod_beta tx_simps same_tree_def del_plock_def\<close>)
  show "s_eng (lock_do op s) = s_eng s"
    by (cases op) (simp_all add: Flock_def Setlk_def ClearAllLocks_def ClearLocksForSID_def ClearPlocks_def case_prod_beta
        run_tx_frame(1) [OF prod.collapse [symmetric]] run_stmt_frame(1) [OF prod.collapse [symmetric]])
qed

lemma fs_inv_attr_stmt:
  assumes "fs_inv T s" and "run_stmt (upd_node_count i f) s = (q, s')"
    and "\<And>r. n_inode (f r) = n_inode r \<and> n_type (f r) = n_type r \<and> n_nlink (f r) = n_nlink r \<and> n_parent (f r) = n_parent r"
  shows "fs_inv T s'"
  by (rule fs_inv_run_stmt [OF assms(1,2)]) (auto simp: upd_node_count_def intro!: ghosts_upd_attr assms(3))

lemma fs_inv_SetXAttr:
  assumes "fs_inv T s"
  shows "fs_inv T (snd (SetXAttr i nm v flags s))"
proof -
  obtain q s' where r: "run_tx (SetXAttr_tx i nm v flags) s = (q, s')" by (rule prod.exhaust)
  have mono: "fault_mono (SetXAttr_tx i nm v flags)" unfolding SetXAttr_tx_def by (intro fault_intros)
  have t: "same_tree db (ins_xattr i nm v db)" for db by (simp add: same_tree_def ins_xattr_def)
  have "fs_inv T s'"
    by (rule fs_inv_run_tx [OF assms mono r])
      (auto simp: SetXAttr_tx_def tx_simps ghosts_same_tree [OF t] split: if_splits)
  then show ?thesis by (simp add: SetXAttr_def r)
qed

lemma fs_inv_tables:
  assumes inv: "fs_inv T s"
  shows "fs_inv T (snd (RemoveXAttr i nm s))" "fs_inv T (snd (TrimChangelog upTo s))"
    "fs_inv T (snd (SetStoreClass i class s))" "fs_inv T (snd (SetContentHash i hash s))"
proof -
  have st: "fs_inv T (snd (run_stmt st s))" if "\<And>x d. st (s_db s) = Some (x, d) \<Longrightarrow> same_tree (s_db s) d"
    for st :: "db \<Rightarrow> ('z \<times> db) option"
    by (rule fs_inv_run_stmt [OF inv prod.collapse [symmetric]]) (simp add: ghosts_same_tree [OF that])
  have up: "fs_inv T (snd (run_stmt (upd_node_count i f) s))"
    if "\<And>r. n_inode (f r) = n_inode r \<and> n_type (f r) = n_type r \<and> n_nlink (f r) = n_nlink r \<and> n_parent (f r) = n_parent r" for f
    by (rule fs_inv_attr_stmt [OF inv prod.collapse [symmetric] that])
  show "fs_inv T (snd (RemoveXAttr i nm s))"
    using st [of "del_xattr i nm"] by (auto simp: RemoveXAttr_def del_xattr_def same_tree_def split: prod.splits option.splits)
  show "fs_inv T (snd (TrimChangelog upTo s))"
    using st [of "trim_log (\<lambda>c. int (ch_lsn c) \<le> upTo)"] inv by (auto simp: TrimChangelog_def trim_log_def same_tree_def)
  show "fs_inv T (snd (SetStoreClass i class s))"
    using up [of "\<lambda>r. r\<lparr>n_store_class := class\<rparr>"] by (auto simp: SetStoreClass_def split: prod.splits option.splits)
  show "fs_inv T (snd (SetContentHash i hash s))"
    using up [of "\<lambda>r. r\<lparr>n_content_hash := hash\<rparr>"] by (auto simp: SetContentHash_def split: prod.splits option.splits)
qed

lemma fs_inv_SetAttr:
  assumes "fs_inv T s"
  shows "fs_inv T (snd (SetAttr i sm attr c s))"
proof -
  obtain q s1 where f: "fenced_tx i (SetAttr_tx i sm attr c (s_now s)) s = (q, s1)" by (rule prod.exhaust)
  have "fs_inv T s1" by (rule fs_inv_fenced [OF assms SetAttr_tx_mono f]) (rule SetAttr_tx_ghost)
  then show ?thesis using fs_inv_GetAttrOrNil f by (simp add: SetAttr_def case_prod_beta split: sum.splits)
qed

lemma fs_inv_Open: "fs_inv T s \<Longrightarrow> fs_inv T (snd (Open_inode i s))"
  using fs_inv_GetAttr [of T s i]
  by (auto simp: Open_inode_def OpenRef_def intro!: fs_inv_eng split: prod.splits sum.splits)

lemma Link_leases: "same_but_leases db d \<Longrightarrow> ilinks d = ilinks db"
  using same_tree_views(3) [OF same_tree_stmts(6)] .

lemma fs_op_inv:
  assumes "fs_op scan s s'" and inv: "fs_inv T s"
  shows "fs_inv T s'"
  using assms(1)
proof cases
  case (do_link i p nm r)
  show ?thesis
    by (rule fs_inv_fenced [OF inv Link_tx_mono do_link(1) [unfolded Link_def]])
      (use do_link(2) [unfolded link_source_named_def] Link_leases in \<open>auto intro: Link_tx_ghost\<close>)
next
  case (do_rename pS nS pD nD flags r)
  show ?thesis by (rule fs_inv_Rename [OF inv do_rename(1)]) (use do_rename(2) in \<open>simp add: rename_target_exists_def\<close>)
next
  case (do_rmdir p nm r)
  show ?thesis by (rule fs_inv_fenced [OF inv Rmdir_tx_mono do_rmdir [unfolded Rmdir_def]]) (rule Rmdir_tx_ghost)
next
  case (do_write i indx off sl r)
  show ?thesis by (rule fs_inv_fenced [OF inv Write_tx_mono do_write [unfolded Write_def]]) (rule Write_tx_ghost)
next
  case (do_truncate i sz r)
  show ?thesis by (rule fs_inv_fenced [OF inv Truncate_tx_mono do_truncate [unfolded Truncate_def]]) (rule Truncate_tx_ghost)
next
  case (do_clone src dst r)
  show ?thesis by (rule fs_inv_fenced [OF inv Clone_tx_mono do_clone [unfolded Clone_def]]) (rule Clone_tx_ghost)
next
  case (do_clone_range src dst si di n r)
  show ?thesis
  proof (cases "n = 0")
    case True
    then show ?thesis using do_clone_range inv by (simp add: CloneRange_def)
  next
    case False
    then have f: "fenced_tx dst (CloneRange_tx scan src dst si di n (s_now s)) s = (r, s')"
      using do_clone_range by (simp add: CloneRange_def)
    show ?thesis by (rule fs_inv_fenced [OF inv CloneRange_tx_mono f]) (rule CloneRange_tx_ghost)
  qed
next
  case (do_lock lop)
  then show ?thesis using fs_inv_same_tree [OF inv] same_tree_lock_do by simp
qed (use fs_inv_create [OF inv] fs_inv_Unlink [OF inv] fs_inv_Close [OF inv] fs_inv_NewSlice [OF inv]
      fs_inv_SetAttr [OF inv] fs_inv_Open [OF inv] fs_inv_SetXAttr [OF inv] fs_inv_tables [OF inv] in \<open>metis snd_conv\<close>)+

section \<open>All mounts together\<close>

definition world_ok :: "db \<Rightarrow> (nat \<Rightarrow> engine) \<Rightarrow> bool" where
  "world_ok db es \<longleftrightarrow> ghosts_ok (\<Union>k. e_sustained (es k)) db \<and>
     (\<forall>k l. k \<noteq> l \<longrightarrow> e_sustained (es k) \<inter> e_sustained (es l) = {})"

definition others :: "(nat \<Rightarrow> engine) \<Rightarrow> nat \<Rightarrow> Ino set" where
  "others es k = (\<Union>l \<in> - {k}. e_sustained (es l))"

lemma world_ok_iff_fs_inv:
  assumes "\<forall>l m. l \<noteq> m \<and> l \<noteq> k \<and> m \<noteq> k \<longrightarrow> e_sustained (es l) \<inter> e_sustained (es m) = {}"
  shows "world_ok (s_db s) (es(k := s_eng s)) \<longleftrightarrow> fs_inv (others es k) s"
proof -
  let ?es = "es(k := s_eng s)"
  have u: "(\<Union>l. e_sustained (?es l)) = others es k \<union> e_sustained (s_eng s)" by (auto simp: others_def split: if_splits)
  have "(\<forall>l m. l \<noteq> m \<longrightarrow> e_sustained (?es l) \<inter> e_sustained (?es m) = {}) \<longleftrightarrow> others es k \<inter> e_sustained (s_eng s) = {}"
    using assms by (auto simp: others_def)
  then show ?thesis unfolding world_ok_def fs_inv_def u by simp
qed

lemma bootstrap_tree_ok:
  assumes "bootstrap \<lparr>s_db = empty_db, s_eng = e, s_faults = fs, s_now = now\<rparr> = (True, s)"
  shows "tree_ok (s_db s)"
proof -
  have mono: "fault_mono (bootstrap_tx now)" unfolding bootstrap_tx_def by (intro fault_intros)
  obtain q s1 where r: "run_tx (bootstrap_tx now) \<lparr>s_db = empty_db, s_eng = e, s_faults = fs, s_now = now\<rparr> = (q, s1)"
    by (rule prod.exhaust)
  with assms obtain x where q: "q = Inr x" and s1: "s1 = s" by (cases q) (simp_all add: bootstrap_def)
  have "t_node d = [root_row (unix_s now)] \<and> t_edge d = []" if "bootstrap_tx now [] empty_db = (Inr (x, d), [])" for d
    using that by (auto simp: bootstrap_tx_def tx_simps seed_node_def ins_node_def sel_node_def sel_def empty_db_def seed_counter_def)
  with run_tx_commit [OF mono r [unfolded q s1]] have db: "t_node (s_db s) = [root_row (unix_s now)]" "t_edge (s_db s) = []"
    by simp_all
  have e: "sel_edge (s_db s) p nm = None" "ilinks (s_db s) i = 0" "subdirs (s_db s) i = 0" for p nm i
    by (simp_all add: sel_edge_def ilinks_def subdirs_def db)
  have n: "sel_node (s_db s) i = (if i = RootInode then Some (root_row (unix_s now)) else None)" for i
    by (auto simp: sel_node_def db sel_def root_row_def)
  show ?thesis
    unfolding tree_ok_def using e n
    by (auto simp: uniq_def db root_row_def node_ok_def edge_ok_def split: if_splits)
qed

lemma fs_reach_world_ok: "fs_reach scan db es \<Longrightarrow> world_ok db es"
proof (induction rule: fs_reach.induct)
  case (start e fs now s es)
  then show ?case using bootstrap_tree_ok [OF start(1)] by (simp add: world_ok_def ghosts_ok_def)
next
  case (step db es k fs now s')
  let ?s = "\<lparr>s_db = db, s_eng = es k, s_faults = fs, s_now = now\<rparr>"
  have d: "\<forall>l m. l \<noteq> m \<and> l \<noteq> k \<and> m \<noteq> k \<longrightarrow> e_sustained (es l) \<inter> e_sustained (es m) = {}"
    using step.IH by (simp add: world_ok_def)
  have "fs_inv (others es k) ?s" using step.IH world_ok_iff_fs_inv [OF d, of ?s] by simp
  then have "fs_inv (others es k) s'" by (rule fs_op_inv [OF step.hyps(2)])
  then show ?case by (rule world_ok_iff_fs_inv [OF d, THEN iffD2])
next
  case (restart db es e k)
  have sub: "(\<Union>l. e_sustained ((es(k := e)) l)) \<subseteq> (\<Union>l. e_sustained (es l))" using restart.hyps(2) by (auto split: if_splits)
  have "e_sustained ((es(k := e)) l) \<inter> e_sustained ((es(k := e)) m) = {}" if "l \<noteq> m" for l m
    using restart.IH restart.hyps(2) that by (simp add: world_ok_def)
  moreover have "ghosts_ok (\<Union>l. e_sustained (es l)) db" using restart.IH by (simp add: world_ok_def)
  ultimately show ?case unfolding world_ok_def using ghosts_subset [OF _ sub] by blast
next
  case (reap db es e fs now r s')
  let ?s = "\<lparr>s_db = db, s_eng = e, s_faults = fs, s_now = now\<rparr>"
  have ok: "tree_ok db" using reap.IH by (simp add: world_ok_def ghosts_ok_def)
  obtain q where "run_tx (query zombies (\<lambda>zs. reap_all zs 0)) ?s = (q, s')"
    using reap.hyps(3) by (auto simp: ReapOrphanedInodes_def split: prod.splits sum.splits)
  from run_tx_preserves [where P = tree_ok, OF reap_tx_mono this] have "tree_ok (s_db s')"
    using ok Reap_tree_ok [OF ok] by (auto simp: tx_simps reap_all_ok)
  then show ?case using reap.hyps(2) by (simp add: world_ok_def ghosts_ok_def)
qed

text \<open>C1: In every state that mounts reach over one database by serial transactions, the directory tree is well formed (unique
  rows, a root directory, link counts equal to the number of names, every entry between existing nodes of the right
  type), an unlinked open file of a mount still has its row and has no name, and no two mounts hold the same one.  The
  mounts interleave operations one transaction at a time, SQL statements fail anywhere, and mounts stop and start again;
  assumed is that the source of a hard link has a name and that the target directory of a rename exists when the
  transaction runs (the engine checks neither), and that orphans are reaped only while no mount holds an unlinked open
  file.\<close>

theorem fs_reachable_ok:
  assumes "fs_reach scan db es"
  shows "tree_ok db \<and> (\<forall>k. \<forall>i \<in> e_sustained (es k). ghost db i) \<and>
    (\<forall>k l. k \<noteq> l \<longrightarrow> e_sustained (es k) \<inter> e_sustained (es l) = {})"
  using fs_reach_world_ok [OF assms] by (auto simp: world_ok_def ghosts_ok_def)

text \<open>A mount that creates a file, opens it and unlinks it.\<close>

definition demo_root :: Context where
  "demo_root = \<lparr>c_uid = 0, c_gid = 0, c_pid = 0\<rparr>"

definition demo_open :: sys where
  "demo_open = snd (Open_inode 2 (snd (create 1 ''f'' TypeFile 420 0 '''' OpMknod demo_root
     \<lparr>s_db = fresh_db, s_eng = Open_engine 0 0, s_faults = [], s_now = 0\<rparr>)))"

lemma demo_sustained: "e_sustained (s_eng (snd (Unlink 1 ''f'' demo_open))) = {2}"
  by code_simp

lemma fs_reach_step:
  assumes "fs_reach scan (s_db s) (es(k := s_eng s))" and "fs_op scan s s'"
  shows "fs_reach scan (s_db s') (es(k := s_eng s'))"
proof -
  have "fs_op scan \<lparr>s_db = s_db s, s_eng = (es(k := s_eng s)) k, s_faults = s_faults s, s_now = s_now s\<rparr> s'"
    using assms(2) by (cases s) simp
  from fs_reach.step [OF assms(1) this] show ?thesis unfolding fun_upd_upd .
qed

theorem fs_reachable_ok_witness:
  "e_sustained (s_eng (snd (Unlink 1 ''f'' demo_open))) = {2} \<and> ghost (s_db (snd (Unlink 1 ''f'' demo_open))) 2"
proof -
  let ?e = "Open_engine 0 0" and ?es = "\<lambda>k :: nat. Open_engine 0 0"
  let ?s0 = "\<lparr>s_db = empty_db, s_eng = ?e, s_faults = [], s_now = 0\<rparr>"
  let ?s1 = "\<lparr>s_db = fresh_db, s_eng = ?e, s_faults = [], s_now = 0\<rparr>"
  let ?s2 = "snd (create 1 ''f'' TypeFile 420 0 '''' OpMknod demo_root ?s1)"
  have "fst (bootstrap ?s0)" by code_simp
  then have b: "bootstrap ?s0 = (True, snd (bootstrap ?s0))" by (metis prod.collapse)
  have "?es(0 := s_eng ?s1) = ?es" and "e_sustained (?es k) = {}" for k by (simp_all add: fun_eq_iff Open_engine_def)
  then have "fs_reach id (s_db ?s1) (?es(0 := s_eng ?s1))"
    using fs_reach.start [OF b, of ?es id] by (simp add: fresh_db_def)
  from fs_reach_step [OF this do_create [OF prod.collapse [symmetric]]]
  have "fs_reach id (s_db ?s2) (?es(0 := s_eng ?s2))" by simp
  from fs_reach_step [OF this do_open [OF prod.collapse [symmetric]], of 2]
  have "fs_reach id (s_db demo_open) (?es(0 := s_eng demo_open))" by (simp only: demo_open_def)
  from fs_reach_step [OF this do_unlink [OF prod.collapse [symmetric]], of 1 "''f''"]
  have "\<forall>i \<in> e_sustained (s_eng (snd (Unlink 1 ''f'' demo_open))). ghost (s_db (snd (Unlink 1 ''f'' demo_open))) i"
    by (auto dest!: fs_reachable_ok dest: spec [of _ 0])
  then show ?thesis using demo_sustained by simp
qed

section \<open>What the engine does not check\<close>

text \<open>
  \<open>Rename\<close> never looks at the row of the target directory.  When another mount has removed it, the move
  succeeds and the file hangs under an inode that does not exist.
\<close>

definition demo_file :: sys where
  "demo_file = snd (create 1 ''f'' TypeFile 420 0 '''' OpMknod demo_root
     \<lparr>s_db = fresh_db, s_eng = Open_engine 0 0, s_faults = [], s_now = 0\<rparr>)"

theorem Rename_dangling:
  "\<not> isl (fst (Rename 1 ''f'' 99 ''g'' 0 demo_file)) \<and>
   sel_node (s_db demo_file) 99 = None \<and>
   map_option ed_inode (sel_edge (s_db (snd (Rename 1 ''f'' 99 ''g'' 0 demo_file))) 99 ''g'') = Some 2"
  by code_simp

text \<open>
  A rename over an existing file deletes that file's node and symlink rows but not its slice rows, which stay
  live for the collector although no inode leads to them; \<open>Unlink\<close> of the same file removes them.
\<close>

definition demo_two :: sys where
  "demo_two = snd (Write 3 0 0 \<lparr>sl_id = 7, sl_size = 10, sl_off = 0, sl_len = 10\<rparr>
     (snd (create 1 ''g'' TypeFile 420 0 '''' OpMknod demo_root demo_file)))"

theorem Rename_replace_leaks_slices:
  "sel_node (s_db (snd (Rename 1 ''f'' 1 ''g'' 0 demo_two))) 3 = None \<and>
   7 \<in> live_ids (s_db (snd (Rename 1 ''f'' 1 ''g'' 0 demo_two))) \<and>
   7 \<notin> live_ids (s_db (snd (Unlink 1 ''g'' demo_two)))"
  by code_simp

text \<open>It also ignores an open handle on the replaced file: the rows go at once, although \<open>Unlink\<close> would keep them.\<close>

theorem Rename_replace_ignores_handles:
  "isOpen (s_eng (snd (Open_inode 3 demo_two))) 3 \<and>
   sel_node (s_db (snd (Rename 1 ''f'' 1 ''g'' 0 (snd (Open_inode 3 demo_two))))) 3 = None \<and>
   sel_node (s_db (snd (Unlink 1 ''g'' (snd (Open_inode 3 demo_two))))) 3 \<noteq> None"
  by code_simp

text \<open>
  \<open>Link\<close> does not look at the link count: it gives a name to a file that a mount holds open and unlinked, and when that
  mount closes it the rows go and the name stays, without a node.
\<close>

theorem Link_unlinked_dangling:
  "let s1 = snd (Unlink 1 ''f'' demo_open); s2 = snd (Link 2 1 ''g'' s1); s3 = snd (Close 2 s2)
   in \<not> isl (fst (Link 2 1 ''g'' s1)) \<and> map_option ed_inode (sel_edge (s_db s3) 1 ''g'') = Some 2 \<and> sel_node (s_db s3) 2 = None"
  by code_simp

end
