(* ===== verification/Bytes.thy ===== *)
theory Bytes
  imports Prelude
begin

text \<open>
  The parts of Go's encoding/binary and hash/crc32 the sources use: big-endian integers of a given number of
  bytes and the IEEE checksum, with the round trip of the encoding.
\<close>

section \<open>Big-endian integers\<close>

text \<open>\<open>binary.BigEndian.PutUint32\<close>, \<open>PutUint64\<close> and their inverses; the number of bytes is the first argument.\<close>

primrec put_be :: "nat \<Rightarrow> 'a::len word \<Rightarrow> bytes" where
  "put_be 0 w = []"
| "put_be (Suc n) w = ucast (drop_bit (8 * n) w) # put_be n w"

primrec get_be :: "bytes \<Rightarrow> 'a::len word" where
  "get_be [] = 0"
| "get_be (b # bs) = or (push_bit (8 * length bs) (ucast b)) (get_be bs)"

lemma length_put_be [simp]: "length (put_be n w) = n"
  by (induction n) simp_all

lemma get_put_be: "get_be (put_be n w) = take_bit (8 * n) (w :: 'a::len word)"
proof (induction n)
  case 0
  then show ?case by simp
next
  case (Suc n)
  have "get_be (put_be (Suc n) w) = or (push_bit (8 * n) (ucast (ucast (drop_bit (8 * n) w) :: u8))) (take_bit (8 * n) w)"
    by (simp add: Suc.IH)
  also have "\<dots> = take_bit (8 * Suc n) w"
  proof (rule bit_word_eqI)
    fix k
    assume k: "k < LENGTH('a)"
    show "bit (or (push_bit (8 * n) (ucast (ucast (drop_bit (8 * n) w) :: u8))) (take_bit (8 * n) w)) k \<longleftrightarrow>
      bit (take_bit (8 * Suc n) w) k"
      using k by (cases "k < 8 * n") (auto simp: bit_simps)
  qed
  finally show ?case .
qed

lemma get_put_be_u32 [simp]: "get_be (put_be 4 w) = (w :: u32)"
  by (simp add: get_put_be take_bit_word_eq_self)

lemma get_put_be_u64 [simp]: "get_be (put_be 8 w) = (w :: u64)"
  by (simp add: get_put_be take_bit_word_eq_self)

section \<open>The IEEE checksum\<close>

definition crc_poly :: u32 where
  "crc_poly = 0xEDB88320"

definition crc_bit :: "u32 \<Rightarrow> u32" where
  "crc_bit c = (if bit c 0 then xor (drop_bit 1 c) crc_poly else drop_bit 1 c)"

definition crc_byte :: "u8 \<Rightarrow> u32 \<Rightarrow> u32" where
  "crc_byte b c = (crc_bit ^^ 8) (xor c (ucast b))"

definition crc32 :: "bytes \<Rightarrow> u32" where
  "crc32 bs = not (fold crc_byte bs (not 0))"

end
