(* ===== verification/Wal.thy ===== *)
theory Wal
  imports Bytes "HOL-Library.AList"
begin

text \<open>
  The local write-ahead log: mlfs/internal/wal/wal.go.

  The log directory is a list of named files.  A file is its bytes and the number of leading bytes that are
  known to be on disk; Sync makes all of them durable and a crash keeps any longer prefix.  Which system calls
  fail is an argument of each operation.
\<close>

section \<open>Records\<close>

definition OpWrite :: u8 where "OpWrite = 1"

definition OpTruncate :: u8 where "OpTruncate = 2"

record Record =
  r_Seq :: u64
  r_Op :: u8
  r_Ino :: u64
  r_Indx :: u32
  r_Off :: u32
  r_SliceID :: u64
  r_Size :: u32
  r_SliceOff :: u32
  r_SliceLen :: u32

definition recordPayloadLen :: nat where
  "recordPayloadLen = 8 + 1 + 8 + 4 + 4 + 8 + 4 + 4 + 4"

definition marshal :: "Record \<Rightarrow> bytes" where
  "marshal r = put_be 8 (r_Seq r) @ [r_Op r] @ put_be 8 (r_Ino r) @ put_be 4 (r_Indx r) @ put_be 4 (r_Off r) @
     put_be 8 (r_SliceID r) @ put_be 4 (r_Size r) @ put_be 4 (r_SliceOff r) @ put_be 4 (r_SliceLen r)"

definition unmarshalRecord :: "bytes \<Rightarrow> Record option" where
  "unmarshalRecord b =
    (if length b \<noteq> recordPayloadLen then None
     else Some \<lparr>r_Seq = get_be (take 8 b), r_Op = b ! 8, r_Ino = get_be (take 8 (drop 9 b)),
       r_Indx = get_be (take 4 (drop 17 b)), r_Off = get_be (take 4 (drop 21 b)),
       r_SliceID = get_be (take 8 (drop 25 b)), r_Size = get_be (take 4 (drop 33 b)),
       r_SliceOff = get_be (take 4 (drop 37 b)), r_SliceLen = get_be (take 4 (drop 41 b))\<rparr>)"

section \<open>The log directory\<close>

record file_state =
  f_data :: bytes
  f_durable :: nat

type_synonym disk = "(string \<times> file_state) list"

definition append_file :: "string \<Rightarrow> bytes \<Rightarrow> disk \<Rightarrow> disk" where
  "append_file p bs d = (case map_of d p of
      None \<Rightarrow> d
    | Some f \<Rightarrow> AList.update p (f\<lparr>f_data := f_data f @ bs\<rparr>) d)"

definition sync_file :: "string \<Rightarrow> disk \<Rightarrow> disk" where
  "sync_file p d = (case map_of d p of
      None \<Rightarrow> d
    | Some f \<Rightarrow> AList.update p (f\<lparr>f_durable := length (f_data f)\<rparr>) d)"

definition truncate_file :: "string \<Rightarrow> nat \<Rightarrow> disk \<Rightarrow> disk" where
  "truncate_file p n d = (case map_of d p of
      None \<Rightarrow> d
    | Some f \<Rightarrow> AList.update p (f\<lparr>f_data := take n (f_data f), f_durable := min n (f_durable f)\<rparr>) d)"

text \<open>Open with O_CREATE and O_APPEND.\<close>

definition create_file :: "string \<Rightarrow> disk \<Rightarrow> disk" where
  "create_file p d = (if map_of d p = None then d @ [(p, \<lparr>f_data = [], f_durable = 0\<rparr>)] else d)"

text \<open>Which system calls of one operation succeed; a failing write leaves that many bytes in the file.\<close>

record os_calls =
  os_open :: "string \<Rightarrow> bool"
  os_create :: bool
  os_dirsync :: bool
  os_truncate :: bool
  os_write :: "nat option"
  os_sync :: bool
  os_rollsync :: bool
  os_remove :: "string \<Rightarrow> bool"

section \<open>Segment names\<close>

text \<open>\<open>fmt.Sprintf("wal-%020d.log", startSeq)\<close> and the \<open>Sscanf\<close> that reads it back.\<close>

primrec dec_digits :: "nat \<Rightarrow> nat \<Rightarrow> string" where
  "dec_digits 0 n = []"
| "dec_digits (Suc k) n = char_of (48 + n div 10 ^ k mod 10) # dec_digits k n"

definition seg_name :: "u64 \<Rightarrow> string" where
  "seg_name startSeq = ''wal-'' @ dec_digits 20 (unat startSeq) @ ''.log''"

definition is_digit :: "char \<Rightarrow> bool" where
  "is_digit c \<longleftrightarrow> 48 \<le> (of_char c :: nat) \<and> (of_char c :: nat) \<le> 57"

definition dec_value :: "string \<Rightarrow> nat" where
  "dec_value s = foldl (\<lambda>n c. 10 * n + (of_char c - 48)) 0 s"

definition strip_prefix :: "string \<Rightarrow> string \<Rightarrow> string option" where
  "strip_prefix p s = (if take (length p) s = p then Some (drop (length p) s) else None)"

definition seg_start :: "string \<Rightarrow> u64 option" where
  "seg_start nm = (case strip_prefix ''wal-'' nm of
      None \<Rightarrow> None
    | Some rest \<Rightarrow>
        (let ds = takeWhile is_digit rest in
         if ds = [] \<or> 2 ^ 64 \<le> dec_value ds \<or> strip_prefix ''.log'' (dropWhile is_digit rest) = None then None
         else Some (word_of_nat (dec_value ds))))"

text \<open>\<open>filepath.Glob("wal-*.log")\<close>.\<close>

definition wal_glob :: "string \<Rightarrow> bool" where
  "wal_glob nm \<longleftrightarrow> 8 \<le> length nm \<and> take 4 nm = ''wal-'' \<and> drop (length nm - 4) nm = ''.log''"

section \<open>Frames\<close>

definition frame :: "Record \<Rightarrow> bytes" where
  "frame r = (let payload = marshal r in
     put_be 4 (word_of_nat (length payload) :: u32) @ put_be 4 (crc32 payload) @ payload)"

text \<open>One round of the read loops of \<open>scanSegment\<close> and \<open>replaySegment\<close>: the record and what follows it.\<close>

definition read_frame :: "bytes \<Rightarrow> (Record \<times> bytes) option" where
  "read_frame bs =
    (if length bs < 8 then None
     else let plen = (get_be (take 4 bs) :: u32);
              crc = (get_be (take 4 (drop 4 bs)) :: u32);
              rest = drop 8 bs
          in if plen \<noteq> word_of_nat recordPayloadLen then None
             else if length rest < unat plen then None
             else let payload = take (unat plen) rest
                  in if crc32 payload \<noteq> crc then None
                     else (case unmarshalRecord payload of
                         None \<Rightarrow> None
                       | Some rec \<Rightarrow> Some (rec, drop (unat plen) rest)))"

lemma read_frame_shorter: "read_frame bs = Some (rec, rest) \<Longrightarrow> length rest < length bs"
  by (auto simp: read_frame_def Let_def split: if_splits option.splits)

function scan_loop :: "bytes \<Rightarrow> nat \<Rightarrow> u64 \<Rightarrow> nat \<Rightarrow> nat \<times> u64 \<times> nat" where
  "scan_loop bs count maxSeq validEnd = (case read_frame bs of
      None \<Rightarrow> (count, maxSeq, validEnd)
    | Some (rec, rest) \<Rightarrow>
        scan_loop rest (count + 1) (if maxSeq < r_Seq rec then r_Seq rec else maxSeq) (validEnd + (8 + recordPayloadLen)))"
  by pat_completeness auto
termination by (relation "measure (\<lambda>(bs, c, m, v). length bs)") (auto dest: read_frame_shorter)

definition scanSegment :: "string \<Rightarrow> bool \<Rightarrow> os_calls \<Rightarrow> disk \<Rightarrow> (nat \<times> u64) option \<times> disk" where
  "scanSegment path truncTorn os d = (case map_of d path of
      None \<Rightarrow> (None, d)
    | Some f \<Rightarrow>
        if \<not> os_open os path then (None, d)
        else (case scan_loop (f_data f) 0 0 0 of
            (count, maxSeq, validEnd) \<Rightarrow>
              if truncTorn \<and> length (f_data f) \<noteq> validEnd
              then (if os_truncate os then (Some (count, maxSeq), truncate_file path validEnd d) else (None, d))
              else (Some (count, maxSeq), d)))"

section \<open>Opening\<close>

record segment =
  ws_path :: string
  ws_startSeq :: u64
  ws_maxSeq :: u64

record WAL =
  w_segmentSize :: int
  w_seq :: u64
  w_segs :: "segment list"
  w_cur :: "string option"
  w_curBytes :: int

definition DefaultSegmentBytes :: int where
  "DefaultSegmentBytes = 64 * 2 ^ 20"

definition rollLocked :: "u64 \<Rightarrow> os_calls \<Rightarrow> WAL \<Rightarrow> disk \<Rightarrow> bool \<times> WAL \<times> disk" where
  "rollLocked startSeq os w d =
    (let d1 = (case w_cur w of None \<Rightarrow> d | Some c \<Rightarrow> if os_rollsync os then sync_file c d else d);
         path = seg_name startSeq
     in if \<not> os_create os then (False, w, d1)
        else (let d2 = create_file path d1
              in if \<not> os_dirsync os then (False, w, d2)
                 else (True, w\<lparr>w_cur := Some path, w_curBytes := 0,
                   w_segs := w_segs w @ [\<lparr>ws_path = path, ws_startSeq = startSeq, ws_maxSeq = 0\<rparr>]\<rparr>, d2)))"

definition seg_entries :: "disk \<Rightarrow> segment list" where
  "seg_entries d = List.map_filter (\<lambda>p. map_option (\<lambda>start. \<lparr>ws_path = p, ws_startSeq = start, ws_maxSeq = 0\<rparr>) (seg_start p))
     (sort (filter wal_glob (map fst d)))"

fun scan_all :: "segment list \<Rightarrow> u64 \<Rightarrow> os_calls \<Rightarrow> disk \<Rightarrow> (segment list \<times> u64) option \<times> disk" where
  "scan_all [] sq os d = (Some ([], sq), d)"
| "scan_all (s # ss) sq os d = (case scanSegment (ws_path s) (ss = []) os d of
      (None, d1) \<Rightarrow> (None, d1)
    | (Some (count, maxSeq), d1) \<Rightarrow>
        (case scan_all ss (if sq < maxSeq then maxSeq else sq) os d1 of
           (None, d2) \<Rightarrow> (None, d2)
         | (Some (ss', sq'), d2) \<Rightarrow> (Some (s\<lparr>ws_maxSeq := maxSeq\<rparr> # ss', sq'), d2)))"

definition load :: "WAL \<Rightarrow> os_calls \<Rightarrow> disk \<Rightarrow> WAL option \<times> disk" where
  "load w os d = (case scan_all (seg_entries d) (w_seq w) os d of
      (None, d1) \<Rightarrow> (None, d1)
    | (Some (segs, sq), d1) \<Rightarrow>
        (let w1 = w\<lparr>w_segs := segs, w_seq := sq\<rparr>
         in if segs = [] then (case rollLocked 1 os w1 d1 of (ok, w2, d2) \<Rightarrow> (if ok then Some w2 else None, d2))
            else (let p = ws_path (last segs)
                  in if \<not> os_open os p then (None, d1)
                     else (Some (w1\<lparr>w_cur := Some p,
                       w_curBytes := (case map_of d1 p of None \<Rightarrow> 0 | Some f \<Rightarrow> int (length (f_data f)))\<rparr>), d1))))"

definition Open_wal :: "os_calls \<Rightarrow> disk \<Rightarrow> WAL option \<times> disk" where
  "Open_wal os d = load \<lparr>w_segmentSize = DefaultSegmentBytes, w_seq = 0, w_segs = [], w_cur = None, w_curBytes = 0\<rparr> os d"

section \<open>Appending, replaying, dropping\<close>

definition set_last_max :: "u64 \<Rightarrow> segment list \<Rightarrow> segment list" where
  "set_last_max sq segs = (if segs = [] then [] else butlast segs @ [(last segs)\<lparr>ws_maxSeq := sq\<rparr>])"

text \<open>\<open>Append\<close>: \<open>None\<close> is an error; a write to a closed log fails.\<close>

definition append_here :: "Record \<Rightarrow> os_calls \<Rightarrow> WAL \<Rightarrow> disk \<Rightarrow> u64 option \<times> WAL \<times> disk" where
  "append_here rec os w d =
    (let sq = w_seq w + 1;
         w1 = w\<lparr>w_seq := sq\<rparr>;
         fr = frame (rec\<lparr>r_Seq := sq\<rparr>)
     in case w_cur w of
          None \<Rightarrow> (None, w1, d)
        | Some c \<Rightarrow>
            (case os_write os of
               Some n \<Rightarrow> (None, w1, append_file c (take n fr) d)
             | None \<Rightarrow>
                 (let d1 = append_file c fr d
                  in if \<not> os_sync os then (None, w1, d1)
                     else (Some sq, w1\<lparr>w_curBytes := w_curBytes w + int (length fr), w_segs := set_last_max sq (w_segs w)\<rparr>,
                       sync_file c d1))))"

definition Append :: "Record \<Rightarrow> os_calls \<Rightarrow> WAL \<Rightarrow> disk \<Rightarrow> u64 option \<times> WAL \<times> disk" where
  "Append rec os w d =
    (if w_cur w \<noteq> None \<and> w_segmentSize w \<le> w_curBytes w
     then (case rollLocked (w_seq w + 1) os w d of
         (False, w1, d1) \<Rightarrow> (None, w1, d1)
       | (True, w1, d1) \<Rightarrow> append_here rec os w1 d1)
     else append_here rec os w d)"

text \<open>The handler of a replay threads a state and may stop it with an error.\<close>

function replaySegment :: "bytes \<Rightarrow> (Record \<Rightarrow> 'st \<Rightarrow> 'e option \<times> 'st) \<Rightarrow> 'st \<Rightarrow> 'e option \<times> 'st" where
  "replaySegment bs fn st = (case read_frame bs of
      None \<Rightarrow> (None, st)
    | Some (rec, rest) \<Rightarrow>
        (case fn rec st of
           (Some e, st') \<Rightarrow> (Some e, st')
         | (None, st') \<Rightarrow> replaySegment rest fn st'))"
  by pat_completeness auto
termination by (relation "measure (\<lambda>(bs, fn, st). length bs)") (auto dest: read_frame_shorter)

text \<open>An error is the handler's (\<open>Inr\<close>) or that of opening a segment (\<open>Inl\<close>).\<close>

fun replay_segs :: "segment list \<Rightarrow> (Record \<Rightarrow> 'st \<Rightarrow> 'e option \<times> 'st) \<Rightarrow> os_calls \<Rightarrow> disk \<Rightarrow> 'st \<Rightarrow> (unit + 'e) option \<times> 'st" where
  "replay_segs [] fn os d st = (None, st)"
| "replay_segs (s # ss) fn os d st = (case map_of d (ws_path s) of
      None \<Rightarrow> (Some (Inl ()), st)
    | Some f \<Rightarrow>
        if \<not> os_open os (ws_path s) then (Some (Inl ()), st)
        else (case replaySegment (f_data f) fn st of
            (Some e, st') \<Rightarrow> (Some (Inr e), st')
          | (None, st') \<Rightarrow> replay_segs ss fn os d st'))"

definition Replay :: "(Record \<Rightarrow> 'st \<Rightarrow> 'e option \<times> 'st) \<Rightarrow> os_calls \<Rightarrow> WAL \<Rightarrow> disk \<Rightarrow> 'st \<Rightarrow> (unit + 'e) option \<times> 'st" where
  "Replay fn os w d st = replay_segs (w_segs w) fn os d st"

text \<open>\<open>Checkpoint\<close>: on a failing removal the list of segments is left as it was.\<close>

fun drop_segs :: "segment list \<Rightarrow> u64 \<Rightarrow> os_calls \<Rightarrow> disk \<Rightarrow> segment list option \<times> disk" where
  "drop_segs [] upTo os d = (Some [], d)"
| "drop_segs (s # ss) upTo os d =
    (if ss \<noteq> [] \<and> ws_maxSeq s \<noteq> 0 \<and> ws_maxSeq s \<le> upTo
     then (if map_of d (ws_path s) \<noteq> None \<and> \<not> os_remove os (ws_path s) then (None, d)
           else drop_segs ss upTo os (AList.delete (ws_path s) d))
     else (case drop_segs ss upTo os d of
         (None, d1) \<Rightarrow> (None, d1)
       | (Some keep, d1) \<Rightarrow> (Some (s # keep), d1)))"

definition Checkpoint :: "u64 \<Rightarrow> os_calls \<Rightarrow> WAL \<Rightarrow> disk \<Rightarrow> bool \<times> WAL \<times> disk" where
  "Checkpoint upToSeq os w d = (case drop_segs (w_segs w) upToSeq os d of
      (None, d1) \<Rightarrow> (False, w, d1)
    | (Some keep, d1) \<Rightarrow> (True, w\<lparr>w_segs := keep\<rparr>, d1))"

definition LastSeq :: "WAL \<Rightarrow> u64" where
  "LastSeq w = w_seq w"

definition Close_wal :: "os_calls \<Rightarrow> WAL \<Rightarrow> disk \<Rightarrow> bool \<times> WAL \<times> disk" where
  "Close_wal os w d = (case w_cur w of
      None \<Rightarrow> (True, w, d)
    | Some c \<Rightarrow> if os_sync os then (True, w\<lparr>w_cur := None\<rparr>, sync_file c d) else (False, w, d))"

section \<open>Frames round trip\<close>

lemma length_marshal [simp]: "length (marshal r) = recordPayloadLen"
  by (simp add: marshal_def recordPayloadLen_def)

lemma unmarshal_marshal [simp]: "unmarshalRecord (marshal r) = Some r"
proof -
  have "length (marshal r) = 45" by (simp add: recordPayloadLen_def)
  then show ?thesis
    by (simp add: unmarshalRecord_def recordPayloadLen_def) (simp add: marshal_def nth_append)
qed

lemma length_frame [simp]: "length (frame r) = 8 + recordPayloadLen"
  by (simp add: frame_def Let_def)

lemma unat_payload_len: "unat (word_of_nat recordPayloadLen :: u32) = recordPayloadLen"
  by (simp add: recordPayloadLen_def)

lemma frame_parts:
  "take 4 (frame r @ bs) = put_be 4 (word_of_nat recordPayloadLen :: u32)"
  "take 4 (drop 4 (frame r @ bs)) = put_be 4 (crc32 (marshal r))"
  "drop 8 (frame r @ bs) = marshal r @ bs"
  by (simp_all add: frame_def Let_def)

lemma read_frame_frame [simp]: "read_frame (frame r @ bs) = Some (r, bs)"
  unfolding read_frame_def Let_def frame_parts by (simp add: unat_payload_len)

text \<open>A frame that a crash has cut is no record.\<close>

lemma read_frame_torn:
  assumes "n < 8 + recordPayloadLen"
  shows "read_frame (take n (frame r)) = None"
proof (cases "n < 8")
  case False
  have "take 4 (take n (frame r)) = take 4 (frame r @ [])" using False by (simp add: min_def)
  also have "\<dots> = put_be 4 (word_of_nat recordPayloadLen :: u32)" by (rule frame_parts)
  finally have plen: "get_be (take 4 (take n (frame r))) = (word_of_nat recordPayloadLen :: u32)" by simp
  have "length (drop 8 (take n (frame r))) < recordPayloadLen" using assms False by simp
  then show ?thesis unfolding read_frame_def Let_def plen unat_payload_len by (simp only: if_True simp_thms if_cancel)
qed (simp add: read_frame_def)

lemma read_frame_Nil [simp]: "read_frame [] = None"
  by (simp add: read_frame_def)

abbreviation frames :: "Record list \<Rightarrow> bytes" where
  "frames rs \<equiv> concat (map frame rs)"

lemma length_frames [simp]: "length (frames rs) = (8 + recordPayloadLen) * length rs"
  by (induction rs) (simp_all add: algebra_simps)

declare scan_loop.simps [simp del] replaySegment.simps [simp del]

definition top_seq :: "u64 \<Rightarrow> Record list \<Rightarrow> u64" where
  "top_seq m rs = foldl (\<lambda>m r. if m < r_Seq r then r_Seq r else m) m rs"

lemma scan_loop_frames:
  assumes "read_frame t = None"
  shows "scan_loop (frames rs @ t) c m v = (c + length rs, top_seq m rs, v + length (frames rs))"
  using assms
  by (induction rs arbitrary: c m v) (subst scan_loop.simps, simp add: top_seq_def)+

fun feed_recs :: "(Record \<Rightarrow> 'st \<Rightarrow> 'e option \<times> 'st) \<Rightarrow> Record list \<Rightarrow> 'st \<Rightarrow> 'e option \<times> 'st" where
  "feed_recs fn [] st = (None, st)"
| "feed_recs fn (r # rs) st = (case fn r st of (Some e, st') \<Rightarrow> (Some e, st') | (None, st') \<Rightarrow> feed_recs fn rs st')"

lemma replaySegment_frames:
  assumes "read_frame t = None"
  shows "replaySegment (frames rs @ t) fn st = feed_recs fn rs st"
  using assms
  by (induction rs arbitrary: st) (subst replaySegment.simps, simp split: prod.splits option.splits)+

lemma feed_recs_append:
  "feed_recs fn (rs @ rs') st = (case feed_recs fn rs st of (Some e, st') \<Rightarrow> (Some e, st') | (None, st') \<Rightarrow> feed_recs fn rs' st')"
  by (induction rs arbitrary: st) (simp_all split: prod.splits option.splits)

section \<open>Names in numeric order\<close>

lemma digit_char: "a < 10 \<Longrightarrow> of_char (char_of (48 + a :: nat)) = 48 + a"
  by (simp add:)

lemma digit_less: "a < 10 \<Longrightarrow> b < 10 \<Longrightarrow> char_of (48 + a :: nat) < char_of (48 + b :: nat) \<longleftrightarrow> a < (b :: nat)"
  by (simp add: less_char_def)

lemma digit_eq: "a < 10 \<Longrightarrow> b < 10 \<Longrightarrow> char_of (48 + a :: nat) = char_of (48 + b :: nat) \<longleftrightarrow> a = (b :: nat)"
  using digit_char by (metis add_left_cancel)

lemma length_dec_digits [simp]: "length (dec_digits k n) = k"
  by (induction k) simp_all

lemma dec_digits_less:
  "dec_digits k m < dec_digits k n \<longleftrightarrow> m mod 10 ^ k < n mod 10 ^ k"
proof (induction k)
  case (Suc k)
  let ?a = "m div 10 ^ k mod 10" and ?b = "n div 10 ^ k mod 10" and ?x = "m mod 10 ^ k" and ?y = "n mod 10 ^ k"
  have "(x :: nat) mod 10 ^ Suc k = 10 ^ k * (x div 10 ^ k mod 10) + x mod 10 ^ k" for x
    by (simp add: mod_mult2_eq mult.commute [of 10])
  then have e: "m mod 10 ^ Suc k = 10 ^ k * ?a + ?x" "n mod 10 ^ Suc k = 10 ^ k * ?b + ?y" by blast+
  have lt: "?x < 10 ^ k" "?y < 10 ^ k" by simp_all
  have step: "10 ^ k * a + x < 10 ^ k * b + y" if "a < b" "x < 10 ^ k" for a b x y :: nat
  proof -
    have "10 ^ k * a + x < 10 ^ k * Suc a" using that(2) by simp
    also have "\<dots> \<le> 10 ^ k * b" using that(1) by (intro mult_le_mono2) simp
    finally show ?thesis by simp
  qed
  consider "?a < ?b" | "?a = ?b" | "?b < ?a" by linarith
  then show ?case
  proof cases
    case 1
    then show ?thesis unfolding e using step [OF 1 lt(1), of ?y] by (simp add: digit_less)
  next
    case 2
    then show ?thesis unfolding e using Suc.IH by simp
  next
    case 3
    then show ?thesis unfolding e using step [OF 3 lt(2), of ?x] by (simp add: digit_less digit_eq)
  qed
qed simp

lemma less_append_same: "length x = length y \<Longrightarrow> x @ z < y @ z \<longleftrightarrow> x < (y :: string)"
  by (induction x y rule: list_induct2) simp_all

lemma append_less_same: "z @ x < z @ y \<longleftrightarrow> x < (y :: string)"
  by (induction z) simp_all

lemma seg_name_less: "seg_name m < seg_name n \<longleftrightarrow> m < n"
proof -
  have "unat x < 10 ^ 20" for x :: u64
    using unsigned_less [of x, where 'a = nat] by simp
  then have "dec_digits 20 (unat m) < dec_digits 20 (unat n) \<longleftrightarrow> m < n"
    by (simp add: dec_digits_less word_less_nat_alt)
  then show ?thesis unfolding seg_name_def append_less_same by (subst less_append_same) simp_all
qed

lemma seg_name_eq [simp]: "seg_name m = seg_name n \<longleftrightarrow> m = n"
  using seg_name_less by (metis linorder_neqE less_irrefl)

lemma dec_value_snoc: "dec_value (s @ [c]) = 10 * dec_value s + (of_char c - 48)"
  by (simp add: dec_value_def)

lemma dec_value_Cons: "dec_value (c # s) = (of_char c - 48) * 10 ^ length s + dec_value s"
  by (induction s rule: rev_induct) (simp_all add: dec_value_snoc dec_value_def algebra_simps)

lemma dec_value_digits: "dec_value (dec_digits k n) = n mod 10 ^ k"
proof (induction k)
  case (Suc k)
  then show ?case
    by (simp add: dec_value_Cons mod_mult2_eq mult.commute [of 10])
qed (simp add: dec_value_def)

lemma digits_are_digits: "\<forall>c \<in> set (dec_digits k n). is_digit c"
  by (induction k) (simp_all add: is_digit_def)

lemma seg_start_name [simp]: "seg_start (seg_name n) = Some n"
proof -
  have nd: "\<not> is_digit (CHR ''.'')" by (simp add: is_digit_def)
  have t: "takeWhile is_digit (dec_digits 20 (unat n) @ ''.log'') = dec_digits 20 (unat n)"
    using digits_are_digits nd by (simp add: takeWhile_append2)
  have d: "dropWhile is_digit (dec_digits 20 (unat n) @ ''.log'') = ''.log''"
    using digits_are_digits nd by (simp add: dropWhile_append2)
  have v: "dec_value (dec_digits 20 (unat n)) = unat n"
    using unsigned_less [of n, where 'a = nat] by (simp add: dec_value_digits)
  have "dec_digits 20 (unat n) \<noteq> []" by (metis length_dec_digits list.size(3) zero_neq_numeral)
  then show ?thesis
    using unsigned_less [of n, where 'a = nat] by (simp add: seg_start_def seg_name_def strip_prefix_def t d v)
qed

lemma wal_glob_name [simp]: "wal_glob (seg_name n)"
  by (simp add: wal_glob_def seg_name_def)

section \<open>Properties\<close>

text \<open>C19: Frames are read back.  A frame followed by anything gives its record and what follows; a frame cut at any
  byte, as a crash leaves it, gives no record; segment names are read back and ordered like their numbers.\<close>

theorem frame_roundtrip:
  "read_frame (frame r @ rest) = Some (r, rest) \<and> (n < length (frame r) \<longrightarrow> read_frame (take n (frame r)) = None) \<and>
   seg_start (seg_name a) = Some a \<and> (seg_name a < seg_name b \<longleftrightarrow> a < b)"
  using read_frame_torn [of n r] seg_name_less by simp

theorem frame_roundtrip_witness:
  "3 < length (frame \<lparr>r_Seq = 7, r_Op = OpWrite, r_Ino = 2, r_Indx = 0, r_Off = 0, r_SliceID = 5, r_Size = 9, r_SliceOff = 0, r_SliceLen = 9\<rparr>) \<and>
   read_frame (take 3 (frame \<lparr>r_Seq = 7, r_Op = OpWrite, r_Ino = 2, r_Indx = 0, r_Off = 0, r_SliceID = 5, r_Size = 9, r_SliceOff = 0, r_SliceLen = 9\<rparr>)) = None"
  using frame_roundtrip [of "\<lparr>r_Seq = 7, r_Op = OpWrite, r_Ino = 2, r_Indx = 0, r_Off = 0, r_SliceID = 5, r_Size = 9, r_SliceOff = 0, r_SliceLen = 9\<rparr>" _ 3]
  by simp

end
