(* ===== verification/Wal_Recovery.thy ===== *)
theory Wal_Recovery
  imports Wal
begin

text \<open>
  What survives a crash: the log of mlfs/internal/wal/wal.go as an abstract list of segments, its invariant, and
  the proof that every acknowledged record is replayed until it has been checkpointed.
\<close>

section \<open>The abstract log\<close>

text \<open>
  A segment is its start number and its records.  The marks of a list of segments put start numbers and record
  numbers into one list of naturals, a start before the records with the same or a higher number.
\<close>

type_synonym entry = "u64 \<times> Record list"

definition marks :: "entry \<Rightarrow> nat list" where
  "marks e = (2 * unat (fst e) - 1) # map (\<lambda>r. 2 * unat (r_Seq r)) (snd e)"

definition recs :: "entry list \<Rightarrow> Record list" where
  "recs es = concat (map snd es)"

definition topn :: "entry list \<Rightarrow> nat" where
  "topn es = (if recs es = [] then 0 else unat (r_Seq (last (recs es))))"

definition chain :: "entry list \<Rightarrow> bool" where
  "chain es \<longleftrightarrow> es \<noteq> [] \<and> sorted_wrt (<) (concat (map marks es)) \<and> (\<forall>e \<in> set es. fst e \<noteq> 0) \<and>
     (\<forall>e \<in> set (butlast es). snd e \<noteq> []) \<and> (\<forall>x \<in> set (concat (map marks es)). x \<le> 2 * topn es + 1)"

lemma recs_simps [simp]: "recs [] = []" "recs (e # es) = snd e @ recs es" "recs (es @ es') = recs es @ recs es'"
  by (simp_all add: recs_def)

lemma chain_rec_le: "chain es \<Longrightarrow> r \<in> set (recs es) \<Longrightarrow> unat (r_Seq r) \<le> topn es"
  unfolding chain_def recs_def marks_def by fastforce

lemma sorted_recs:
  assumes "sorted_wrt (<) (concat (map marks es))"
  shows "sorted_wrt (\<lambda>a b. r_Seq a < r_Seq b) (recs es)"
proof -
  have "set (map (\<lambda>r. 2 * unat (r_Seq r)) (recs es)) \<subseteq> set (concat (map marks es))" for es
    by (auto simp: recs_def marks_def)
  moreover have "sorted_wrt (\<lambda>a b. r_Seq a < r_Seq b) (snd e)" if "sorted_wrt (<) (marks e)" for e
    using that by (simp add: marks_def sorted_wrt_map word_less_nat_alt)
  moreover have "2 * unat (r_Seq r) \<in> set (marks e)" if "r \<in> set (snd e)" for e r
    using that by (simp add: marks_def)
  ultimately show ?thesis using assms
    by (induction es) (fastforce simp: sorted_wrt_append word_less_nat_alt)+
qed

lemma sorted_starts:
  assumes "sorted_wrt (<) (concat (map marks es))" and "\<forall>e \<in> set es. fst e \<noteq> 0"
  shows "sorted_wrt (<) (map fst es)"
  using assms
proof (induction es)
  case (Cons e es)
  have "fst e < fst e'" if "e' \<in> set es" for e'
  proof -
    have "2 * unat (fst e') - 1 \<in> set (concat (map marks es))" using that by (auto simp: marks_def)
    then have "2 * unat (fst e) - 1 < 2 * unat (fst e') - 1"
      using Cons.prems(1) by (auto simp: sorted_wrt_append marks_def)
    then show ?thesis by (simp add: word_less_nat_alt)
  qed
  then show ?case using Cons by (simp add: sorted_wrt_append)
qed simp

lemma chain_append:
  assumes "chain (es @ [(s, rs)])" and r: "unat (r_Seq r) = Suc (topn (es @ [(s, rs)]))"
  shows "chain (es @ [(s, rs @ [r])])" and "topn (es @ [(s, rs @ [r])]) = Suc (topn (es @ [(s, rs)]))"
proof -
  show t: "topn (es @ [(s, rs @ [r])]) = Suc (topn (es @ [(s, rs)]))" using r by (simp add: topn_def)
  have m: "concat (map marks (es @ [(s, rs @ [r])])) = concat (map marks (es @ [(s, rs)])) @ [2 * unat (r_Seq r)]"
    by (simp add: marks_def)
  have c: "sorted_wrt (<) (concat (map marks (es @ [(s, rs)])))" "\<forall>e \<in> set (es @ [(s, rs)]). fst e \<noteq> 0"
    "\<forall>e \<in> set es. snd e \<noteq> []" "\<And>x. x \<in> set (concat (map marks (es @ [(s, rs)]))) \<Longrightarrow> x \<le> 2 * topn (es @ [(s, rs)]) + 1"
    using assms(1) by (simp_all add: chain_def)
  have lt: "x < 2 * unat (r_Seq r)" if "x \<in> set (concat (map marks (es @ [(s, rs)])))" for x
    using c(4) [OF that] r by simp
  have "sorted_wrt (<) (concat (map marks (es @ [(s, rs @ [r])])))"
    unfolding m using c(1) lt by (auto simp: sorted_wrt_append)
  moreover have "x \<le> 2 * topn (es @ [(s, rs @ [r])]) + 1" if "x \<in> set (concat (map marks (es @ [(s, rs @ [r])])))" for x
    using that lt unfolding m t r by fastforce
  ultimately show "chain (es @ [(s, rs @ [r])])" using c(2,3) by (auto simp: chain_def)
qed

lemma chain_roll:
  assumes c: "chain es" and ne: "snd (last es) \<noteq> []" and s: "unat s = Suc (topn es)"
  shows "chain (es @ [(s, [])])" and "topn (es @ [(s, [])]) = topn es"
proof -
  obtain es0 e where es: "es = es0 @ [e]" using c by (cases es rule: rev_cases) (auto simp: chain_def)
  obtain rs r where e: "snd e = rs @ [r]" using ne es by (cases "snd e" rule: rev_cases) auto
  have t: "topn es = unat (r_Seq r)" by (simp add: es e topn_def)
  show tt: "topn (es @ [(s, [])]) = topn es" by (simp add: topn_def)
  have last: "concat (map marks es) = concat (map marks es0) @ (2 * unat (fst e) - 1) # map (\<lambda>r. 2 * unat (r_Seq r)) rs @ [2 * topn es]"
    unfolding t by (simp add: es marks_def e)
  have srt: "sorted_wrt (<) (concat (map marks es))" using c by (simp add: chain_def)
  have le: "x \<le> 2 * topn es" if "x \<in> set (concat (map marks es))" for x
    using srt that unfolding last by (auto simp: sorted_wrt_append less_imp_le)
  have new: "2 * unat s - 1 = 2 * topn es + 1" and s0: "s \<noteq> 0" using s by auto
  have m: "concat (map marks (es @ [(s, [])])) = concat (map marks es) @ [2 * topn es + 1]"
    using new by (simp add: marks_def)
  have "sorted_wrt (<) (concat (map marks (es @ [(s, [])])))"
    unfolding m using srt le by (auto simp: sorted_wrt_append less_Suc_eq_le)
  moreover have "\<forall>e \<in> set es. snd e \<noteq> []" using c ne by (auto simp: chain_def es)
  moreover have "x \<le> 2 * topn es + 1" if "x \<in> set (concat (map marks (es @ [(s, [])])))" for x
    using that le unfolding m by fastforce
  moreover have "\<forall>e \<in> set es. fst e \<noteq> 0" using c by (simp add: chain_def)
  ultimately show "chain (es @ [(s, [])])" using s0 unfolding chain_def tt by auto
qed

lemma chain_drop:
  assumes c: "chain es" and "j < length es" and ne: "j = 0 \<or> recs (drop j es) \<noteq> []"
  shows "chain (drop j es)" and "topn (drop j es) = topn es"
proof -
  have es: "es = take j es @ drop j es" by simp
  have d: "drop j es \<noteq> []" using assms(2) by simp
  have "recs es = recs (take j es) @ recs (drop j es)" by (metis append_take_drop_id recs_simps(3))
  then show t: "topn (drop j es) = topn es" using ne by (auto simp: topn_def)
  have sub: "set (concat (map marks (drop j es))) \<subseteq> set (concat (map marks es))"
    by (subst (2) es) (auto simp del: append_take_drop_id)
  have srt: "sorted_wrt (<) (concat (map marks (drop j es)))"
    using c unfolding chain_def by (subst (asm) es) (simp add: sorted_wrt_append del: append_take_drop_id)
  have bl: "set (butlast (drop j es)) \<subseteq> set (butlast es)" by (simp add: butlast_drop) (meson in_set_dropD subsetI)
  show "chain (drop j es)"
    using c d srt sub bl unfolding chain_def t by (auto dest: in_set_dropD)
qed

lemma if_less_max: "(if a < b then b else a) = max a (b :: u64)"
  by (auto simp: max_def)

lemma top_seq_max: "top_seq m rs = max m (top_seq 0 rs)"
proof (induction rs arbitrary: m)
  case (Cons r rs)
  have "top_seq m (r # rs) = top_seq (max m (r_Seq r)) rs" for m
    by (simp add: top_seq_def if_less_max)
  then show ?case using Cons.IH [of "max m (r_Seq r)"] Cons.IH [of "max 0 (r_Seq r)"] by (simp add: max.assoc)
qed (simp add: top_seq_def)

lemma top_seq_append: "top_seq m (rs @ rs') = top_seq (top_seq m rs) rs'"
  by (simp add: top_seq_def)

lemma top_seq_snoc: "top_seq m (rs @ [r]) = max (top_seq m rs) (r_Seq r)"
  by (simp add: top_seq_def if_less_max)

lemma top_seq_le: "(\<And>r. r \<in> set rs \<Longrightarrow> r_Seq r \<le> b) \<Longrightarrow> top_seq 0 rs \<le> b"
  by (induction rs rule: rev_induct) (simp_all add: top_seq_snoc, simp add: top_seq_def)

lemma top_seq_topn:
  assumes "chain es"
  shows "unat (top_seq 0 (recs es)) = topn es"
proof (cases "recs es" rule: rev_cases)
  case Nil
  then show ?thesis by (simp add: topn_def top_seq_def)
next
  case (snoc rs r)
  then have "top_seq 0 rs \<le> r_Seq r"
    using chain_rec_le [OF assms] by (intro top_seq_le) (simp add: topn_def word_le_nat_alt)
  then show ?thesis by (simp add: snoc top_seq_snoc topn_def max_absorb2)
qed

section \<open>Segments on disk\<close>

definition on_disk :: "bytes \<Rightarrow> file_state" where
  "on_disk bs = \<lparr>f_data = bs, f_durable = length bs\<rparr>"

definition holds :: "disk \<Rightarrow> entry list \<Rightarrow> bytes \<Rightarrow> bool" where
  "holds d es t \<longleftrightarrow> distinct (map fst d) \<and> set (filter wal_glob (map fst d)) = (seg_name \<circ> fst) ` set es \<and>
     (\<forall>e \<in> set (butlast es). map_of d (seg_name (fst e)) = Some (on_disk (frames (snd e)))) \<and>
     map_of d (seg_name (fst (last es))) = Some (on_disk (frames (snd (last es)) @ t))"

lemma on_disk_simps [simp]: "f_data (on_disk bs) = bs" "f_durable (on_disk bs) = length bs"
  by (simp_all add: on_disk_def)

lemma holds_entry: "holds d es [] \<Longrightarrow> e \<in> set es \<Longrightarrow> map_of d (seg_name (fst e)) = Some (on_disk (frames (snd e)))"
  unfolding holds_def by (cases es rule: rev_cases) auto

lemma holds_cong:
  "holds d es t \<Longrightarrow> distinct (map fst d') \<Longrightarrow> set (map fst d') = set (map fst d) \<Longrightarrow> map_of d' = map_of d \<Longrightarrow> holds d' es t"
  by (simp add: holds_def)

lemma update_file:
  assumes "map_of d p = Some f"
  shows "map_of (AList.update p g d) = (map_of d)(p \<mapsto> g)" "set (map fst (AList.update p g d)) = set (map fst d)"
    "distinct (map fst d) \<Longrightarrow> distinct (map fst (AList.update p g d))"
proof -
  have "p \<in> fst ` set d" using assms by (metis domI dom_map_of_conv_image_fst)
  then show "set (map fst (AList.update p g d)) = set (map fst d)" by (auto simp: dom_update)
qed (simp_all add: update_conv' distinct_update)

lemma holds_update_last:
  assumes h: "holds d es t" and ne: "es \<noteq> []" and inj: "distinct (map fst es)"
    and f: "map_of d (seg_name (fst (last es))) = Some f"
  shows "holds (AList.update (seg_name (fst (last es))) (on_disk (frames rs @ t')) d) (butlast es @ [(fst (last es), rs)]) t'"
proof -
  let ?p = "seg_name (fst (last es))"
  note u = update_file [OF f, of "on_disk (frames rs @ t')"]
  obtain es0 e where es: "es = es0 @ [e]" using ne by (cases es rule: rev_cases) auto
  have "seg_name (fst x) \<noteq> ?p" if "x \<in> set es0" for x using inj that by (auto simp: es image_iff)
  moreover have "set (filter wal_glob (map fst (AList.update ?p (on_disk (frames rs @ t')) d))) = set (filter wal_glob (map fst d))"
    using u(2) by auto
  ultimately show ?thesis using h u(3) unfolding holds_def u(1) by (simp add: es)
qed

lemma sorted_glob:
  assumes h: "holds d es t" and c: "chain es"
  shows "sort (filter wal_glob (map fst d)) = map (seg_name \<circ> fst) es"
proof (rule sorted_distinct_set_unique)
  have s: "sorted_wrt (<) (map fst es)" using c by (intro sorted_starts) (simp_all add: chain_def)
  then have st: "sorted_wrt (<) (map (seg_name \<circ> fst) es)" by (simp add: sorted_wrt_map seg_name_less)
  then show "sorted (map (seg_name \<circ> fst) es)" "distinct (map (seg_name \<circ> fst) es)"
    by (simp_all add: strict_sorted_iff)
  show "set (sort (filter wal_glob (map fst d))) = set (map (seg_name \<circ> fst) es)" using h by (simp add: holds_def)
  show "distinct (sort (filter wal_glob (map fst d)))" using h by (simp add: holds_def distinct_filter)
qed simp

lemma chain_distinct: "chain es \<Longrightarrow> distinct (map fst es)"
  using sorted_starts [of es] by (simp add: chain_def strict_sorted_iff)

lemma seg_entries_holds:
  assumes "holds d es t" and "chain es"
  shows "seg_entries d = map (\<lambda>e. \<lparr>ws_path = seg_name (fst e), ws_startSeq = fst e, ws_maxSeq = 0\<rparr>) es"
proof -
  have "List.map_filter (\<lambda>p. map_option (\<lambda>start. \<lparr>ws_path = p, ws_startSeq = start, ws_maxSeq = 0\<rparr>) (seg_start p))
      (map (seg_name \<circ> fst) es) = map (\<lambda>e. \<lparr>ws_path = seg_name (fst e), ws_startSeq = fst e, ws_maxSeq = 0\<rparr>) es" for es :: "entry list"
    by (induction es) (simp_all add: List.map_filter_simps)
  then show ?thesis unfolding seg_entries_def sorted_glob [OF assms] .
qed

definition entry_seg :: "entry \<Rightarrow> segment" where
  "entry_seg e = \<lparr>ws_path = seg_name (fst e), ws_startSeq = fst e, ws_maxSeq = top_seq 0 (snd e)\<rparr>"

lemma entry_seg_simps [simp]:
  "ws_path (entry_seg e) = seg_name (fst e)" "ws_startSeq (entry_seg e) = fst e" "ws_maxSeq (entry_seg e) = top_seq 0 (snd e)"
  by (simp_all add: entry_seg_def)

text \<open>Scanning the segments recovers the records and cuts a torn tail.\<close>

lemma scan_all_ok:
  assumes "es \<noteq> []" and "\<forall>e \<in> set (butlast es). map_of d (seg_name (fst e)) = Some (on_disk (frames (snd e)))"
    and "map_of d (seg_name (fst (last es))) = Some (on_disk (frames (snd (last es)) @ t))" and "read_frame t = None"
    and "scan_all (map (\<lambda>e. \<lparr>ws_path = seg_name (fst e), ws_startSeq = fst e, ws_maxSeq = 0\<rparr>) es) sq os d = (r, d1)"
  shows "(d1 = d \<or> d1 = truncate_file (seg_name (fst (last es))) (length (frames (snd (last es)))) d) \<and>
    (\<forall>segs sq'. r = Some (segs, sq') \<longrightarrow> segs = map entry_seg es \<and> sq' = top_seq sq (recs es) \<and>
       d1 = (if t = [] then d else truncate_file (seg_name (fst (last es))) (length (frames (snd (last es)))) d))"
  using assms
proof (induction es arbitrary: sq r d1)
  case (Cons e es)
  let ?p = "seg_name (fst e)"
  show ?case
  proof (cases "es = []")
    case True
    have f: "map_of d ?p = Some (on_disk (frames (snd e) @ t))" using Cons.prems(3) True by simp
    have sc: "scan_loop (frames (snd e) @ t) 0 0 0 = (length (snd e), top_seq 0 (snd e), length (frames (snd e)))"
      using scan_loop_frames [OF Cons.prems(4), of "snd e" 0 0 0] by simp
    show ?thesis
      using Cons.prems(5) True f sc top_seq_max [of sq "snd e"]
      by (auto simp: scanSegment_def entry_seg_def if_less_max truncate_file_def split: if_splits)
  next
    case False
    have f: "map_of d ?p = Some (on_disk (frames (snd e) @ []))" using Cons.prems(2) False by simp
    have sc: "scan_loop (frames (snd e) @ []) 0 0 0 = (length (snd e), top_seq 0 (snd e), length (frames (snd e)))"
      using scan_loop_frames [of "[]" "snd e" 0 0 0] by simp
    obtain q d2 where ih: "scan_all (map (\<lambda>e. \<lparr>ws_path = seg_name (fst e), ws_startSeq = fst e, ws_maxSeq = 0\<rparr>) es)
      (top_seq sq (snd e)) os d = (q, d2)" by (rule prod.exhaust)
    note I = Cons.IH [OF False _ _ Cons.prems(4) ih]
    show ?thesis
      using I Cons.prems(2,3,5) False f sc ih top_seq_max [of sq "snd e"]
      by (auto simp: scanSegment_def entry_seg_def if_less_max top_seq_append split: if_splits option.splits)
  qed
qed simp

definition no_segments :: "disk \<Rightarrow> bool" where
  "no_segments d \<longleftrightarrow> distinct (map fst d) \<and> (\<forall>p \<in> fst ` set d. \<not> wal_glob p)"

text \<open>The log while the process is down, with what a crash has left of an unfinished frame, and while it runs.\<close>

definition log_down :: "disk \<Rightarrow> entry list \<Rightarrow> bool" where
  "log_down d es \<longleftrightarrow> es = [] \<and> no_segments d \<or> chain es \<and> (\<exists>t. read_frame t = None \<and> holds d es t)"

definition log_up :: "WAL \<Rightarrow> disk \<Rightarrow> entry list \<Rightarrow> bool" where
  "log_up w d es \<longleftrightarrow> chain es \<and> holds d es [] \<and> w_segs w = map entry_seg es \<and> unat (w_seq w) = topn es \<and>
     w_cur w = Some (seg_name (fst (last es))) \<and> w_curBytes w = int (length (frames (snd (last es)))) \<and> 0 < w_segmentSize w"

lemma holds_create:
  assumes "no_segments d \<and> es = [] \<or> holds d es [] \<and> es \<noteq> []" and "s \<notin> fst ` set es"
  shows "holds (create_file (seg_name s) d) (es @ [(s, [])]) []"
proof -
  have g: "set (filter wal_glob (map fst d)) = (seg_name \<circ> fst) ` set es" and dist: "distinct (map fst d)"
    using assms(1) by (auto simp: holds_def no_segments_def)
  have new: "map_of d (seg_name s) = None"
  proof (rule ccontr)
    assume "map_of d (seg_name s) \<noteq> None"
    then have "seg_name s \<in> fst ` set d" by (simp add: map_of_eq_None_iff)
    then have "seg_name s \<in> (seg_name \<circ> fst) ` set es" unfolding g [symmetric] by simp
    then show False using assms(2) by (auto simp: image_iff)
  qed
  have dom: "seg_name s \<notin> fst ` set d" using new by (simp add: map_of_eq_None_iff)
  have e: "map_of d (seg_name (fst e)) = Some (on_disk (frames (snd e)))" if "e \<in> set es" for e
    using assms(1) that holds_entry by auto
  have mo: "map_of (create_file (seg_name s) d) = (map_of d)(seg_name s \<mapsto> on_disk [])"
    using new by (auto simp: create_file_def on_disk_def map_add_def fun_eq_iff split: option.splits)
  have ns: "map fst (create_file (seg_name s) d) = map fst d @ [seg_name s]" using new by (simp add: create_file_def)
  have "map_of (create_file (seg_name s) d) (seg_name (fst e)) = Some (on_disk (frames (snd e)))" if "e \<in> set es" for e
    using e [OF that] new mo by auto
  then show ?thesis unfolding holds_def ns using mo dom g dist by (auto simp del: map_of_eq_Some_iff)
qed

lemma chain_first: "chain [(1, [])]" "topn [(1, [])] = 0"
  by (simp_all add: chain_def marks_def topn_def)

lemma truncate_holds:
  assumes h: "holds d es t" and c: "chain es"
  shows "holds (truncate_file (seg_name (fst (last es))) (length (frames (snd (last es)))) d) es []"
proof -
  have ne: "es \<noteq> []" using c by (simp add: chain_def)
  have f: "map_of d (seg_name (fst (last es))) = Some (on_disk (frames (snd (last es)) @ t))" using h by (simp add: holds_def)
  have "truncate_file (seg_name (fst (last es))) (length (frames (snd (last es)))) d =
      AList.update (seg_name (fst (last es))) (on_disk (frames (snd (last es)) @ [])) d"
    by (simp add: truncate_file_def f on_disk_def)
  moreover have "butlast es @ [(fst (last es), snd (last es))] = es" using ne by simp
  ultimately show ?thesis using holds_update_last [OF h ne chain_distinct [OF c] f, of "snd (last es)" "[]"] by simp
qed

lemma Open_log:
  assumes down: "log_down d es" and op: "Open_wal os d = (r, d')"
  shows "\<exists>es'. recs es' = recs es \<and> (case r of None \<Rightarrow> log_down d' es' | Some w \<Rightarrow> log_up w d' es')"
proof (cases "es = []")
  case True
  then have n: "no_segments d" using down by (auto simp: log_down_def chain_def)
  then have "filter wal_glob (map fst d) = []" by (auto simp: no_segments_def filter_empty_conv)
  then have "seg_entries d = []" by (simp add: seg_entries_def List.map_filter_simps)
  then have o': "Open_wal os d = (if \<not> os_create os then (None, d)
      else if \<not> os_dirsync os then (None, create_file (seg_name 1) d)
      else (Some \<lparr>w_segmentSize = DefaultSegmentBytes, w_seq = 0, w_segs = [entry_seg (1, [])], w_cur = Some (seg_name 1), w_curBytes = 0\<rparr>,
        create_file (seg_name 1) d))"
    by (simp add: Open_wal_def load_def rollLocked_def Let_def entry_seg_def top_seq_def)
  have h: "holds (create_file (seg_name 1) d) [(1, [])] []" using holds_create [of d "[]" 1] n by simp
  have "log_down d []" using n by (simp add: log_down_def)
  moreover have "log_down (create_file (seg_name 1) d) [(1, [])]"
    using h chain_first by (auto simp: log_down_def intro!: exI [of _ "[]"])
  moreover have "log_up \<lparr>w_segmentSize = DefaultSegmentBytes, w_seq = 0, w_segs = [entry_seg (1, [])], w_cur = Some (seg_name 1),
      w_curBytes = 0\<rparr> (create_file (seg_name 1) d) [(1, [])]"
    using h chain_first by (simp add: log_up_def DefaultSegmentBytes_def)
  ultimately show ?thesis using op o' True by (auto split: if_splits intro: exI [of _ "[]"] exI [of _ "[(1, [])]"])
next
  case False
  then obtain t where c: "chain es" and t: "read_frame t = None" and h: "holds d es t" using down by (auto simp: log_down_def)
  let ?raw = "map (\<lambda>e. \<lparr>ws_path = seg_name (fst e), ws_startSeq = fst e, ws_maxSeq = 0\<rparr>) es"
  let ?p = "seg_name (fst (last es))"
  obtain q d1 where sc: "scan_all ?raw 0 os d = (q, d1)" by (rule prod.exhaust)
  have hb: "\<forall>e \<in> set (butlast es). map_of d (seg_name (fst e)) = Some (on_disk (frames (snd e)))"
    "map_of d ?p = Some (on_disk (frames (snd (last es)) @ t))" using h by (simp_all add: holds_def)
  note S = scan_all_ok [OF False hb t sc]
  have "log_down d es" using down .
  moreover have "log_down (truncate_file ?p (length (frames (snd (last es)))) d) es"
    using truncate_holds [OF h c] c by (auto simp: log_down_def intro!: exI [of _ "[]"])
  ultimately have dn: "log_down d1 es" using S by auto
  show ?thesis
  proof (cases q)
    case None
    then show ?thesis using op dn sc by (auto simp: Open_wal_def load_def seg_entries_holds [OF h c])
  next
    case (Some x)
    then obtain segs sq where q: "q = Some (segs, sq)" by (cases x) auto
    have up: "segs = map entry_seg es" "sq = top_seq 0 (recs es)"
      "d1 = (if t = [] then d else truncate_file ?p (length (frames (snd (last es)))) d)" using S q by auto
    have h1: "holds d1 es []" using up(3) h truncate_holds [OF h c] by (cases "t = []") simp_all
    then have f: "map_of d1 ?p = Some (on_disk (frames (snd (last es))))" by (simp add: holds_def)
    have ln: "ws_path (last (map entry_seg es)) = ?p" using False by (simp add: last_map entry_seg_def)
    have eq: "(r, d') = (if \<not> os_open os ?p then (None, d1)
       else (Some \<lparr>w_segmentSize = DefaultSegmentBytes, w_seq = sq, w_segs = map entry_seg es, w_cur = Some ?p,
         w_curBytes = int (length (frames (snd (last es))))\<rparr>, d1))"
      using op False
      by (cases "os_open os ?p") (simp_all add: Open_wal_def load_def seg_entries_holds [OF h c] sc q up(1) ln Let_def f)
    show ?thesis
    proof (cases "os_open os ?p")
      case True
      then show ?thesis
        using eq c h1 top_seq_topn [OF c] up(2) by (auto simp: log_up_def DefaultSegmentBytes_def intro!: exI [of _ es])
    qed (use eq dn in auto)
  qed
qed

section \<open>Crashes\<close>

text \<open>A crash keeps of every file a prefix that contains at least the durable bytes.\<close>

definition crash :: "disk \<Rightarrow> disk \<Rightarrow> bool" where
  "crash d d' \<longleftrightarrow> list_all2 (\<lambda>(p, f) (p', f'). p' = p \<and> (\<exists>m \<ge> f_durable f. f' = on_disk (take m (f_data f)))) d d'"

lemma crash_files:
  assumes "crash d d'"
  shows "map fst d' = map fst d"
    and "map_of d p = Some f \<Longrightarrow> \<exists>m \<ge> f_durable f. map_of d' p = Some (on_disk (take m (f_data f)))"
  using assms unfolding crash_def by (induction d d' rule: list_all2_induct) (auto split: if_splits)

lemma crash_durable: "crash d d' \<Longrightarrow> map_of d p = Some (on_disk bs) \<Longrightarrow> map_of d' p = Some (on_disk bs)"
  using crash_files(2) [of d d' p "on_disk bs"] by auto

lemma crash_holds:
  assumes "holds d es []" and "crash d d'" and "es \<noteq> []"
  shows "holds d' es []"
proof -
  have "map_of d' (seg_name (fst e)) = Some (on_disk (frames (snd e)))" if "e \<in> set es" for e
    using crash_durable [OF assms(2) holds_entry [OF assms(1) that]] .
  then show ?thesis
    using assms(1,3) unfolding holds_def crash_files(1) [OF assms(2)] by (auto dest: in_set_butlastD simp del: map_of_eq_Some_iff)
qed

lemma crash_append:
  assumes h: "holds d es []" and ne: "es \<noteq> []" and inj: "distinct (map fst es)"
    and cr: "crash (append_file (seg_name (fst (last es))) x d) d'"
  shows "\<exists>k. holds d' es (take k x)"
proof -
  let ?p = "seg_name (fst (last es))" and ?bs = "frames (snd (last es))"
  have f: "map_of d ?p = Some (on_disk ?bs)" using h by (simp add: holds_def)
  have af: "append_file ?p x d = AList.update ?p \<lparr>f_data = ?bs @ x, f_durable = length ?bs\<rparr> d"
    by (simp add: append_file_def f on_disk_def)
  note u = update_file [OF f, of "\<lparr>f_data = ?bs @ x, f_durable = length ?bs\<rparr>"]
  from crash_files(2) [OF cr, of ?p "\<lparr>f_data = ?bs @ x, f_durable = length ?bs\<rparr>"] u(1)
  obtain m where m: "length ?bs \<le> m" "map_of d' ?p = Some (on_disk (take m (?bs @ x)))" by (auto simp: af)
  then have l: "map_of d' ?p = Some (on_disk (?bs @ take (m - length ?bs) x))" by simp
  have o': "map_of d' (seg_name (fst e)) = Some (on_disk (frames (snd e)))" if "e \<in> set (butlast es)" for e
  proof -
    have "seg_name (fst e) \<noteq> ?p"
      using that inj ne by (cases es rule: rev_cases) (auto simp: image_iff)
    then have "map_of (append_file ?p x d) (seg_name (fst e)) = Some (on_disk (frames (snd e)))"
      using h that unfolding af u(1) by (simp add: holds_def)
    then show ?thesis by (rule crash_durable [OF cr])
  qed
  have "set (map fst d') = set (map fst d)" "distinct (map fst d')"
    using crash_files(1) [OF cr] u(2,3) h by (simp_all add: af holds_def)
  then have "holds d' es (take (m - length ?bs) x)" using h l o' by (simp add: holds_def)
  then show ?thesis by blast
qed

lemma crash_frame:
  assumes c: "chain es" and h: "holds d es []" and r: "unat (r_Seq r) = Suc (topn es)"
    and cr: "crash (append_file (seg_name (fst (last es))) (take n (frame r)) d) d'"
  shows "\<exists>es'. log_down d' es' \<and> (recs es' = recs es \<or> recs es' = recs es @ [r])"
proof -
  have ne: "es \<noteq> []" using c by (simp add: chain_def)
  obtain es0 s rs where es: "es = es0 @ [(s, rs)]" using ne by (cases es rule: rev_cases) auto
  obtain k where k: "holds d' es (take (min k n) (frame r))"
    using crash_append [OF h ne chain_distinct [OF c] cr] by (auto simp: min.commute)
  show ?thesis
  proof (cases "min k n < 8 + recordPayloadLen")
    case True
    then show ?thesis using k c read_frame_torn [OF True, of r] by (auto simp: log_down_def)
  next
    case False
    then have "take (min k n) (frame r) = frame r" by (intro take_all) (simp add: min_less_iff_disj)
    with k have "holds d' (es0 @ [(s, rs @ [r])]) []" by (simp add: holds_def es)
    then have "log_down d' (es0 @ [(s, rs @ [r])])"
      using chain_append(1) [of es0 s rs r] c r by (auto simp: log_down_def es intro!: exI [of _ "[]"])
    then show ?thesis by (auto simp: es intro!: exI [of _ "es0 @ [(s, rs @ [r])]"])
  qed
qed

section \<open>Appending\<close>

lemma sync_holds:
  assumes "holds d es []" and "es \<noteq> []" and "distinct (map fst es)"
  shows "holds (sync_file (seg_name (fst (last es))) d) es []"
proof -
  let ?p = "seg_name (fst (last es))"
  have f: "map_of d ?p = Some (on_disk (frames (snd (last es))))" using assms(1) by (simp add: holds_def)
  then have "sync_file ?p d = AList.update ?p (on_disk (frames (snd (last es)) @ [])) d" by (simp add: sync_file_def on_disk_def)
  then show ?thesis using holds_update_last [OF assms f, of "snd (last es)" "[]"] assms(2) by simp
qed

lemma roll_log:
  assumes up: "log_up w d es" and full: "w_segmentSize w \<le> w_curBytes w" and bound: "unat (w_seq w) + 1 < 2 ^ 64"
    and roll: "rollLocked (w_seq w + 1) os w d = (b, w1, d1)"
  shows "if b then log_up w1 d1 (es @ [(w_seq w + 1, [])]) \<and> w_seq w1 = w_seq w
    else \<exists>es'. recs es' = recs es \<and> chain es' \<and> holds d1 es' []"
proof -
  let ?s = "w_seq w + 1" and ?d = "if os_rollsync os then sync_file (seg_name (fst (last es))) d else d"
  have c: "chain es" and h: "holds d es []" and ne: "es \<noteq> []" using up by (simp_all add: log_up_def chain_def)
  have h': "holds ?d es []" using sync_holds [OF h ne chain_distinct [OF c]] h by simp
  have l: "snd (last es) \<noteq> []" using up full by (auto simp: log_up_def)
  have s: "unat ?s = Suc (topn es)" using bound up by (simp add: log_up_def unat_word_ariths)
  have new: "?s \<notin> fst ` set es" using chain_distinct [OF chain_roll(1) [OF c l s]] by simp
  have hc: "holds (create_file (seg_name ?s) ?d) (es @ [(?s, [])]) []" using holds_create [OF _ new, of ?d] h' ne by blast
  note cr = chain_roll [OF c l s]
  show ?thesis
    using roll up c h' hc cr
    by (auto simp: rollLocked_def Let_def log_up_def entry_seg_def top_seq_def split: if_splits
        intro: exI [of _ "es @ [(w_seq w + 1, [])]"])
qed

lemma append_here_log:
  assumes up: "log_up w d es" and bound: "unat (w_seq w) + 1 < 2 ^ 64"
    and ap: "append_here rec os w d = (r, w', d')" and rec': "rec' = rec\<lparr>r_Seq := w_seq w + 1\<rparr>"
  shows "case r of
      Some sq \<Rightarrow> sq = w_seq w + 1 \<and> (\<exists>es'. log_up w' d' es' \<and> recs es' = recs es @ [rec'])
    | None \<Rightarrow> \<exists>n. d' = append_file (seg_name (fst (last es))) (take n (frame rec')) d"
proof -
  have c: "chain es" and h: "holds d es []" and ne: "es \<noteq> []" using up by (simp_all add: log_up_def chain_def)
  obtain es0 s rs where es: "es = es0 @ [(s, rs)]" using ne by (cases es rule: rev_cases) auto
  have cur: "w_cur w = Some (seg_name s)" using up by (simp add: log_up_def es)
  have sq: "unat (r_Seq rec') = Suc (topn es)" using bound up by (simp add: log_up_def rec' unat_word_ariths)
  have f: "map_of d (seg_name s) = Some (on_disk (frames rs))" using h by (simp add: holds_def es)
  show ?thesis
  proof (cases "os_write os = None \<and> os_sync os")
    case False
    then show ?thesis
      using ap cur by (auto simp: append_here_def Let_def es rec' [symmetric] split: option.splits if_splits
          intro: exI [of _ "length (frame rec')"])
  next
    case True
    let ?d = "sync_file (seg_name s) (append_file (seg_name s) (frame rec') d)"
    let ?es = "es0 @ [(s, rs @ [rec'])]"
    have u: "map_of (AList.update (seg_name s) g d) (seg_name s) = Some g" for g by (simp add: update_conv')
    have upd: "?d = AList.update (seg_name s) (on_disk (frames (rs @ [rec']) @ [])) (append_file (seg_name s) (frame rec') d)"
      by (simp add: sync_file_def append_file_def f u on_disk_def)
    have h1: "holds (AList.update (seg_name s) (on_disk (frames (rs @ [rec']) @ [])) d) ?es []"
      using holds_update_last [OF h ne chain_distinct [OF c], of _ "rs @ [rec']" "[]"] f by (simp add: es)
    have "holds ?d ?es []"
    proof (rule holds_cong [OF h1])
      let ?a = "append_file (seg_name s) (frame rec') d"
      have a: "?a = AList.update (seg_name s) \<lparr>f_data = frames rs @ frame rec', f_durable = length (frames rs)\<rparr> d"
        by (simp add: append_file_def f on_disk_def)
      have dist: "distinct (map fst d)" using h by (simp add: holds_def)
      show "distinct (map fst ?d)" unfolding upd unfolding a by (intro distinct_update dist)
      show "set (map fst ?d) = set (map fst (AList.update (seg_name s) (on_disk (frames (rs @ [rec']) @ [])) d))"
        unfolding upd unfolding a by (auto simp: dom_update)
      show "map_of ?d = map_of (AList.update (seg_name s) (on_disk (frames (rs @ [rec']) @ [])) d)"
        unfolding upd unfolding a by (simp add: update_conv')
    qed
    moreover have ch: "chain ?es" "topn ?es = Suc (topn es)" using chain_append [of es0 s rs rec'] c sq by (simp_all add: es)
    moreover have "top_seq 0 (rs @ [rec']) = w_seq w + 1"
    proof -
      have "top_seq 0 rs \<le> r_Seq rec'"
        using chain_rec_le [OF c] sq by (intro top_seq_le) (fastforce simp: es word_le_nat_alt)
      then show ?thesis by (simp add: top_seq_snoc max_absorb2) (simp add: rec')
    qed
    moreover have "unat (w_seq w + 1) = Suc (topn es)" using sq by (simp add: rec')
    ultimately have "log_up (w\<lparr>w_seq := w_seq w + 1, w_curBytes := w_curBytes w + int (length (frame rec')),
        w_segs := set_last_max (w_seq w + 1) (w_segs w)\<rparr>) ?d ?es"
      using up by (auto simp: log_up_def es set_last_max_def entry_seg_def algebra_simps)
    then show ?thesis
      using ap cur True by (auto simp: append_here_def Let_def es rec' [symmetric] intro!: exI [of _ ?es])
  qed
qed

lemma Append_log:
  assumes up: "log_up w d es" and bound: "unat (w_seq w) + 1 < 2 ^ 64"
    and ap: "Append rec os w d = (r, w', d')" and rec': "rec' = rec\<lparr>r_Seq := w_seq w + 1\<rparr>"
  shows "case r of
      Some sq \<Rightarrow> sq = w_seq w + 1 \<and> (\<exists>es'. log_up w' d' es' \<and> recs es' = recs es @ [rec'])
    | None \<Rightarrow> \<forall>d''. crash d' d'' \<longrightarrow> (\<exists>es'. log_down d'' es' \<and> (recs es' = recs es \<or> recs es' = recs es @ [rec']))"
proof -
  have here: ?thesis if "append_here rec os w1 d1 = (r, w', d')" "log_up w1 d1 es1" "w_seq w1 = w_seq w" "recs es1 = recs es" for w1 d1 es1
  proof -
    have b: "unat (w_seq w1) + 1 < 2 ^ 64" "rec' = rec\<lparr>r_Seq := w_seq w1 + 1\<rparr>" using bound that(3) rec' by simp_all
    have c: "chain es1" "holds d1 es1 []" using that(2) by (simp_all add: log_up_def)
    have "unat (r_Seq rec') = Suc (topn es1)" using b that(2) by (simp add: log_up_def unat_word_ariths)
    with append_here_log [OF that(2) b(1) that(1) b(2)] crash_frame [OF c] that(3,4) show ?thesis
      by (auto split: option.splits)
  qed
  have down: ?thesis if "r = None" "chain es1" "holds d' es1 []" "recs es1 = recs es" for es1
  proof -
    have "log_down d'' es1" if "crash d' d''" for d''
      using crash_holds [OF \<open>holds d' es1 []\<close> that] \<open>chain es1\<close> read_frame_Nil unfolding log_down_def chain_def by blast
    then show ?thesis using that by auto
  qed
  show ?thesis
  proof (cases "w_segmentSize w \<le> w_curBytes w")
    case False
    then show ?thesis using here [OF _ up] ap by (simp add: Append_def)
  next
    case True
    obtain b w1 d1 where roll: "rollLocked (w_seq w + 1) os w d = (b, w1, d1)" by (metis prod.exhaust)
    note R = roll_log [OF up True bound roll]
    have cur: "w_cur w \<noteq> None" using up by (simp add: log_up_def)
    show ?thesis
    proof (cases b)
      case True
      then show ?thesis using R here [of w1 d1 "es @ [(w_seq w + 1, [])]"] ap roll cur \<open>w_segmentSize w \<le> w_curBytes w\<close>
        by (simp add: Append_def)
    next
      case False
      then show ?thesis using R down ap roll cur \<open>w_segmentSize w \<le> w_curBytes w\<close> by (auto simp: Append_def)
    qed
  qed
qed

section \<open>Dropping segments\<close>

lemma holds_delete:
  assumes h: "holds d (e # es) []" and ne: "es \<noteq> []" and inj: "distinct (map fst (e # es))"
  shows "holds (AList.delete (seg_name (fst e)) d) es []"
proof -
  let ?d = "AList.delete (seg_name (fst e)) d"
  have "map_of ?d (seg_name (fst x)) = Some (on_disk (frames (snd x)))" if "x \<in> set es" for x
    using holds_entry [OF h, of x] that inj by (auto simp: delete_conv' image_iff simp del: map_of_eq_Some_iff)
  moreover have "set (filter wal_glob (map fst ?d)) = (seg_name \<circ> fst) ` set es"
  proof -
    have "set (filter wal_glob (map fst ?d)) = set (filter wal_glob (map fst d)) - {seg_name (fst e)}"
      by (auto simp: delete_keys)
    also have "\<dots> = insert (seg_name (fst e)) ((seg_name \<circ> fst) ` set es) - {seg_name (fst e)}" using h by (simp add: holds_def)
    also have "\<dots> = (seg_name \<circ> fst) ` set es" using inj by (intro Diff_insert_absorb) (auto simp: image_iff)
    finally show ?thesis .
  qed
  moreover have "distinct (map fst ?d)" using h by (simp add: holds_def distinct_delete)
  ultimately show ?thesis using ne unfolding holds_def by (auto dest: in_set_butlastD simp del: map_of_eq_Some_iff)
qed

lemma top_seq_ge: "r \<in> set rs \<Longrightarrow> r_Seq r \<le> top_seq 0 rs"
  by (induction rs rule: rev_induct) (auto simp: top_seq_snoc max.coboundedI1)

lemma top_seq_le_iff: "top_seq 0 rs \<le> b \<longleftrightarrow> (\<forall>r \<in> set rs. r_Seq r \<le> b)"
  by (auto intro: top_seq_le order_trans [OF top_seq_ge])

lemma drop_segs_keep:
  "\<forall>e \<in> set (butlast es). \<not> top_seq 0 (snd e) \<le> upTo \<Longrightarrow> drop_segs (map entry_seg es) upTo os d = (Some (map entry_seg es), d)"
  by (induction es) (auto simp: entry_seg_def split: if_splits)

definition ascending :: "entry list \<Rightarrow> bool" where
  "ascending es \<longleftrightarrow> sorted_wrt (\<lambda>a b. \<forall>x \<in> set (snd a). \<forall>y \<in> set (snd b). r_Seq x < r_Seq y) es \<and>
     (\<forall>e \<in> set (butlast es). snd e \<noteq> [] \<and> (\<forall>r \<in> set (snd e). r_Seq r \<noteq> 0))"

lemma drop_segs_prefix:
  assumes "es \<noteq> []" and "ascending es" and "holds d es []" and "distinct (map fst es)"
    and "drop_segs (map entry_seg es) upTo os d = (q, d')"
  shows "\<exists>j < length es. (\<forall>e \<in> set (take j es). \<forall>r \<in> set (snd e). r_Seq r \<le> upTo) \<and> holds d' (drop j es) [] \<and>
    (\<forall>segs. q = Some segs \<longrightarrow> segs = map entry_seg (drop j es))"
  using assms
proof (induction es arbitrary: d)
  case (Cons e es)
  show ?case
  proof (cases "es \<noteq> [] \<and> top_seq 0 (snd e) \<le> upTo")
    case False
    have keep: "\<forall>x \<in> set (butlast (e # es)). \<not> top_seq 0 (snd x) \<le> upTo"
    proof (cases "es = []")
      case ne: False
      then obtain r where r: "r \<in> set (snd e)" "upTo < r_Seq r" using False by (auto simp: top_seq_le_iff not_le)
      have "\<not> top_seq 0 (snd x) \<le> upTo" if x: "x \<in> set (butlast es)" for x
      proof -
        obtain y where y: "y \<in> set (snd x)"
          using Cons.prems(2) x ne by (fastforce simp: ascending_def intro: list.set_sel(1))
        then have "r_Seq r < r_Seq y" using Cons.prems(2) r(1) in_set_butlastD [OF x] by (simp add: ascending_def)
        with r(2) have "upTo < r_Seq y" by (rule less_trans)
        with y show ?thesis by (auto simp: top_seq_le_iff not_le)
      qed
      with False ne show ?thesis by auto
    qed simp
    have "drop_segs (map entry_seg (e # es)) upTo os d = (Some (map entry_seg (e # es)), d)" by (rule drop_segs_keep [OF keep])
    with Cons.prems(3,5) show ?thesis by (auto intro!: exI [of _ 0])
  next
    case True
    then have ne: "es \<noteq> []" and le: "\<forall>r \<in> set (snd e). r_Seq r \<le> upTo" by (simp_all add: top_seq_le_iff)
    obtain y where "y \<in> set (snd e)" "r_Seq y \<noteq> 0"
      using Cons.prems(2) ne by (fastforce simp: ascending_def intro: list.set_sel(1))
    then have m0: "top_seq 0 (snd e) \<noteq> 0" using top_seq_ge [of y "snd e"] by auto
    let ?d = "AList.delete (seg_name (fst e)) d"
    show ?thesis
    proof (cases "map_of d (seg_name (fst e)) \<noteq> None \<and> \<not> os_remove os (seg_name (fst e))")
      case fail: True
      then have "q = None" "d' = d" using Cons.prems(5) True m0 by auto
      with Cons.prems(3) show ?thesis by (auto intro!: exI [of _ 0])
    next
      case False
      then have "drop_segs (map entry_seg es) upTo os ?d = (q, d')" using Cons.prems(5) True m0 by auto
      moreover have "ascending es" using Cons.prems(2) ne by (auto simp: ascending_def)
      moreover have "holds ?d es []" by (rule holds_delete [OF Cons.prems(3) ne Cons.prems(4)])
      ultimately obtain j where "j < length es" "\<forall>e \<in> set (take j es). \<forall>r \<in> set (snd e). r_Seq r \<le> upTo"
        "holds d' (drop j es) []" "\<forall>segs. q = Some segs \<longrightarrow> segs = map entry_seg (drop j es)"
        using Cons.IH [OF ne, of ?d] Cons.prems(4) by auto
      then show ?thesis using le by (auto intro!: exI [of _ "Suc j"])
    qed
  qed
qed simp

lemma chain_ascending:
  assumes "chain es"
  shows "ascending es"
proof -
  have r: "sorted_wrt (\<lambda>a b. r_Seq a < r_Seq b) (recs es)" using assms by (intro sorted_recs) (simp add: chain_def)
  have "sorted_wrt (\<lambda>a b. \<forall>x \<in> set (snd a). \<forall>y \<in> set (snd b). r_Seq x < r_Seq y) es"
    using r by (induction es) (auto simp: sorted_wrt_append recs_def)
  moreover have "r_Seq r \<noteq> 0" if e: "e \<in> set es" and r: "r \<in> set (snd e)" for e r
  proof -
    obtain xs ys where "es = xs @ e # ys" using split_list [OF e] by blast
    then have "sorted_wrt (<) (marks e)" using assms by (simp add: chain_def sorted_wrt_append)
    then show ?thesis using r by (auto simp: marks_def)
  qed
  ultimately show ?thesis using assms by (auto simp: ascending_def chain_def dest: in_set_butlastD)
qed

lemma Checkpoint_log:
  assumes up: "log_up w d es" and cur: "upTo < w_seq w \<or> length es = 1 \<or> snd (last es) \<noteq> []" and ck: "Checkpoint upTo os w d = (ok, w', d')"
  shows "\<exists>es' dropped. recs es = dropped @ recs es' \<and> (\<forall>r \<in> set dropped. r_Seq r \<le> upTo) \<and> chain es' \<and> holds d' es' [] \<and>
    (ok \<longrightarrow> log_up w' d' es')"
proof -
  have c: "chain es" and h: "holds d es []" and ne: "es \<noteq> []" and s: "w_segs w = map entry_seg es"
    using up by (simp_all add: log_up_def chain_def)
  obtain q d1 where dr: "drop_segs (map entry_seg es) upTo os d = (q, d1)" by (rule prod.exhaust)
  obtain j where j: "j < length es" "\<forall>e \<in> set (take j es). \<forall>r \<in> set (snd e). r_Seq r \<le> upTo"
    "holds d1 (drop j es) []" "\<And>segs. q = Some segs \<Longrightarrow> segs = map entry_seg (drop j es)"
    using drop_segs_prefix [OF ne chain_ascending [OF c] h chain_distinct [OF c] dr] by blast
  have d': "d' = d1" and w': "ok \<Longrightarrow> w' = w\<lparr>w_segs := map entry_seg (drop j es)\<rparr>"
    using ck dr j(4) s by (auto simp: Checkpoint_def split: option.splits)
  have "recs es = recs (take j es) @ recs (drop j es)" by (metis append_take_drop_id recs_simps(3))
  moreover have "\<forall>r \<in> set (recs (take j es)). r_Seq r \<le> upTo" using j(2) by (auto simp: recs_def)
  moreover have "j = 0 \<or> recs (drop j es) \<noteq> []"
  proof -
    have "recs (drop j es) \<noteq> []" if "snd (last es) \<noteq> []"
      using that j(1) last_in_set [of "drop j es"] by (auto simp: recs_def last_drop)
    moreover have "recs (drop j es) \<noteq> []" if lt: "upTo < w_seq w"
    proof
      assume "recs (drop j es) = []"
      then have all: "\<forall>r \<in> set (recs es). r_Seq r \<le> upTo" using \<open>recs es = _\<close> j(2) by (auto simp: recs_def)
      have "unat (w_seq w) = topn es" using up by (simp add: log_up_def)
      then have "recs es \<noteq> [] \<and> w_seq w = r_Seq (last (recs es))"
        using lt by (auto simp: topn_def word_less_nat_alt word_unat_eq_iff split: if_splits)
      then have "w_seq w \<le> upTo" using all last_in_set by metis
      then show False using lt by simp
    qed
    ultimately show ?thesis using cur j(1) by auto
  qed
  moreover note chain_drop [OF c j(1) this]
  moreover have "last (drop j es) = last es" using j(1) by (simp add: last_drop)
  ultimately show ?thesis
    using j(3) up w' unfolding d' log_up_def by (intro exI [of _ "drop j es"] exI [of _ "recs (take j es)"]) auto
qed

section \<open>Every schedule of calls and crashes\<close>

text \<open>
  The states of a log: the running process if any, the directory, the records whose \<open>Append\<close> has returned
  successfully, all records passed to \<open>Append\<close>, and the highest checkpoint so far.  The process is restarted when an
  \<open>Append\<close> fails after it began to write (\<open>short_write_loses_acknowledged\<close> is what happens otherwise); one that fails
  because the next segment cannot be created may be repeated.  A checkpoint that covers the last record is not made
  while older segments stand before an empty one (\<open>empty_segment_resets_sequence\<close>).
\<close>

definition may_checkpoint :: "u64 \<Rightarrow> WAL \<Rightarrow> disk \<Rightarrow> bool" where
  "may_checkpoint upTo w d \<longleftrightarrow> upTo < LastSeq w \<or> length (w_segs w) = 1 \<or>
     (case map_of d (ws_path (last (w_segs w))) of None \<Rightarrow> False | Some f \<Rightarrow> f_data f \<noteq> [])"

inductive wal_reach :: "WAL option \<Rightarrow> disk \<Rightarrow> Record set \<Rightarrow> Record set \<Rightarrow> nat \<Rightarrow> bool" where
  fresh: "no_segments d \<Longrightarrow> wal_reach None d {} {} 0"
| opened: "wal_reach None d acked tried ck \<Longrightarrow> Open_wal os d = (w, d') \<Longrightarrow> wal_reach w d' acked tried ck"
| appended: "wal_reach (Some w) d acked tried ck \<Longrightarrow> unat (w_seq w) + 1 < 2 ^ 64 \<Longrightarrow>
    Append rec os w d = (Some sq, w', d') \<Longrightarrow> rec' = rec\<lparr>r_Seq := w_seq w + 1\<rparr> \<Longrightarrow>
    wal_reach (Some w') d' (insert rec' acked) (insert rec' tried) ck"
| append_crash: "wal_reach (Some w) d acked tried ck \<Longrightarrow> unat (w_seq w) + 1 < 2 ^ 64 \<Longrightarrow>
    Append rec os w d = (None, w', d') \<Longrightarrow> crash d' d'' \<Longrightarrow> rec' = rec\<lparr>r_Seq := w_seq w + 1\<rparr> \<Longrightarrow>
    wal_reach None d'' acked (insert rec' tried) ck"
| append_refused: "wal_reach (Some w) d acked tried ck \<Longrightarrow> w_segmentSize w \<le> w_curBytes w \<Longrightarrow> \<not> os_create os \<Longrightarrow>
    Append rec os w d = (None, w', d') \<Longrightarrow> wal_reach (Some w') d' acked tried ck"
| checkpointed: "wal_reach (Some w) d acked tried ck \<Longrightarrow> may_checkpoint upTo w d \<Longrightarrow>
    Checkpoint upTo os w d = (True, w', d') \<Longrightarrow> wal_reach (Some w') d' acked tried (max ck (unat upTo))"
| checkpoint_crash: "wal_reach (Some w) d acked tried ck \<Longrightarrow> may_checkpoint upTo w d \<Longrightarrow>
    Checkpoint upTo os w d = (False, w', d') \<Longrightarrow> crash d' d'' \<Longrightarrow> wal_reach None d'' acked tried (max ck (unat upTo))"
| crashed: "wal_reach (Some w) d acked tried ck \<Longrightarrow> crash d d' \<Longrightarrow> wal_reach None d' acked tried ck"

definition logged :: "entry list \<Rightarrow> Record set \<Rightarrow> Record set \<Rightarrow> nat \<Rightarrow> bool" where
  "logged es acked tried ck \<longleftrightarrow> set (recs es) \<subseteq> tried \<and> (\<forall>r \<in> acked. ck < unat (r_Seq r) \<longrightarrow> r \<in> set (recs es))"

lemma logged_drop:
  "logged es acked tried ck \<Longrightarrow> recs es = dropped @ recs es' \<Longrightarrow> \<forall>r \<in> set dropped. r_Seq r \<le> upTo \<Longrightarrow>
   logged es' acked tried (max ck (unat upTo))"
  unfolding logged_def by (fastforce simp: word_le_nat_alt)

lemma log_up_down: "log_up w d es \<Longrightarrow> crash d d' \<Longrightarrow> log_down d' es"
  using crash_holds [of d es d'] read_frame_Nil unfolding log_up_def log_down_def chain_def by blast

lemma up_current:
  assumes up: "log_up w d es" and ck: "may_checkpoint upTo w d"
  shows "upTo < w_seq w \<or> length es = 1 \<or> snd (last es) \<noteq> []"
proof -
  have ne: "es \<noteq> []" and sg: "w_segs w = map entry_seg es" using up by (simp_all add: log_up_def chain_def)
  have "map_of d (ws_path (last (w_segs w))) = Some (on_disk (frames (snd (last es))))"
    using up ne by (simp add: log_up_def holds_def last_map)
  then show ?thesis using ck sg by (auto simp: may_checkpoint_def LastSeq_def)
qed

lemma Append_refused:
  assumes up: "log_up w d es" and "w_segmentSize w \<le> w_curBytes w" and "\<not> os_create os" and "Append rec os w d = (None, w', d')"
  shows "log_up w' d' es"
proof -
  have c: "chain es" "holds d es []" "es \<noteq> []" "w_cur w = Some (seg_name (fst (last es)))" using up by (simp_all add: log_up_def chain_def)
  have "holds (sync_file (seg_name (fst (last es))) d) es []" by (rule sync_holds [OF c(2,3) chain_distinct [OF c(1)]])
  then show ?thesis using assms c by (auto simp: Append_def rollLocked_def Let_def log_up_def split: if_splits)
qed

lemma wal_reach_log:
  "wal_reach w d acked tried ck \<Longrightarrow>
   \<exists>es. logged es acked tried ck \<and> (case w of None \<Rightarrow> log_down d es | Some w \<Rightarrow> log_up w d es)"
proof (induction rule: wal_reach.induct)
  case (fresh d)
  then show ?case by (auto simp: logged_def log_down_def intro!: exI [of _ "[]"])
next
  case (opened d acked tried ck os w d')
  then obtain es where es: "logged es acked tried ck" "log_down d es" by auto
  from Open_log [OF es(2) opened.hyps(2)] es(1) show ?case unfolding logged_def by metis
next
  case (appended w d acked tried ck os rec sq w' d' rec')
  then obtain es where es: "logged es acked tried ck" "log_up w d es" by auto
  from Append_log [OF es(2) appended.hyps(2-4)] obtain es' where "log_up w' d' es'" "recs es' = recs es @ [rec']" by auto
  with es(1) show ?case by (auto simp: logged_def intro!: exI [of _ es'])
next
  case (append_crash w d acked tried ck os rec w' d' d'' rec')
  then obtain es where es: "logged es acked tried ck" "log_up w d es" by auto
  from Append_log [OF es(2) append_crash.hyps(2,3,5)] append_crash.hyps(4)
  obtain es' where "log_down d'' es'" "recs es' = recs es \<or> recs es' = recs es @ [rec']" by auto
  with es(1) show ?case by (auto simp: logged_def intro!: exI [of _ es'])
next
  case (append_refused w d acked tried ck os rec w' d')
  then show ?case using Append_refused by fastforce
next
  case (checkpointed w d acked tried ck upTo os w' d')
  then obtain es where es: "logged es acked tried ck" "log_up w d es" by auto
  from Checkpoint_log [OF es(2) up_current [OF es(2) checkpointed.hyps(2)] checkpointed.hyps(3)] logged_drop [OF es(1)]
  show ?case by auto
next
  case (checkpoint_crash w d acked tried ck upTo os w' d' d'')
  then obtain es where es: "logged es acked tried ck" "log_up w d es" by auto
  from Checkpoint_log [OF es(2) up_current [OF es(2) checkpoint_crash.hyps(2)] checkpoint_crash.hyps(3)] logged_drop [OF es(1)]
  obtain es' where "logged es' acked tried (max ck (unat upTo))" "chain es'" "holds d' es' []" by auto
  then have "log_down d'' es'"
    using crash_holds [OF _ checkpoint_crash.hyps(4)] read_frame_Nil unfolding log_down_def chain_def by blast
  with \<open>logged es' acked tried (max ck (unat upTo))\<close> show ?case by auto
next
  case (crashed w d acked tried ck d')
  then show ?case using log_up_down by fastforce
qed

lemma replay_segs_entries:
  assumes "\<forall>p. os_open os p" and "\<forall>e \<in> set es. map_of d (seg_name (fst e)) = Some (on_disk (frames (snd e)))"
  shows "replay_segs (map entry_seg es) fn os d st = (case feed_recs fn (recs es) st of (r, st') \<Rightarrow> (map_option Inr r, st'))"
  using assms(2)
proof (induction es arbitrary: st)
  case (Cons e es)
  have "replaySegment (frames (snd e)) fn st = feed_recs fn (snd e) st" using replaySegment_frames [of "[]"] by simp
  with Cons assms(1) show ?case by (auto simp: feed_recs_append split: prod.splits option.splits)
qed simp

section \<open>Properties\<close>

text \<open>C3: No acknowledged record is lost, as long as the process restarts after an append that failed while writing.  Under every
  schedule of appends, crashes at any byte of a frame, restarts and checkpoints, with fewer than \<open>2 ^ 64\<close> records, in which a
  failed append (unless it failed to create the next segment) or a failed checkpoint is followed by a restart, and no
  checkpoint covers the last record while the newest of several segments is empty, replaying an open log
  hands the handler a list of records in strictly increasing sequence order, each of which was passed to \<open>Append\<close>, and among
  them every acknowledged record with a number above the last checkpoint.\<close>

theorem wal_replays_acknowledged:
  assumes "wal_reach (Some w) d acked tried ck" and "\<forall>p. os_open os p"
  shows "\<exists>rs. (\<forall>(fn :: Record \<Rightarrow> 'st \<Rightarrow> 'e option \<times> 'st) st. Replay fn os w d st = (case feed_recs fn rs st of (r, st') \<Rightarrow> (map_option Inr r, st'))) \<and>
    sorted_wrt (\<lambda>a b. r_Seq a < r_Seq b) rs \<and> set rs \<subseteq> tried \<and> (\<forall>r \<in> acked. ck < unat (r_Seq r) \<longrightarrow> r \<in> set rs)"
proof -
  obtain es where l: "logged es acked tried ck" and up: "log_up w d es" using wal_reach_log [OF assms(1)] by auto
  have e: "\<forall>e \<in> set es. map_of d (seg_name (fst e)) = Some (on_disk (frames (snd e)))"
    using up holds_entry by (auto simp: log_up_def simp del: map_of_eq_Some_iff)
  have "\<forall>(fn :: Record \<Rightarrow> 'st \<Rightarrow> 'e option \<times> 'st) st. Replay fn os w d st = (case feed_recs fn (recs es) st of (r, st') \<Rightarrow> (map_option Inr r, st'))"
    using up by (simp add: Replay_def log_up_def replay_segs_entries [OF assms(2) e])
  moreover have "sorted_wrt (\<lambda>a b. r_Seq a < r_Seq b) (recs es)"
    using up by (intro sorted_recs) (simp add: log_up_def chain_def)
  ultimately show ?thesis using l unfolding logged_def by blast
qed

text \<open>A log that acknowledges one record and crashes ten bytes into the next.\<close>

definition demo_rec :: Record where
  "demo_rec = \<lparr>r_Seq = 0, r_Op = OpWrite, r_Ino = 2, r_Indx = 0, r_Off = 0, r_SliceID = 5, r_Size = 9, r_SliceOff = 0, r_SliceLen = 9\<rparr>"

definition all_ok :: os_calls where
  "all_ok = \<lparr>os_open = \<lambda>_. True, os_create = True, os_dirsync = True, os_truncate = True, os_write = None, os_sync = True,
     os_rollsync = True, os_remove = \<lambda>_. True\<rparr>"

definition demo_wal :: "u64 \<Rightarrow> u64 \<Rightarrow> nat \<Rightarrow> WAL" where
  "demo_wal sq mx n = \<lparr>w_segmentSize = DefaultSegmentBytes, w_seq = sq,
     w_segs = [\<lparr>ws_path = seg_name 1, ws_startSeq = 1, ws_maxSeq = mx\<rparr>], w_cur = Some (seg_name 1), w_curBytes = int n\<rparr>"

lemma demo_first: "Open_wal all_ok [] = (Some (demo_wal 0 0 0), [(seg_name 1, on_disk [])])"
  by (simp add: Open_wal_def load_def seg_entries_def List.map_filter_simps rollLocked_def Let_def all_ok_def create_file_def
      demo_wal_def on_disk_def)

lemma demo_append:
  "Append demo_rec all_ok (demo_wal 0 0 0) [(seg_name 1, on_disk [])] =
    (Some 1, demo_wal 1 1 53, [(seg_name 1, on_disk (frame (demo_rec\<lparr>r_Seq := 1\<rparr>)))])"
  by (simp add: Append_def append_here_def Let_def all_ok_def demo_wal_def append_file_def sync_file_def on_disk_def
      set_last_max_def DefaultSegmentBytes_def recordPayloadLen_def)

lemma demo_short:
  "Append demo_rec (all_ok\<lparr>os_write := Some 10\<rparr>) (demo_wal 1 1 53) [(seg_name 1, on_disk bs)] =
    (None, demo_wal 2 1 53, [(seg_name 1, \<lparr>f_data = bs @ take 10 (frame (demo_rec\<lparr>r_Seq := 2\<rparr>)), f_durable = length bs\<rparr>)])"
  by (simp add: Append_def append_here_def Let_def all_ok_def demo_wal_def append_file_def on_disk_def DefaultSegmentBytes_def)

lemma demo_reopen:
  assumes "read_frame t = None" and "t \<noteq> []"
  shows "Open_wal all_ok [(seg_name 1, on_disk (frames rs @ t))] =
    (Some (demo_wal (top_seq 0 rs) (top_seq 0 rs) (length (frames rs))), [(seg_name 1, on_disk (frames rs))])"
proof -
  have "seg_entries [(seg_name 1, on_disk (frames rs @ t))] = [\<lparr>ws_path = seg_name 1, ws_startSeq = 1, ws_maxSeq = 0\<rparr>]"
    by (simp add: seg_entries_def List.map_filter_simps)
  then show ?thesis
    using assms scan_loop_frames [OF assms(1), of rs 0 0 0]
    by (simp add: Open_wal_def load_def scanSegment_def all_ok_def Let_def truncate_file_def demo_wal_def on_disk_def if_less_max max_absorb2)
qed

theorem wal_replays_acknowledged_witness:
  "\<exists>w d rs. wal_reach (Some w) d {demo_rec\<lparr>r_Seq := 1\<rparr>} {demo_rec\<lparr>r_Seq := 1\<rparr>, demo_rec\<lparr>r_Seq := 2\<rparr>} 0 \<and>
     (\<forall>(fn :: Record \<Rightarrow> nat \<Rightarrow> nat option \<times> nat) st.
        Replay fn all_ok w d st = (case feed_recs fn rs st of (r, st') \<Rightarrow> (map_option Inr r, st'))) \<and>
     demo_rec\<lparr>r_Seq := 1\<rparr> \<in> set rs"
proof -
  let ?r1 = "demo_rec\<lparr>r_Seq := 1\<rparr>" and ?r2 = "demo_rec\<lparr>r_Seq := 2\<rparr>"
  have "wal_reach None [] {} {} 0" by (rule fresh) (simp add: no_segments_def)
  from opened [OF this demo_first] have "wal_reach (Some (demo_wal 0 0 0)) [(seg_name 1, on_disk [])] {} {} 0" .
  from appended [OF this _ demo_append refl]
  have r1: "wal_reach (Some (demo_wal 1 1 53)) [(seg_name 1, on_disk (frame ?r1))] {?r1} {?r1} 0"
    by (simp add: demo_wal_def all_ok_def)
  let ?t = "take 10 (frame ?r2)"
  have "crash [(seg_name 1, \<lparr>f_data = frame ?r1 @ ?t, f_durable = length (frame ?r1)\<rparr>)] [(seg_name 1, on_disk (frames [?r1] @ ?t))]"
    by (auto simp: crash_def recordPayloadLen_def intro!: exI [of _ "length (frame ?r1 @ ?t)"])
  from append_crash [OF r1 _ demo_short this refl]
  have "wal_reach None [(seg_name 1, on_disk (frames [?r1] @ ?t))] {?r1} {?r1, ?r2} 0"
    by (simp add: demo_wal_def all_ok_def insert_commute)
  moreover have "read_frame ?t = None" "?t \<noteq> []"
    using read_frame_torn [of 10 ?r2] by (simp_all add: recordPayloadLen_def flip: length_greater_0_conv)
  ultimately have up: "wal_reach (Some (demo_wal (top_seq 0 [?r1]) (top_seq 0 [?r1]) (length (frames [?r1]))))
      [(seg_name 1, on_disk (frames [?r1]))] {?r1} {?r1, ?r2} 0"
    using opened demo_reopen by blast
  from wal_replays_acknowledged [where os = all_ok, OF this] obtain rs where
    "\<forall>(fn :: Record \<Rightarrow> nat \<Rightarrow> nat option \<times> nat) st. Replay fn all_ok (demo_wal (top_seq 0 [?r1]) (top_seq 0 [?r1]) (length (frames [?r1])))
       [(seg_name 1, on_disk (frames [?r1]))] st = (case feed_recs fn rs st of (r, st') \<Rightarrow> (map_option Inr r, st'))" "?r1 \<in> set rs"
    by (auto simp: all_ok_def)
  with up show ?thesis by blast
qed

section \<open>Why the schedule is restricted\<close>

text \<open>
  A failed write leaves part of a frame behind, and \<open>Append\<close> neither removes it nor stops the log.  A record
  appended afterwards is acknowledged, but the scan of the next start stops at the broken frame and cuts the
  file there: the acknowledged record is gone.  One byte is enough.
\<close>

lemma one_byte_torn: "read_frame (take 1 (frame r) @ frame r') = None"
proof -
  have len: "put_be 4 (word_of_nat recordPayloadLen :: u32) = [0, 0, 0, 45]" by code_simp
  have f: "frame r = [0, 0, 0, 45] @ drop 4 (frame r)" for r by (simp only: frame_def Let_def length_marshal len) simp
  have "take 4 (take 1 (frame r) @ frame r') = [0, 0, 0, 0]" by (subst f, subst (2) f) simp
  then show ?thesis unfolding read_frame_def Let_def by (simp add: recordPayloadLen_def)
qed

theorem short_write_loses_acknowledged:
  fixes r1 r2 :: Record
  defines "r1 \<equiv> demo_rec\<lparr>r_Seq := 1\<rparr>" and "r2 \<equiv> demo_rec\<lparr>r_Seq := 2\<rparr>"
  shows "Append demo_rec (all_ok\<lparr>os_write := Some 1\<rparr>) (demo_wal 0 0 0) [(seg_name 1, on_disk [])] =
      (None, demo_wal 1 0 0, [(seg_name 1, \<lparr>f_data = take 1 (frame r1), f_durable = 0\<rparr>)])"
    and "Append demo_rec all_ok (demo_wal 1 0 0) [(seg_name 1, \<lparr>f_data = take 1 (frame r1), f_durable = 0\<rparr>)] =
      (Some 2, demo_wal 2 2 53, [(seg_name 1, on_disk (take 1 (frame r1) @ frame r2))])"
    and "Open_wal all_ok [(seg_name 1, on_disk (take 1 (frame r1) @ frame r2))] =
      (Some (demo_wal 0 0 0), [(seg_name 1, on_disk [])])"
proof -
  show "Append demo_rec (all_ok\<lparr>os_write := Some 1\<rparr>) (demo_wal 0 0 0) [(seg_name 1, on_disk [])] =
      (None, demo_wal 1 0 0, [(seg_name 1, \<lparr>f_data = take 1 (frame r1), f_durable = 0\<rparr>)])"
    by (simp add: Append_def append_here_def Let_def all_ok_def demo_wal_def append_file_def on_disk_def DefaultSegmentBytes_def r1_def)
  show "Append demo_rec all_ok (demo_wal 1 0 0) [(seg_name 1, \<lparr>f_data = take 1 (frame r1), f_durable = 0\<rparr>)] =
      (Some 2, demo_wal 2 2 53, [(seg_name 1, on_disk (take 1 (frame r1) @ frame r2))])"
    by (simp add: Append_def append_here_def Let_def all_ok_def demo_wal_def append_file_def sync_file_def on_disk_def
        set_last_max_def DefaultSegmentBytes_def recordPayloadLen_def r2_def)
  have "frame r2 \<noteq> []" by (metis length_frame list.size(3) add_is_0 zero_neq_numeral)
  then show "Open_wal all_ok [(seg_name 1, on_disk (take 1 (frame r1) @ frame r2))] =
      (Some (demo_wal 0 0 0), [(seg_name 1, on_disk [])])"
    using demo_reopen [OF one_byte_torn, of r1 r2 "[]"] by (simp add: top_seq_def)
qed

text \<open>
  \<open>Open\<close> recovers the sequence number from the records alone and ignores the start number of an empty segment.
  A crash between the creation of a segment and its first record, a restart whose checkpoint drops the older
  segments, and a second restart start the numbering again at one.
\<close>

theorem empty_segment_resets_sequence:
  "\<exists>w. Open_wal all_ok [(seg_name 11, on_disk [])] = (Some w, [(seg_name 11, on_disk [])]) \<and> LastSeq w = 0"
proof -
  have "seg_entries [(seg_name 11, on_disk [])] = [\<lparr>ws_path = seg_name 11, ws_startSeq = 11, ws_maxSeq = 0\<rparr>]"
    by (simp add: seg_entries_def List.map_filter_simps)
  moreover have "scan_loop [] 0 0 0 = (0, 0, 0)" by (subst scan_loop.simps) simp
  ultimately show ?thesis
    by (simp add: Open_wal_def load_def scanSegment_def all_ok_def Let_def on_disk_def LastSeq_def)
qed

end
