(* ===== verification/Pack_Format.thy ===== *)
theory Pack_Format
  imports Bytes
begin

text \<open>
  The stored form of pack blobs: casstore/snapshot/store_compress.go from \<open>packMagic\<close> on.  A pack is stored as
  one codec stream or with every chunk compressed on its own behind an index; the header says which.

  The compression libraries are a parameter, the record \<open>codec\<close>: encoding may fail, and a decoder delivers bytes
  and then ends cleanly or with an error.
\<close>

section \<open>Definitions\<close>

datatype serr = ErrCorrupt | ErrMissingBlob | ErrNoSnapshot | ErrPackObliterating | ErrShortPrefix | ErrOther | ErrPanicked

text \<open>\<open>CompressionAlgo\<close> with its two in-memory markers.\<close>

datatype CompressionAlgo = CompressNone | CompressGzip | CompressZstd | packAlgoChunked | forceWholePack

record codec =
  cz_enc :: "CompressionAlgo \<Rightarrow> bytes \<Rightarrow> bytes option"
  cz_dec :: "CompressionAlgo \<Rightarrow> bytes \<Rightarrow> (bytes \<times> bool) option"

definition codec_ok :: "codec \<Rightarrow> bool" where
  "codec_ok cz \<longleftrightarrow> (\<forall>a x y. cz_enc cz a x = Some y \<longrightarrow> cz_dec cz a y = Some (x, True))"

text \<open>\<open>newCompressor\<close> and \<open>newDecompressor\<close> know two algorithms.\<close>

definition compressor :: "codec \<Rightarrow> CompressionAlgo \<Rightarrow> bytes \<Rightarrow> bytes option" where
  "compressor cz algo raw = (case algo of
      CompressGzip \<Rightarrow> cz_enc cz CompressGzip raw
    | CompressZstd \<Rightarrow> cz_enc cz CompressZstd raw
    | _ \<Rightarrow> None)"

definition decompressor :: "codec \<Rightarrow> CompressionAlgo \<Rightarrow> bytes \<Rightarrow> (bytes \<times> bool) option" where
  "decompressor cz algo src = (case algo of
      CompressGzip \<Rightarrow> cz_dec cz CompressGzip src
    | CompressZstd \<Rightarrow> cz_dec cz CompressZstd src
    | _ \<Rightarrow> None)"

definition packMagic :: bytes where
  "packMagic = [0x43, 0x50, 0x4B, 1]"

definition packHeaderLen :: nat where
  "packHeaderLen = length packMagic + 1"

definition packCodecNone :: u8 where "packCodecNone = 0"
definition packCodecZstd :: u8 where "packCodecZstd = 1"
definition packCodecGzip :: u8 where "packCodecGzip = 2"
definition packCodecChunked :: u8 where "packCodecChunked = 3"

definition packCodecByte :: "CompressionAlgo \<Rightarrow> u8" where
  "packCodecByte algo = (case algo of CompressGzip \<Rightarrow> packCodecGzip | CompressZstd \<Rightarrow> packCodecZstd | _ \<Rightarrow> packCodecNone)"

definition packAlgoFromByte :: "u8 \<Rightarrow> CompressionAlgo option" where
  "packAlgoFromByte b =
    (if b = packCodecNone then Some CompressNone
     else if b = packCodecZstd then Some CompressZstd
     else if b = packCodecGzip then Some CompressGzip
     else None)"

definition compressPackBlob :: "codec \<Rightarrow> bytes \<Rightarrow> CompressionAlgo \<Rightarrow> serr + bytes" where
  "compressPackBlob cz raw algo =
    (let header = packMagic @ [packCodecByte algo]
     in if algo = CompressNone then Inr (header @ raw)
        else case compressor cz algo raw of None \<Rightarrow> Inl ErrOther | Some body \<Rightarrow> Inr (header @ body))"

subsection \<open>Framing\<close>

record packSpan =
  sp_offset :: int
  sp_size :: int

record packChunkEntry =
  pe_uncOffset :: int
  pe_uncSize :: int
  pe_stoOffset :: int
  pe_stoSize :: int
  pe_codec :: u8

record packFraming =
  pf_algo :: CompressionAlgo
  pf_contentBase :: int
  pf_chunkedCodec :: CompressionAlgo
  pf_indexLen :: int
  pf_bodyBase :: int
  pf_chunked :: "packChunkEntry list"

definition packChunkedHeaderLen :: nat where
  "packChunkedHeaderLen = packHeaderLen + 1 + 4"

definition packChunkEntryLen :: nat where
  "packChunkEntryLen = 8 + 4 + 8 + 4 + 1"

definition plain_framing :: "CompressionAlgo \<Rightarrow> int \<Rightarrow> packFraming" where
  "plain_framing algo base = \<lparr>pf_algo = algo, pf_contentBase = base, pf_chunkedCodec = CompressNone, pf_indexLen = 0,
     pf_bodyBase = 0, pf_chunked = []\<rparr>"

definition has_header :: "bytes \<Rightarrow> bool" where
  "has_header bs \<longleftrightarrow> packHeaderLen \<le> length bs \<and> take (length packMagic) bs = packMagic"

definition detectPackFraming :: "bytes \<Rightarrow> serr + packFraming" where
  "detectPackFraming prefix =
    (if \<not> has_header prefix then Inr (plain_framing CompressNone 0)
     else if prefix ! length packMagic = packCodecChunked
     then
       (if length prefix < packChunkedHeaderLen then Inl ErrShortPrefix
        else case packAlgoFromByte (prefix ! packHeaderLen) of
            None \<Rightarrow> Inl ErrOther
          | Some logical \<Rightarrow>
              (let indexLen = uint (get_be (take 4 (drop (packHeaderLen + 1) prefix)) :: u32)
               in if indexLen mod int packChunkEntryLen \<noteq> 0 then Inl ErrOther
                  else Inr \<lparr>pf_algo = packAlgoChunked, pf_contentBase = 0, pf_chunkedCodec = logical, pf_indexLen = indexLen,
                    pf_bodyBase = int packChunkedHeaderLen + indexLen, pf_chunked = []\<rparr>))
     else case packAlgoFromByte (prefix ! length packMagic) of
         None \<Rightarrow> Inl ErrOther
       | Some algo \<Rightarrow> Inr (plain_framing algo (int packHeaderLen)))"

definition logicalCodec :: "packFraming \<Rightarrow> CompressionAlgo" where
  "logicalCodec f = (if pf_algo f = packAlgoChunked then pf_chunkedCodec f else pf_algo f)"

subsection \<open>Writing the per-chunk framing\<close>

fun tiles :: "int \<Rightarrow> packSpan list \<Rightarrow> int option" where
  "tiles next [] = Some next"
| "tiles next (s # ss) = (if sp_size s < 0 \<or> sp_offset s \<noteq> next then None else tiles (next + sp_size s) ss)"

definition validatePackSpans :: "bytes \<Rightarrow> packSpan list \<Rightarrow> bool" where
  "validatePackSpans raw spans =
    (if spans = [] then raw = []
     else case tiles 0 spans of None \<Rightarrow> False | Some next \<Rightarrow> next = int (length raw))"

definition compressChunkBody :: "codec \<Rightarrow> bytes \<Rightarrow> CompressionAlgo \<Rightarrow> (bytes \<times> u8) option" where
  "compressChunkBody cz chunk algo = (case compressor cz algo chunk of
      None \<Rightarrow> None
    | Some body \<Rightarrow> if length chunk \<le> length body then Some (chunk, packCodecNone) else Some (body, packCodecByte algo))"

text \<open>The loop over the spans: entries and bodies, from the running stored offset.\<close>

fun chunk_bodies :: "codec \<Rightarrow> bytes \<Rightarrow> CompressionAlgo \<Rightarrow> int \<Rightarrow> packSpan list \<Rightarrow> (packChunkEntry list \<times> bytes list) option" where
  "chunk_bodies cz raw algo stoOff [] = Some ([], [])"
| "chunk_bodies cz raw algo stoOff (s # ss) =
    (case compressChunkBody cz (take (nat (sp_size s)) (drop (nat (sp_offset s)) raw)) algo of
       None \<Rightarrow> None
     | Some (body, cdc) \<Rightarrow>
         (case chunk_bodies cz raw algo (stoOff + int (length body)) ss of
            None \<Rightarrow> None
          | Some (es, bs) \<Rightarrow>
              Some (\<lparr>pe_uncOffset = sp_offset s, pe_uncSize = sp_size s, pe_stoOffset = stoOff,
                pe_stoSize = int (length body), pe_codec = cdc\<rparr> # es, body # bs)))"

definition put_entry :: "packChunkEntry \<Rightarrow> bytes" where
  "put_entry e = put_be 8 (word_of_int (pe_uncOffset e) :: u64) @ put_be 4 (word_of_int (pe_uncSize e) :: u32) @
     put_be 8 (word_of_int (pe_stoOffset e) :: u64) @ put_be 4 (word_of_int (pe_stoSize e) :: u32) @ [pe_codec e]"

definition compressPackBlobChunked :: "codec \<Rightarrow> bytes \<Rightarrow> packSpan list \<Rightarrow> CompressionAlgo \<Rightarrow> serr + bytes" where
  "compressPackBlobChunked cz raw spans algo =
    (if algo = CompressNone then compressPackBlob cz raw algo
     else if \<not> validatePackSpans raw spans then Inl ErrOther
     else case chunk_bodies cz raw algo 0 spans of
         None \<Rightarrow> Inl ErrOther
       | Some (entries, bodies) \<Rightarrow>
           Inr (packMagic @ [packCodecChunked, packCodecByte algo] @
             put_be 4 (word_of_nat (length entries * packChunkEntryLen) :: u32) @ concat (map put_entry entries) @ concat bodies))"

subsection \<open>Reading\<close>

definition get_entry :: "bytes \<Rightarrow> packChunkEntry" where
  "get_entry b = \<lparr>pe_uncOffset = sint (get_be (take 8 b) :: u64), pe_uncSize = uint (get_be (take 4 (drop 8 b)) :: u32),
     pe_stoOffset = sint (get_be (take 8 (drop 12 b)) :: u64), pe_stoSize = uint (get_be (take 4 (drop 20 b)) :: u32),
     pe_codec = b ! 24\<rparr>"

fun parse_entries :: "nat \<Rightarrow> bytes \<Rightarrow> int \<Rightarrow> int \<Rightarrow> serr + packChunkEntry list" where
  "parse_entries 0 b nextUnc nextSto = Inr []"
| "parse_entries (Suc n) b nextUnc nextSto =
    (let e = get_entry b
     in if pe_uncOffset e \<noteq> nextUnc \<or> pe_stoOffset e \<noteq> nextSto \<or> packAlgoFromByte (pe_codec e) = None then Inl ErrCorrupt
        else case parse_entries n (drop packChunkEntryLen b) (nextUnc + pe_uncSize e) (nextSto + pe_stoSize e) of
            Inl x \<Rightarrow> Inl x
          | Inr es \<Rightarrow> Inr (e # es))"

definition parsePackChunkIndex :: "bytes \<Rightarrow> serr + packChunkEntry list" where
  "parsePackChunkIndex b =
    (if length b mod packChunkEntryLen \<noteq> 0 then Inl ErrOther else parse_entries (length b div packChunkEntryLen) b 0 0)"

text \<open>
  Decode one entry to exactly \<open>n\<close> bytes: the decoder must deliver at least \<open>n\<close> and then no more.  What it
  reports behind them, a checksum error for one, is not looked at.
\<close>

definition inflateChunkEntry :: "codec \<Rightarrow> packChunkEntry \<Rightarrow> bytes \<Rightarrow> nat \<Rightarrow> serr + bytes" where
  "inflateChunkEntry cz e body n =
    (if pe_stoOffset e < 0 \<or> int (length body) < pe_stoOffset e + pe_stoSize e then Inl ErrCorrupt
     else
       (let src = take (nat (pe_stoSize e)) (drop (nat (pe_stoOffset e)) body)
        in case packAlgoFromByte (pe_codec e) of
             None \<Rightarrow> Inl ErrCorrupt
           | Some algo \<Rightarrow>
               if algo = CompressNone then (if length src = n then Inr src else Inl ErrCorrupt)
               else case decompressor cz algo src of
                   None \<Rightarrow> Inl ErrOther
                 | Some (out, _) \<Rightarrow>
                     if length out < n then Inl ErrOther else if n < length out then Inl ErrCorrupt else Inr out))"

text \<open>Decode entries into a buffer; \<open>base\<close> and \<open>storedBase\<close> are those of the window.\<close>

fun inflate_all :: "codec \<Rightarrow> int \<Rightarrow> int \<Rightarrow> bytes \<Rightarrow> packChunkEntry list \<Rightarrow> bytes \<Rightarrow> serr + bytes" where
  "inflate_all cz base storedBase body [] out = Inr out"
| "inflate_all cz base storedBase body (e # es) out =
    (let dst = pe_uncOffset e - base
     in if dst < 0 \<or> int (length out) < dst + pe_uncSize e then Inl ErrPanicked
        else case inflateChunkEntry cz (e\<lparr>pe_stoOffset := pe_stoOffset e - storedBase\<rparr>) body (nat (pe_uncSize e)) of
            Inl x \<Rightarrow> Inl x
          | Inr bs \<Rightarrow> inflate_all cz base storedBase body es (take (nat dst) out @ bs @ drop (nat dst + length bs) out))"

definition decompressChunkedPackBlob :: "codec \<Rightarrow> bytes \<Rightarrow> serr + bytes" where
  "decompressChunkedPackBlob cz stored =
    (case detectPackFraming stored of
       Inl x \<Rightarrow> Inl x
     | Inr f \<Rightarrow>
         if int (length stored) < pf_bodyBase f then Inl ErrCorrupt
         else case parsePackChunkIndex (drop packChunkedHeaderLen (take (nat (pf_bodyBase f)) stored)) of
             Inl x \<Rightarrow> Inl x
           | Inr entries \<Rightarrow>
               if entries = [] then Inr []
               else inflate_all cz 0 0 (drop (nat (pf_bodyBase f)) stored) entries
                 (replicate (nat (pe_uncOffset (last entries) + pe_uncSize (last entries))) 0))"

definition decompressPackBlob :: "codec \<Rightarrow> bytes \<Rightarrow> serr + bytes" where
  "decompressPackBlob cz stored =
    (if \<not> has_header stored then Inr stored
     else if stored ! length packMagic = packCodecChunked then decompressChunkedPackBlob cz stored
     else case packAlgoFromByte (stored ! length packMagic) of
         None \<Rightarrow> Inl ErrOther
       | Some algo \<Rightarrow>
           (let body = drop packHeaderLen stored
            in if algo = CompressNone then Inr body
               else case decompressor cz algo body of
                   Some (out, True) \<Rightarrow> Inr out
                 | _ \<Rightarrow> Inl ErrOther))"

text \<open>The stored range and the entries behind a window of the content.\<close>

definition chunkedStoredSpan :: "packFraming \<Rightarrow> int \<Rightarrow> int \<Rightarrow> serr + int \<times> int \<times> nat \<times> nat" where
  "chunkedStoredSpan f minOff maxEnd =
    (let es = pf_chunked f; first = length (takeWhile (\<lambda>e. pe_uncOffset e \<noteq> minOff) es)
     in if first = length es then Inl ErrCorrupt
        else
          (let fin = first + length (takeWhile (\<lambda>e. pe_uncOffset e < maxEnd) (drop first es))
           in if fin = first then Inr (0, 0, first, first)
              else
                (let ee = es ! (fin - 1)
                 in if pe_uncOffset ee + pe_uncSize ee \<noteq> maxEnd then Inl ErrCorrupt
                    else Inr (pe_stoOffset (es ! first), pe_stoOffset ee + pe_stoSize ee - pe_stoOffset (es ! first), first, fin))))"

definition materializeChunkedWindow :: "codec \<Rightarrow> packChunkEntry list \<Rightarrow> nat \<Rightarrow> nat \<Rightarrow> bytes \<Rightarrow> int \<Rightarrow> serr + bytes" where
  "materializeChunkedWindow cz entries first fin storedWindow storedBase =
    (if fin \<le> first then Inr []
     else
       (let base = pe_uncOffset (entries ! first);
            len = pe_uncOffset (entries ! (fin - 1)) + pe_uncSize (entries ! (fin - 1)) - base
        in inflate_all cz base storedBase storedWindow (take (fin - first) (drop first entries)) (replicate (nat len) 0)))"

end
