(* ===== verification/Pack_Props.thy ===== *)
theory Pack_Props
  imports Pack_Format
begin

text \<open>
  Packs round trip: decoding a stored pack gives its content for both framings, and a ranged read of a per-chunk
  framed pack gives the window of the content, for windows on chunk boundaries.
\<close>

section \<open>Header\<close>

lemmas pack_consts = packMagic_def packHeaderLen_def packChunkedHeaderLen_def packChunkEntryLen_def
  packCodecNone_def packCodecZstd_def packCodecGzip_def packCodecChunked_def

lemma packAlgo_byte: "algo \<in> {CompressNone, CompressGzip, CompressZstd} \<Longrightarrow> packAlgoFromByte (packCodecByte algo) = Some algo"
  by (auto simp: packAlgoFromByte_def packCodecByte_def pack_consts)

lemma codec_not_chunked: "packCodecByte algo \<noteq> packCodecChunked"
  by (cases algo) (auto simp: packCodecByte_def pack_consts)

lemma compressor_algo: "compressor cz algo raw = Some body \<Longrightarrow> algo \<in> {CompressGzip, CompressZstd}"
  by (cases algo) (auto simp: compressor_def)

lemma decompressor_inverse:
  "codec_ok cz \<Longrightarrow> compressor cz algo raw = Some body \<Longrightarrow> decompressor cz algo body = Some (raw, True)"
  by (cases algo) (auto simp: compressor_def decompressor_def codec_ok_def)

lemma decompress_compressPackBlob:
  assumes "codec_ok cz" and "compressPackBlob cz raw algo = Inr stored" and "algo \<in> {CompressNone, CompressGzip, CompressZstd}"
  shows "decompressPackBlob cz stored = Inr raw"
proof -
  obtain body where s: "stored = packMagic @ [packCodecByte algo] @ body"
    and b: "if algo = CompressNone then body = raw else compressor cz algo raw = Some body"
    using assms(2) by (auto simp: compressPackBlob_def Let_def split: if_splits option.splits)
  have "has_header stored" "stored ! length packMagic = packCodecByte algo" "drop packHeaderLen stored = body"
    by (simp_all add: s has_header_def packHeaderLen_def nth_append)
  then show ?thesis
    using b packAlgo_byte [OF assms(3)] codec_not_chunked decompressor_inverse [OF assms(1)]
    by (cases "algo = CompressNone") (auto simp: decompressPackBlob_def)
qed

section \<open>The index\<close>

text \<open>Entries that tile content and body from the given offsets and fit their fields.\<close>

fun entries_ok :: "int \<Rightarrow> int \<Rightarrow> packChunkEntry list \<Rightarrow> bool" where
  "entries_ok u st [] = True"
| "entries_ok u st (e # es) \<longleftrightarrow> pe_uncOffset e = u \<and> pe_stoOffset e = st \<and> 0 \<le> u \<and> u < 2 ^ 63 \<and> 0 \<le> st \<and> st < 2 ^ 63 \<and>
     0 \<le> pe_uncSize e \<and> pe_uncSize e < 2 ^ 32 \<and> 0 \<le> pe_stoSize e \<and> pe_stoSize e < 2 ^ 32 \<and>
     packAlgoFromByte (pe_codec e) \<noteq> None \<and> entries_ok (u + pe_uncSize e) (st + pe_stoSize e) es"

lemma length_put_entry [simp]: "length (put_entry e) = packChunkEntryLen"
  by (simp add: put_entry_def packChunkEntryLen_def)

lemma get_put_entry:
  assumes "0 \<le> pe_uncOffset e" "pe_uncOffset e < 2 ^ 63" "0 \<le> pe_stoOffset e" "pe_stoOffset e < 2 ^ 63"
    "0 \<le> pe_uncSize e" "pe_uncSize e < 2 ^ 32" "0 \<le> pe_stoSize e" "pe_stoSize e < 2 ^ 32"
  shows "get_entry (put_entry e @ bs) = e"
proof -
  have "take 8 (put_entry e @ bs) = put_be 8 (word_of_int (pe_uncOffset e) :: u64)"
    "take 4 (drop 8 (put_entry e @ bs)) = put_be 4 (word_of_int (pe_uncSize e) :: u32)"
    "take 8 (drop 12 (put_entry e @ bs)) = put_be 8 (word_of_int (pe_stoOffset e) :: u64)"
    "take 4 (drop 20 (put_entry e @ bs)) = put_be 4 (word_of_int (pe_stoSize e) :: u32)"
    "(put_entry e @ bs) ! 24 = pe_codec e"
    by (simp_all add: put_entry_def nth_append)
  then show ?thesis
    unfolding get_entry_def using assms by (simp add: sint_word_of_int_64 uint_word_of_int_32)
qed

lemma parse_put_entries:
  "entries_ok u st es \<Longrightarrow> parse_entries (length es) (concat (map put_entry es) @ bs) u st = Inr es"
proof (induction es arbitrary: u st)
  case Nil
  then show ?case by simp
next
  case (Cons e es)
  have "get_entry (put_entry e @ concat (map put_entry es) @ bs) = e" using Cons.prems by (intro get_put_entry) auto
  then show ?case using Cons by (auto simp: Let_def)
qed

lemma length_put_entries [simp]: "length (concat (map put_entry es)) = length es * packChunkEntryLen"
  by (induction es) simp_all

lemma parse_index:
  "entries_ok 0 0 es \<Longrightarrow> parsePackChunkIndex (concat (map put_entry es)) = Inr es"
  using parse_put_entries [of 0 0 es "[]"] by (simp add: parsePackChunkIndex_def packChunkEntryLen_def)

section \<open>Bodies\<close>

abbreviation slice_of :: "int \<Rightarrow> int \<Rightarrow> bytes \<Rightarrow> bytes" where
  "slice_of a b raw \<equiv> take (nat (b - a)) (drop (nat a) raw)"

lemma take_length_append: "n = length xs \<Longrightarrow> take n (xs @ ys) = xs"
  by simp

lemma tiles_mono: "tiles u ss = Some v \<Longrightarrow> u \<le> v"
  by (induction ss arbitrary: u) (auto split: if_splits, fastforce)

lemma tiles_append: "tiles u (xs @ ys) = Some v \<longleftrightarrow> (\<exists>w. tiles u xs = Some w \<and> tiles w ys = Some v)"
  by (induction xs arbitrary: u) auto

lemma chunk_bodies_append:
  "chunk_bodies cz raw algo st (xs @ ys) = Some (es, bs) \<Longrightarrow>
   \<exists>es1 bs1 es2 bs2. chunk_bodies cz raw algo st xs = Some (es1, bs1) \<and>
      chunk_bodies cz raw algo (st + int (length (concat bs1))) ys = Some (es2, bs2) \<and> es = es1 @ es2 \<and> bs = bs1 @ bs2"
proof (induction xs arbitrary: st es bs)
  case Nil
  then show ?case by auto
next
  case (Cons x xs)
  from Cons.prems obtain body cdc es' bs' where
    c: "compressChunkBody cz (take (nat (sp_size x)) (drop (nat (sp_offset x)) raw)) algo = Some (body, cdc)"
    and r: "chunk_bodies cz raw algo (st + int (length body)) (xs @ ys) = Some (es', bs')"
    and e: "es = \<lparr>pe_uncOffset = sp_offset x, pe_uncSize = sp_size x, pe_stoOffset = st, pe_stoSize = int (length body), pe_codec = cdc\<rparr> # es'"
      "bs = body # bs'"
    by (auto split: option.splits)
  from Cons.IH [OF r] obtain es1 bs1 es2 bs2 where "chunk_bodies cz raw algo (st + int (length body)) xs = Some (es1, bs1)"
    "chunk_bodies cz raw algo (st + int (length body) + int (length (concat bs1))) ys = Some (es2, bs2)" "es' = es1 @ es2" "bs' = bs1 @ bs2"
    by blast
  then show ?case using c e by (auto simp: algebra_simps)
qed

lemma body_of_chunk:
  assumes "compressChunkBody cz chunk algo = Some (body, cdc)" and "codec_ok cz"
  shows "length body \<le> length chunk" and "packAlgoFromByte cdc \<noteq> None"
    and "inflateChunkEntry cz \<lparr>pe_uncOffset = u, pe_uncSize = n, pe_stoOffset = int (length pre), pe_stoSize = int (length body),
      pe_codec = cdc\<rparr> (pre @ body @ post) (length chunk) = Inr chunk"
proof -
  obtain b where b: "compressor cz algo chunk = Some b"
    and c: "(body, cdc) = (if length chunk \<le> length b then (chunk, packCodecNone) else (b, packCodecByte algo))"
    using assms(1) by (auto simp: compressChunkBody_def split: option.splits if_splits)
  note alg = compressor_algo [OF b] and dec = decompressor_inverse [OF assms(2) b]
  have a: "packAlgoFromByte cdc = Some (if length chunk \<le> length b then CompressNone else algo)"
    using c alg packAlgo_byte [of algo] packAlgo_byte [of CompressNone]
    by (auto simp: packCodecByte_def split: if_splits)
  then show "packAlgoFromByte cdc \<noteq> None" by simp
  show "length body \<le> length chunk" using c by (auto split: if_splits)
  show "inflateChunkEntry cz \<lparr>pe_uncOffset = u, pe_uncSize = n, pe_stoOffset = int (length pre), pe_stoSize = int (length body),
      pe_codec = cdc\<rparr> (pre @ body @ post) (length chunk) = Inr chunk"
    using a c alg dec by (auto simp: inflateChunkEntry_def split: if_splits)
qed

text \<open>What the loop over the spans writes.\<close>

lemma chunk_bodies_ok:
  assumes "chunk_bodies cz raw algo st ss = Some (es, bs)" and "tiles u ss = Some v" and "codec_ok cz"
    and "0 \<le> u" and "v \<le> int (length raw)" and "int (length raw) < 2 ^ 32" and "0 \<le> st" and "st \<le> u"
  shows "entries_ok u st es \<and> length es = length ss \<and> int (length (concat bs)) \<le> v - u \<and>
    map pe_uncOffset es = map sp_offset ss \<and> map pe_uncSize es = map sp_size ss \<and>
    (es \<noteq> [] \<longrightarrow> pe_stoOffset (last es) + pe_stoSize (last es) = st + int (length (concat bs)) \<and>
       pe_uncOffset (last es) + pe_uncSize (last es) = v)"
  using assms
proof (induction ss arbitrary: st u es bs)
  case Nil
  then show ?case by auto
next
  case (Cons s ss)
  from Cons.prems(1) obtain body cdc es' bs' where
    c: "compressChunkBody cz (take (nat (sp_size s)) (drop (nat (sp_offset s)) raw)) algo = Some (body, cdc)"
    and r: "chunk_bodies cz raw algo (st + int (length body)) ss = Some (es', bs')"
    and e: "es = \<lparr>pe_uncOffset = sp_offset s, pe_uncSize = sp_size s, pe_stoOffset = st, pe_stoSize = int (length body), pe_codec = cdc\<rparr> # es'"
      "bs = body # bs'"
    by (auto split: option.splits)
  have t: "0 \<le> sp_size s" "sp_offset s = u" "tiles (u + sp_size s) ss = Some v" using Cons.prems(2) by (auto split: if_splits)
  note m = tiles_mono [OF t(3)]
  have len: "int (length body) \<le> sp_size s"
    using body_of_chunk(1) [OF c Cons.prems(3)] m Cons.prems(4,5) t(1,2) by simp
  have "0 \<le> u + sp_size s" "0 \<le> st + int (length body)" "st + int (length body) \<le> u + sp_size s"
    using Cons.prems(4,7,8) t(1) len by simp_all
  from Cons.IH [OF r t(3) Cons.prems(3) this(1) Cons.prems(5,6) this(2,3)] show ?case
    using e t len m Cons.prems(4-8) r body_of_chunk(2) [OF c Cons.prems(3)] by (cases ss) (auto simp: algebra_simps)
qed

text \<open>Decoding the entries of a run of spans fills the buffer with their part of the content.\<close>

lemma inflate_all_ok:
  assumes "chunk_bodies cz raw algo st ss = Some (es, bs)" and "tiles u ss = Some v" and "codec_ok cz"
    and "0 \<le> base" and "base \<le> u" and "v \<le> int (length raw)" and "v - base \<le> int (length out)"
    and "int (length pre) = st - storedBase"
  shows "inflate_all cz base storedBase (pre @ concat bs @ post) es out =
    Inr (take (nat (u - base)) out @ slice_of u v raw @ drop (nat (v - base)) out)"
  using assms
proof (induction ss arbitrary: st u es bs out pre)
  case Nil
  then show ?case by simp
next
  case (Cons s ss)
  from Cons.prems(1) obtain body cdc es' bs' where
    c: "compressChunkBody cz (take (nat (sp_size s)) (drop (nat (sp_offset s)) raw)) algo = Some (body, cdc)"
    and r: "chunk_bodies cz raw algo (st + int (length body)) ss = Some (es', bs')"
    and e: "es = \<lparr>pe_uncOffset = sp_offset s, pe_uncSize = sp_size s, pe_stoOffset = st, pe_stoSize = int (length body), pe_codec = cdc\<rparr> # es'"
      "bs = body # bs'"
    by (auto split: option.splits)
  have t: "0 \<le> sp_size s" "sp_offset s = u" "tiles (u + sp_size s) ss = Some v" using Cons.prems(2) by (auto split: if_splits)
  note m = tiles_mono [OF t(3)]
  let ?chunk = "take (nat (sp_size s)) (drop (nat u) raw)"
  have cl: "length ?chunk = nat (sp_size s)" using m Cons.prems(4-6) t(1) by simp
  have inf: "inflateChunkEntry cz \<lparr>pe_uncOffset = u, pe_uncSize = sp_size s, pe_stoOffset = st - storedBase, pe_stoSize = int (length body),
      pe_codec = cdc\<rparr> (pre @ body @ concat bs' @ post) (nat (sp_size s)) = Inr ?chunk"
    using body_of_chunk(3) [OF c [unfolded t(2)] Cons.prems(3), of u "sp_size s" pre "concat bs' @ post"] Cons.prems(8) cl by simp
  let ?out = "take (nat (u - base)) out @ ?chunk @ drop (nat (u - base) + length ?chunk) out"
  have lo: "length ?out = length out" using cl m t(1) Cons.prems(5,7) by simp
  have A: "inflate_all cz base storedBase ((pre @ body) @ concat bs' @ post) es' ?out =
      Inr (take (nat (u + sp_size s - base)) ?out @ slice_of (u + sp_size s) v raw @ drop (nat (v - base)) ?out)"
    using Cons.prems(3-8) t m lo by (intro Cons.IH [OF r t(3)]) simp_all
  have B: "take (nat (u + sp_size s - base)) ?out = take (nat (u - base)) out @ ?chunk"
  proof -
    have "nat (u + sp_size s - base) = length (take (nat (u - base)) out @ ?chunk)" using cl t(1) m Cons.prems(5,7) by simp
    from take_length_append [OF this, of "drop (nat (u - base) + length ?chunk) out"] show ?thesis by (simp only: append_assoc)
  qed
  have C: "drop (nat (v - base)) ?out = drop (nat (v - base)) out"
    using cl t(1) m Cons.prems(5,7) by (simp add: add.commute)
  have D: "?chunk @ slice_of (u + sp_size s) v raw = slice_of u v raw"
  proof -
    have "nat (v - u) = nat (sp_size s) + nat (v - (u + sp_size s))" "nat (u + sp_size s) = nat (sp_size s) + nat u"
      using t(1) m Cons.prems(4,5) by simp_all
    then show ?thesis by (simp add: take_add)
  qed
  have res: "inflate_all cz base storedBase (pre @ body @ concat bs' @ post) es' ?out =
      Inr (take (nat (u - base)) out @ slice_of u v raw @ drop (nat (v - base)) out)"
    using A unfolding B C D [symmetric] by simp
  have "\<not> (u - base < 0 \<or> int (length out) < u - base + sp_size s)" using Cons.prems(5,7) m by simp
  then show ?case using inf res e t(2) by (simp add: Let_def del: take_append drop_append)
qed

section \<open>Per-chunk framed packs\<close>

definition chunked_header :: "CompressionAlgo \<Rightarrow> nat \<Rightarrow> bytes" where
  "chunked_header algo n = packMagic @ [packCodecChunked, packCodecByte algo] @ put_be 4 (word_of_nat (n * packChunkEntryLen) :: u32)"

lemma length_chunked_header [simp]: "length (chunked_header algo n) = packChunkedHeaderLen"
  by (simp add: chunked_header_def packChunkedHeaderLen_def packHeaderLen_def)

lemma chunked_stored:
  assumes "compressPackBlobChunked cz raw spans algo = Inr stored" and "algo \<in> {CompressGzip, CompressZstd}"
  obtains es bs v where "chunk_bodies cz raw algo 0 spans = Some (es, bs)" and "tiles 0 spans = Some v" and "v = int (length raw)"
    and "stored = chunked_header algo (length es) @ concat (map put_entry es) @ concat bs"
  using assms by (cases spans)
    (auto simp: compressPackBlobChunked_def validatePackSpans_def chunked_header_def split: if_splits option.splits)

lemma detect_chunked:
  assumes "int n * int packChunkEntryLen < 2 ^ 32" and "algo \<in> {CompressGzip, CompressZstd}"
  shows "detectPackFraming (chunked_header algo n @ rest) = Inr \<lparr>pf_algo = packAlgoChunked, pf_contentBase = 0, pf_chunkedCodec = algo,
    pf_indexLen = int (n * packChunkEntryLen), pf_bodyBase = int (packChunkedHeaderLen + n * packChunkEntryLen), pf_chunked = []\<rparr>"
proof -
  let ?p = "chunked_header algo n @ rest"
  have h: "has_header ?p" "?p ! length packMagic = packCodecChunked" "?p ! packHeaderLen = packCodecByte algo"
    "\<not> length ?p < packChunkedHeaderLen"
    "take 4 (drop (packHeaderLen + 1) ?p) = put_be 4 (word_of_nat (n * packChunkEntryLen) :: u32)"
    by (simp_all add: chunked_header_def has_header_def packHeaderLen_def packChunkedHeaderLen_def nth_append)
  have u: "uint (word_of_nat (n * packChunkEntryLen) :: u32) = int (n * packChunkEntryLen)"
    using assms(1) uint_word_of_int_32 [of "int n * int packChunkEntryLen"] by simp
  have a: "packAlgoFromByte (packCodecByte algo) = Some algo" using packAlgo_byte [of algo] assms(2) by auto
  show ?thesis unfolding detectPackFraming_def Let_def h a get_put_be_u32 u using h(1) by (simp add: h(4) del: length_append)
qed

lemma decompress_compressChunked:
  assumes ok: "codec_ok cz" and st: "compressPackBlobChunked cz raw spans algo = Inr stored" and al: "algo \<in> {CompressGzip, CompressZstd}"
    and len: "int (length raw) < 2 ^ 32" "int (length spans) * int packChunkEntryLen < 2 ^ 32"
  shows "decompressPackBlob cz stored = Inr raw"
proof -
  obtain es bs v where cb: "chunk_bodies cz raw algo 0 spans = Some (es, bs)" and t: "tiles 0 spans = Some v" and v: "v = int (length raw)"
    and s: "stored = chunked_header algo (length es) @ concat (map put_entry es) @ concat bs"
    using chunked_stored [OF st al] by blast
  note o' = chunk_bodies_ok [OF cb t ok order_refl _ len(1) order_refl order_refl]
  have e: "entries_ok 0 0 es" "length es = length spans" "es \<noteq> [] \<longrightarrow> pe_uncOffset (last es) + pe_uncSize (last es) = v"
    using o' v by simp_all
  define bb where "bb = packChunkedHeaderLen + length es * packChunkEntryLen"
  have det: "detectPackFraming stored = Inr \<lparr>pf_algo = packAlgoChunked, pf_contentBase = 0, pf_chunkedCodec = algo,
      pf_indexLen = int (length es * packChunkEntryLen), pf_bodyBase = int bb, pf_chunked = []\<rparr>"
    unfolding s bb_def by (rule detect_chunked) (use len(2) e(2) al in simp_all)
  have idx: "drop packChunkedHeaderLen (take bb stored) = concat (map put_entry es)" "drop bb stored = concat bs" "bb \<le> length stored"
    by (simp_all add: s bb_def)
  have dec: "decompressChunkedPackBlob cz stored = (if es = [] then Inr [] else inflate_all cz 0 0 (concat bs) es
      (replicate (nat (pe_uncOffset (last es) + pe_uncSize (last es))) 0))"
    using det idx parse_index [OF e(1)] by (simp add: decompressChunkedPackBlob_def)
  have "decompressChunkedPackBlob cz stored = Inr raw"
  proof (cases "es = []")
    case True
    then have "raw = []" using cb t v by (cases spans) (auto split: option.splits)
    then show ?thesis using True dec by simp
  next
    case False
    have "inflate_all cz 0 0 ([] @ concat bs @ []) es (replicate (nat v) 0) =
        Inr (take (nat (0 - 0)) (replicate (nat v) 0) @ slice_of 0 v raw @ drop (nat (v - 0)) (replicate (nat v) 0))"
      by (rule inflate_all_ok [OF cb t ok]) (simp_all add: v)
    then show ?thesis using False dec e(3) v by simp
  qed
  moreover have "has_header stored" "stored ! length packMagic = packCodecChunked"
    by (simp_all add: s chunked_header_def has_header_def packHeaderLen_def nth_append)
  ultimately show ?thesis by (simp add: decompressPackBlob_def)
qed

section \<open>Ranged reads of a per-chunk framed pack\<close>

lemma tiles_offsets:
  "tiles u ss = Some v \<Longrightarrow> \<forall>s \<in> set ss. 0 < sp_size s \<Longrightarrow> s \<in> set ss \<Longrightarrow> u \<le> sp_offset s \<and> sp_offset s < v"
proof (induction ss arbitrary: u)
  case (Cons x ss)
  then have "tiles (u + sp_size x) ss = Some v" "sp_offset x = u" "0 < sp_size x" by (auto split: if_splits)
  with Cons tiles_mono [OF this(1)] show ?case by fastforce
qed simp

lemma takeWhile_mid:
  assumes "\<forall>x \<in> set ys. P x" and "zs \<noteq> [] \<longrightarrow> \<not> P (hd zs)"
  shows "takeWhile P (ys @ zs) = ys"
  using assms by (cases zs) (auto simp: takeWhile_append)

lemma map_eq_all:
  assumes "map f es = map g ss" and "\<forall>s \<in> set ss. P (g s)"
  shows "\<forall>e \<in> set es. P (f e)"
proof -
  have "f ` set es = g ` set ss" using assms(1) by (metis set_map)
  then show ?thesis using assms(2) by force
qed

lemma chunked_window:
  assumes ok: "codec_ok cz" and cb: "chunk_bodies cz raw algo 0 (xs @ ys @ zs) = Some (es, bs)"
    and t: "tiles 0 (xs @ ys @ zs) = Some v" and v: "v = int (length raw)" and len: "int (length raw) < 2 ^ 32"
    and pos: "\<forall>s \<in> set (xs @ ys @ zs). 0 < sp_size s"
    and tx: "tiles 0 xs = Some a" and ty: "tiles a ys = Some b" and ne: "ys \<noteq> []" and f: "pf_chunked f = es"
  shows "\<exists>so sl first fin. chunkedStoredSpan f a b = Inr (int so, int sl, first, fin) \<and> so + sl \<le> length (concat bs) \<and>
    materializeChunkedWindow cz es first fin (take sl (drop so (concat bs))) (int so) = Inr (slice_of a b raw)"
proof -
  from chunk_bodies_append [OF cb] obtain ex bx er br where cx: "chunk_bodies cz raw algo 0 xs = Some (ex, bx)"
    and cr: "chunk_bodies cz raw algo (int (length (concat bx))) (ys @ zs) = Some (er, br)" and er: "es = ex @ er" "bs = bx @ br" by auto
  from chunk_bodies_append [OF cr] obtain ey by' ez bz where cy: "chunk_bodies cz raw algo (int (length (concat bx))) ys = Some (ey, by')"
    and cz: "chunk_bodies cz raw algo (int (length (concat bx)) + int (length (concat by'))) zs = Some (ez, bz)"
    and ey: "er = ey @ ez" "br = by' @ bz" by auto
  have tz: "tiles b zs = Some v" using t tx ty by (auto simp: tiles_append)
  note mx = tiles_mono [OF tx] and my = tiles_mono [OF ty] and mz = tiles_mono [OF tz]
  note ox = chunk_bodies_ok [OF cx tx ok order_refl _ len order_refl order_refl]
  have lx: "int (length (concat bx)) \<le> a" using ox v my mz by simp
  note oy = chunk_bodies_ok [OF cy ty ok mx _ len _ lx]
  note oz = chunk_bodies_ok [OF cz tz ok _ _ len]
  have lens: "length ex = length xs" "length ey = length ys" "map pe_uncOffset ex = map sp_offset xs" "map pe_uncOffset ey = map sp_offset ys"
    "int (length (concat by')) \<le> b - a"
    "pe_stoOffset (last ey) + pe_stoSize (last ey) = int (length (concat bx)) + int (length (concat by'))"
    "pe_uncOffset (last ey) + pe_uncSize (last ey) = b" "entries_ok a (int (length (concat bx))) ey"
    using ox oy v my mz ne by auto
  have mz': "map pe_uncOffset ez = map sp_offset zs" using oz v mx my lx lens(5) by simp
  have ey0: "ey \<noteq> []" "pe_uncOffset (hd ey) = a" "pe_stoOffset (hd ey) = int (length (concat bx))"
    using lens(2,8) ne by (cases ey; auto)+
  have xlt: "\<forall>e \<in> set ex. pe_uncOffset e < a" "\<forall>e \<in> set ey. pe_uncOffset e < b" "ez \<noteq> [] \<longrightarrow> \<not> pe_uncOffset (hd ez) < b"
  proof -
    show "\<forall>e \<in> set ex. pe_uncOffset e < a"
      by (rule map_eq_all [OF lens(3)]) (use tiles_offsets [OF tx] pos in auto)
    show "\<forall>e \<in> set ey. pe_uncOffset e < b"
      by (rule map_eq_all [OF lens(4)]) (use tiles_offsets [OF ty] pos in auto)
    have "\<forall>e \<in> set ez. \<not> pe_uncOffset e < b"
      by (rule map_eq_all [OF mz']) (use tiles_offsets [OF tz] pos in force)
    then show "ez \<noteq> [] \<longrightarrow> \<not> pe_uncOffset (hd ez) < b" by simp
  qed
  have first: "takeWhile (\<lambda>e. pe_uncOffset e \<noteq> a) es = ex"
    unfolding er ey by (rule takeWhile_mid) (use xlt ey0 in auto)
  have fin: "takeWhile (\<lambda>e. pe_uncOffset e < b) (drop (length ex) es) = ey"
    unfolding er ey by simp (rule takeWhile_mid, use xlt in auto)
  have nth: "es ! length ex = hd ey" "es ! (length ex + length ey - 1) = last ey"
    using ey0(1) by (cases ey rule: rev_cases; auto simp: er ey nth_append hd_conv_nth)+
  have "chunkedStoredSpan f a b = Inr (int (length (concat bx)), int (length (concat by')), length ex, length ex + length ey)"
    unfolding chunkedStoredSpan_def Let_def f first fin nth using ey0 ne lens by (simp add: er ey)
  moreover have "materializeChunkedWindow cz es (length ex) (length ex + length ey) (take (length (concat by')) (drop (length (concat bx)) (concat bs)))
      (int (length (concat bx))) = Inr (slice_of a b raw)"
  proof -
    have "inflate_all cz a (int (length (concat bx))) ([] @ concat by' @ []) ey (replicate (nat (b - a)) 0) =
        Inr (take (nat (a - a)) (replicate (nat (b - a)) 0) @ slice_of a b raw @ drop (nat (b - a)) (replicate (nat (b - a)) 0))"
      by (rule inflate_all_ok [OF cy ty ok]) (use mx my mz v in simp_all)
    then show ?thesis
      unfolding materializeChunkedWindow_def Let_def nth using ey0 lens(7) by (simp add: er ey)
  qed
  moreover have "length (concat bx) + length (concat by') \<le> length (concat bs)" by (simp add: er ey)
  ultimately show ?thesis by blast
qed

end
