(* ===== verification/Snapshot_Store.thy ===== *)
theory Snapshot_Store
  imports Pack_Format "HOL-Library.Char_ord" "HOL-Library.List_Lexorder"
begin

text \<open>
  The interface \<open>SnapshotStore\<close> of casstore/snapshot/store.go with its keys, metadata and version strings, and the
  contract of it that the chunked store relies on, as the locale \<open>snapshot_store\<close>.
\<close>

section \<open>Definitions\<close>

record SnapshotKey =
  k_Tenant :: string
  k_Workspace :: string
  k_User :: string
  k_OwnerKey :: string

text \<open>Times are integers; the zero time is 0.\<close>

record SnapshotMetadata =
  m_Key :: SnapshotKey
  m_Version :: string
  m_CreatedAt :: int
  m_SizeBytes :: int
  m_Runtime :: string
  m_Format :: string
  m_Tags :: "string \<rightharpoonup> string"

text \<open>
  A store over states \<open>'u\<close> that holds blobs of type \<open>'p\<close>.  \<open>Walk\<close> gives what its callback sees; a callback that
  stops the walk is a fold over the list.
\<close>

record ('p, 'u) SnapshotStore =
  ss_Put :: "SnapshotKey \<Rightarrow> SnapshotMetadata \<Rightarrow> 'p \<Rightarrow> 'u \<Rightarrow> (serr + SnapshotMetadata) \<times> 'u"
  ss_Get :: "SnapshotKey \<Rightarrow> string \<Rightarrow> 'u \<Rightarrow> (serr + 'p \<times> SnapshotMetadata) \<times> 'u"
  ss_GetLatest :: "SnapshotKey \<Rightarrow> 'u \<Rightarrow> (serr + 'p \<times> SnapshotMetadata) \<times> 'u"
  ss_GetLatestMetadata :: "SnapshotKey \<Rightarrow> 'u \<Rightarrow> (serr + SnapshotMetadata) \<times> 'u"
  ss_List :: "SnapshotKey \<Rightarrow> 'u \<Rightarrow> (serr + SnapshotMetadata list) \<times> 'u"
  ss_Delete :: "SnapshotKey \<Rightarrow> string \<Rightarrow> 'u \<Rightarrow> serr option \<times> 'u"
  ss_Walk :: "'u \<Rightarrow> (serr + (SnapshotKey \<times> string \<times> SnapshotMetadata) list) \<times> 'u"

subsection \<open>Version strings\<close>

definition hex_digit :: "nat \<Rightarrow> char" where
  "hex_digit n = ''0123456789abcdef'' ! n"

definition hexenc :: "bytes \<Rightarrow> string" where
  "hexenc bs = concat (map (\<lambda>b. [hex_digit (unat b div 16), hex_digit (unat b mod 16)]) bs)"

definition digits_be :: "nat \<Rightarrow> nat \<Rightarrow> string" where
  "digits_be k n = map (\<lambda>i. hex_digit (n div 10 ^ (k - 1 - i) mod 10)) [0..<k]"

text \<open>\<open>time.RFC3339Nano\<close> in UTC: the fraction of a second without trailing zeros, and none when it is zero.\<close>

definition rfc3339_frac :: "nat \<Rightarrow> string" where
  "rfc3339_frac ns = (let ds = rev (dropWhile (\<lambda>c. c = CHR ''0'') (rev (digits_be 9 ns))) in if ds = [] then [] else CHR ''.'' # ds)"

text \<open>The date and time to the second is a string of fixed width; nanoseconds and random bytes follow.\<close>

definition NewVersion :: "string \<Rightarrow> nat \<Rightarrow> bytes \<Rightarrow> string" where
  "NewVersion sec ns rnd = sec @ rfc3339_frac ns @ ''Z'' @ ''-'' @ hexenc rnd"

section \<open>The contract\<close>

text \<open>
  What the chunked store relies on, for keys of a set \<open>K\<close> that the store tells apart: a put under an unused key
  makes its blob the latest, one that fails leaves nothing or that blob, and other keys are left alone.
\<close>

locale snapshot_store =
  fixes U :: "('p, 'u) SnapshotStore" and inv :: "'u \<Rightarrow> bool" and K :: "SnapshotKey set"
    and latest :: "'u \<Rightarrow> SnapshotKey \<Rightarrow> 'p option" and unused :: "'u \<Rightarrow> SnapshotKey \<Rightarrow> bool"
  assumes put_ok: "inv u \<Longrightarrow> k \<in> K \<Longrightarrow> unused u k \<Longrightarrow> ss_Put U k m p u = (Inr m', u') \<Longrightarrow> latest u' k = Some p"
    and put_err: "inv u \<Longrightarrow> k \<in> K \<Longrightarrow> unused u k \<Longrightarrow> ss_Put U k m p u = (Inl e, u') \<Longrightarrow> latest u' k = None \<or> latest u' k = Some p"
    and put_frame: "inv u \<Longrightarrow> k \<in> K \<Longrightarrow> ss_Put U k m p u = (r, u') \<Longrightarrow>
      inv u' \<and> (\<forall>j \<in> K. j \<noteq> k \<longrightarrow> latest u' j = latest u j \<and> unused u' j = unused u j)"
    and latest_ok: "inv u \<Longrightarrow> k \<in> K \<Longrightarrow> ss_GetLatest U k u = (Inr (p, m), u') \<Longrightarrow> latest u k = Some p"
    and latest_frame: "inv u \<Longrightarrow> k \<in> K \<Longrightarrow> ss_GetLatest U k u = (q, u') \<Longrightarrow>
      inv u' \<and> (\<forall>j \<in> K. latest u' j = latest u j \<and> unused u' j = unused u j)"
    and unused_none: "inv u \<Longrightarrow> k \<in> K \<Longrightarrow> unused u k \<Longrightarrow> latest u k = None"
begin

lemma put_latest:
  assumes "inv u" "k \<in> K" "unused u k" "ss_Put U k m p u = (Inr m', u')" "j \<in> K"
  shows "latest u' j = ((latest u)(k \<mapsto> p)) j"
  using put_ok [OF assms(1-4)] put_frame [OF assms(1,2,4)] assms(5) by auto

end

section \<open>Version order\<close>

text \<open>
  The order of version strings is not that of time: a fraction that lost its trailing zeros ends in the letter Z,
  which sorts behind every digit.
\<close>

lemma append_less_tail: "s @ a < s @ b \<longleftrightarrow> a < (b :: 'a::linorder list)"
  by (induction s) simp_all

lemma NewVersion_misordered:
  "NewVersion s 100000001 r < NewVersion s 100000000 r'"
proof -
  have "rfc3339_frac 100000000 = ''.1''" "rfc3339_frac 100000001 = ''.100000001''"
    by (simp_all add: rfc3339_frac_def digits_be_def hex_digit_def upt_rec Let_def)
  moreover have "CHR ''0'' < CHR ''Z''" by (simp add: less_char_def)
  ultimately show ?thesis by (simp add: NewVersion_def append_less_tail)
qed

end
