(* ===== verification/Dedup_Index.thy ===== *)
theory Dedup_Index
  imports Snapshot_Store "HOL-Library.AList"
begin

text \<open>
  The in-memory dedup index: casstore/snapshot/dedupindex.go (\<open>MemoryDedupStore\<close>, the sessions of \<open>GlobalIndex\<close> and
  of \<open>PriorManifestIndex\<close>) and its association and lifecycle half in casstore/snapshot/packassoc.go.

  Maps are association lists, so that iterating over one is a function; Go iterates in an arbitrary order.  A domain
  without an entry behaves like one with an empty entry, in the code and here.
\<close>

section \<open>Definitions\<close>

record PackRef =
  pr_PackHash :: string
  pr_Offset :: int
  pr_Size :: int

record ChunkLocation =
  cl_ChunkHash :: string
  cl_PackRef :: PackRef

datatype PackState = PackStored | PackObliterating | PackObliterated

record PackAssociation =
  as_PackHash :: string
  as_Context :: string

record memAssoc =
  ma_byPack :: "(string \<times> string list) list"
  ma_byContext :: "(string \<times> string list) list"
  ma_state :: "(string \<times> PackState) list"
  ma_backfilled :: bool

record MemoryDedupStore =
  md_byDom :: "string \<Rightarrow> (string \<times> PackRef) list"
  md_assoc :: "string \<Rightarrow> memAssoc"

definition empty_assoc :: memAssoc where
  "empty_assoc = \<lparr>ma_byPack = [], ma_byContext = [], ma_state = [], ma_backfilled = False\<rparr>"

definition NewMemoryDedupStore :: MemoryDedupStore where
  "NewMemoryDedupStore = \<lparr>md_byDom = (\<lambda>_. []), md_assoc = (\<lambda>_. empty_assoc)\<rparr>"

text \<open>A set-valued map: an absent key holds the empty set.\<close>

definition members :: "(string \<times> string list) list \<Rightarrow> string \<Rightarrow> string list" where
  "members m k = (case map_of m k of None \<Rightarrow> [] | Some xs \<Rightarrow> xs)"

definition add_member :: "string \<Rightarrow> string \<Rightarrow> (string \<times> string list) list \<Rightarrow> (string \<times> string list) list" where
  "add_member k x m = AList.update k (List.insert x (members m k)) m"

definition set_assoc :: "string \<Rightarrow> memAssoc \<Rightarrow> MemoryDedupStore \<Rightarrow> MemoryDedupStore" where
  "set_assoc domain a D = D\<lparr>md_assoc := (md_assoc D)(domain := a)\<rparr>"

subsection \<open>Chunk locations\<close>

definition stateOf :: "memAssoc \<Rightarrow> string \<Rightarrow> PackState" where
  "stateOf a packHash = (case map_of (ma_state a) packHash of Some s \<Rightarrow> s | None \<Rightarrow> PackStored)"

definition packUnavailable :: "string \<Rightarrow> string \<Rightarrow> MemoryDedupStore \<Rightarrow> bool" where
  "packUnavailable domain packHash D \<longleftrightarrow> stateOf (md_assoc D domain) packHash \<noteq> PackStored"

definition Dedup_Lookup :: "string \<Rightarrow> string \<Rightarrow> MemoryDedupStore \<Rightarrow> PackRef option" where
  "Dedup_Lookup domain chunkHash D = (case map_of (md_byDom D domain) chunkHash of
      None \<Rightarrow> None
    | Some ref \<Rightarrow> if packUnavailable domain (pr_PackHash ref) D then None else Some ref)"

definition LookupBatch :: "string \<Rightarrow> string list \<Rightarrow> MemoryDedupStore \<Rightarrow> (string \<times> PackRef) list" where
  "LookupBatch domain hashes D =
    filter (\<lambda>(h, ref). \<not> packUnavailable domain (pr_PackHash ref) D)
      (List.map_filter (\<lambda>h. map_option (Pair h) (map_of (md_byDom D domain) h)) (remdups hashes))"

definition record_one :: "ChunkLocation \<Rightarrow> (string \<times> PackRef) list \<Rightarrow> (string \<times> PackRef) list" where
  "record_one loc dm =
    (if map_of dm (cl_ChunkHash loc) = None then (cl_ChunkHash loc, cl_PackRef loc) # dm else dm)"

definition Dedup_Record :: "string \<Rightarrow> ChunkLocation list \<Rightarrow> MemoryDedupStore \<Rightarrow> MemoryDedupStore" where
  "Dedup_Record domain locs D = D\<lparr>md_byDom := (md_byDom D)(domain := fold record_one locs (md_byDom D domain))\<rparr>"

definition PurgePacks :: "string \<Rightarrow> string list \<Rightarrow> MemoryDedupStore \<Rightarrow> MemoryDedupStore" where
  "PurgePacks domain packHashes D =
    (if packHashes = [] then D
     else D\<lparr>md_byDom := (md_byDom D)(domain := filter (\<lambda>(h, ref). pr_PackHash ref \<notin> set packHashes) (md_byDom D domain))\<rparr>)"

definition Dedup_Len :: "string \<Rightarrow> MemoryDedupStore \<Rightarrow> nat" where
  "Dedup_Len domain D = length (md_byDom D domain)"

definition Repoint :: "string \<Rightarrow> ChunkLocation list \<Rightarrow> string list \<Rightarrow> MemoryDedupStore \<Rightarrow> MemoryDedupStore" where
  "Repoint domain newLocs deadPacks D =
    (if deadPacks = [] then D
     else let D1 = PurgePacks domain deadPacks D in if newLocs = [] then D1 else Dedup_Record domain newLocs D1)"

subsection \<open>Associations and lifecycle\<close>

definition add_assoc :: "PackAssociation \<Rightarrow> memAssoc \<Rightarrow> memAssoc" where
  "add_assoc as a = a\<lparr>ma_byPack := add_member (as_PackHash as) (as_Context as) (ma_byPack a),
     ma_byContext := add_member (as_Context as) (as_PackHash as) (ma_byContext a)\<rparr>"

definition Associate :: "string \<Rightarrow> PackAssociation list \<Rightarrow> MemoryDedupStore \<Rightarrow> serr option \<times> MemoryDedupStore" where
  "Associate domain assocs D =
    (if assocs = [] then (None, D)
     else let a = md_assoc D domain
       in if list_ex (\<lambda>as. stateOf a (as_PackHash as) \<noteq> PackStored) assocs then (Some ErrPackObliterating, D)
          else (None, set_assoc domain (fold add_assoc assocs a) D))"

definition drop_one :: "string \<Rightarrow> string \<Rightarrow> (string \<times> string list) list \<Rightarrow> (string \<times> string list) list" where
  "drop_one packContext packHash m = (case map_of m packHash of
      None \<Rightarrow> m
    | Some ctxs \<Rightarrow> (let rest = removeAll packContext ctxs in if rest = [] then AList.delete packHash m else AList.update packHash rest m))"

definition DropContext :: "string \<Rightarrow> string \<Rightarrow> MemoryDedupStore \<Rightarrow> string list \<times> MemoryDedupStore" where
  "DropContext domain packContext D =
    (let a = md_assoc D domain; packs = members (ma_byContext a) packContext
     in if packs = [] then ([], D)
        else (packs, set_assoc domain (a\<lparr>ma_byPack := fold (drop_one packContext) packs (ma_byPack a),
          ma_byContext := AList.delete packContext (ma_byContext a)\<rparr>) D))"

definition HasAssociations :: "string \<Rightarrow> string list \<Rightarrow> MemoryDedupStore \<Rightarrow> (string \<times> bool) list" where
  "HasAssociations domain packHashes D = map (\<lambda>p. (p, members (ma_byPack (md_assoc D domain)) p \<noteq> [])) packHashes"

definition WalkLivePacks :: "string \<Rightarrow> MemoryDedupStore \<Rightarrow> string list" where
  "WalkLivePacks domain D = map fst (filter (\<lambda>(p, ctxs). ctxs \<noteq> []) (ma_byPack (md_assoc D domain)))"

definition set_state :: "string \<Rightarrow> string \<Rightarrow> PackState \<Rightarrow> MemoryDedupStore \<Rightarrow> MemoryDedupStore" where
  "set_state domain packHash st D =
    set_assoc domain ((md_assoc D domain)\<lparr>ma_state := AList.update packHash st (ma_state (md_assoc D domain))\<rparr>) D"

definition MarkObliterating :: "string \<Rightarrow> string \<Rightarrow> MemoryDedupStore \<Rightarrow> bool \<times> MemoryDedupStore" where
  "MarkObliterating domain packHash D =
    (if stateOf (md_assoc D domain) packHash \<noteq> PackStored then (False, D) else (True, set_state domain packHash PackObliterating D))"

definition ReleaseMark :: "string \<Rightarrow> string \<Rightarrow> MemoryDedupStore \<Rightarrow> MemoryDedupStore" where
  "ReleaseMark domain packHash D =
    (if stateOf (md_assoc D domain) packHash = PackObliterating then set_state domain packHash PackStored D else D)"

definition CommitObliterated :: "string \<Rightarrow> string \<Rightarrow> MemoryDedupStore \<Rightarrow> bool \<times> MemoryDedupStore" where
  "CommitObliterated domain packHash D =
    (if stateOf (md_assoc D domain) packHash \<noteq> PackObliterating then (False, D)
     else if members (ma_byPack (md_assoc D domain)) packHash \<noteq> [] then (False, D)
     else (True, set_state domain packHash PackObliterated D))"

definition MarkBackfilled :: "string \<Rightarrow> MemoryDedupStore \<Rightarrow> MemoryDedupStore" where
  "MarkBackfilled domain D = set_assoc domain ((md_assoc D domain)\<lparr>ma_backfilled := True\<rparr>) D"

definition IsBackfilled :: "string \<Rightarrow> MemoryDedupStore \<Rightarrow> bool" where
  "IsBackfilled domain D = ma_backfilled (md_assoc D domain)"

section \<open>Lookups\<close>

text \<open>The first recorded location of a chunk stays; packs that are being reclaimed are never handed out.\<close>

lemma record_one_map:
  "map_of (record_one loc dm) h =
    (case map_of dm h of Some r \<Rightarrow> Some r | None \<Rightarrow> if h = cl_ChunkHash loc then Some (cl_PackRef loc) else None)"
  by (auto simp: record_one_def split: option.splits)

lemma fold_record_map:
  "map_of (fold record_one locs dm) h =
    (case map_of dm h of Some r \<Rightarrow> Some r
     | None \<Rightarrow> map_option cl_PackRef (List.find (\<lambda>l. cl_ChunkHash l = h) locs))"
  by (induction locs arbitrary: dm) (auto simp: record_one_map split: option.splits)

lemma map_of_filter_ref:
  assumes "distinct (map fst m)"
  shows "map_of (filter (\<lambda>(h, r). P r) m) h = (case map_of m h of Some r \<Rightarrow> if P r then Some r else None | None \<Rightarrow> None)"
  using assms
proof (induction m)
  case (Cons a m)
  obtain k r where a: "a = (k, r)" by (rule prod.exhaust)
  then have "map_of m k = None" using Cons.prems by (simp add: map_of_eq_None_iff)
  then show ?case using Cons a by auto
qed simp

lemma fold_record_distinct: "distinct (map fst dm) \<Longrightarrow> distinct (map fst (fold record_one locs dm))"
  by (induction locs arbitrary: dm) (auto simp: record_one_def map_of_eq_None_iff)

lemma Dedup_Lookup_available: "Dedup_Lookup domain h D = Some r \<Longrightarrow> stateOf (md_assoc D domain) (pr_PackHash r) = PackStored"
  by (auto simp: Dedup_Lookup_def packUnavailable_def split: option.splits if_splits)

lemma stateOf_set_state:
  "stateOf (md_assoc (set_state domain p st D) d) q = (if d = domain \<and> q = p then st else stateOf (md_assoc D d) q)"
  by (simp add: set_state_def set_assoc_def stateOf_def update_conv')

lemma byPack_set_state: "ma_byPack (md_assoc (set_state domain p st D) d) = ma_byPack (md_assoc D d)"
  "ma_byContext (md_assoc (set_state domain p st D) d) = ma_byContext (md_assoc D d)"
  "md_byDom (set_state domain p st D) = md_byDom D"
  by (simp_all add: set_state_def set_assoc_def)

end
