(* ===== verification/Blob_Store.thy ===== *)
theory Blob_Store
  imports Pack_Format
begin

text \<open>
  Blob storage: the interface \<open>Storage\<close> that casstore/blobstore re-exports from kopia, as a record of functions over
  the state of a backend, with its documented behaviour as the predicate \<open>storage_ok\<close>, and the write-if-absent of
  casstore/blobstore/cas.go on top of it.
\<close>

section \<open>Definitions\<close>

datatype berr = ErrBlobNotFound | ErrBlobAlreadyExists | ErrUnsupportedPutBlobOption | ErrBlobOther

record blob_md =
  bm_ID :: string
  bm_Length :: int
  bm_Timestamp :: int

text \<open>A negative length of \<open>GetBlob\<close> asks for everything behind the offset.\<close>

record 'b Storage =
  bs_GetBlob :: "string \<Rightarrow> int \<Rightarrow> int \<Rightarrow> 'b \<Rightarrow> (berr + bytes) \<times> 'b"
  bs_GetMetadata :: "string \<Rightarrow> 'b \<Rightarrow> (berr + blob_md) \<times> 'b"
  bs_PutBlob :: "string \<Rightarrow> bytes \<Rightarrow> bool \<Rightarrow> 'b \<Rightarrow> berr option \<times> 'b"
  bs_DeleteBlob :: "string \<Rightarrow> 'b \<Rightarrow> berr option \<times> 'b"
  bs_ListBlobs :: "string \<Rightarrow> 'b \<Rightarrow> (berr + blob_md list) \<times> 'b"

text \<open>
  Documented behaviour: reads return the window of the stored bytes and change nothing; a successful put stores
  the blob, a put that must not recreate fails on an existing one, and a failed put has stored the blob or not.
\<close>

definition get_law :: "'b Storage \<Rightarrow> ('b \<Rightarrow> string \<Rightarrow> bytes option) \<Rightarrow> string \<Rightarrow> int \<Rightarrow> int \<Rightarrow> 'b \<Rightarrow> bool" where
  "get_law St v i off n b =
    (case bs_GetBlob St i off n b of (r, b') \<Rightarrow> v b' = v b \<and>
      (case r of Inl e \<Rightarrow> e = ErrBlobNotFound \<longrightarrow> v b i = None
       | Inr bs \<Rightarrow> 0 \<le> off \<longrightarrow> (\<exists>data. v b i = Some data \<and>
           (if n < 0 then bs = drop (nat off) data else bs = take (nat n) (drop (nat off) data) \<and> int (length bs) = n))))"

definition meta_law :: "'b Storage \<Rightarrow> ('b \<Rightarrow> string \<Rightarrow> bytes option) \<Rightarrow> string \<Rightarrow> 'b \<Rightarrow> bool" where
  "meta_law St v i b =
    (case bs_GetMetadata St i b of (r, b') \<Rightarrow> v b' = v b \<and>
      (case r of Inl e \<Rightarrow> e = ErrBlobNotFound \<longrightarrow> v b i = None | Inr _ \<Rightarrow> v b i \<noteq> None))"

definition put_law :: "'b Storage \<Rightarrow> ('b \<Rightarrow> string \<Rightarrow> bytes option) \<Rightarrow> string \<Rightarrow> bytes \<Rightarrow> bool \<Rightarrow> 'b \<Rightarrow> bool" where
  "put_law St v i data dnr b =
    (case bs_PutBlob St i data dnr b of
       (None, b') \<Rightarrow> v b' = (v b)(i \<mapsto> data) \<and> (dnr \<longrightarrow> v b i = None)
     | (Some e, b') \<Rightarrow> (e = ErrBlobAlreadyExists \<longrightarrow> v b' = v b \<and> v b i \<noteq> None) \<and>
         (e = ErrUnsupportedPutBlobOption \<longrightarrow> v b' = v b) \<and>
         (v b' = v b \<or> v b' = (v b)(i \<mapsto> data) \<and> (dnr \<longrightarrow> v b i = None)))"

definition delete_law :: "'b Storage \<Rightarrow> ('b \<Rightarrow> string \<Rightarrow> bytes option) \<Rightarrow> string \<Rightarrow> 'b \<Rightarrow> bool" where
  "delete_law St v i b =
    (case bs_DeleteBlob St i b of
       (None, b') \<Rightarrow> v b' = (v b)(i := None)
     | (Some e, b') \<Rightarrow> v b' = v b \<or> v b' = (v b)(i := None))"

definition storage_ok :: "'b Storage \<Rightarrow> ('b \<Rightarrow> string \<Rightarrow> bytes option) \<Rightarrow> bool" where
  "storage_ok St v \<longleftrightarrow> (\<forall>i off n b. get_law St v i off n b) \<and> (\<forall>i b. meta_law St v i b) \<and>
     (\<forall>i data dnr b. put_law St v i data dnr b) \<and> (\<forall>i b. delete_law St v i b)"

text \<open>A backend whose reads of existing blobs succeed.\<close>

definition reads_ok :: "'b Storage \<Rightarrow> ('b \<Rightarrow> string \<Rightarrow> bytes option) \<Rightarrow> bool" where
  "reads_ok St v \<longleftrightarrow> (\<forall>i off n b data. v b i = Some data \<and> 0 \<le> off \<and> off \<le> int (length data) \<and> off + n \<le> int (length data) \<longrightarrow>
     (\<exists>bs b'. bs_GetBlob St i off n b = (Inr bs, b')))"

definition PutIfAbsent :: "'b Storage \<Rightarrow> string \<Rightarrow> bytes \<Rightarrow> 'b \<Rightarrow> berr option \<times> 'b" where
  "PutIfAbsent St i data b =
    (case bs_PutBlob St i data True b of
       (None, b1) \<Rightarrow> (None, b1)
     | (Some e, b1) \<Rightarrow>
         if e = ErrBlobAlreadyExists then (None, b1)
         else if e \<noteq> ErrUnsupportedPutBlobOption then (Some e, b1)
         else (case bs_GetMetadata St i b1 of
             (Inr _, b2) \<Rightarrow> (None, b2)
           | (Inl ge, b2) \<Rightarrow>
               if ge \<noteq> ErrBlobNotFound then (Some ge, b2) else bs_PutBlob St i data False b2))"

subsection \<open>Blob names\<close>

text \<open>The names that casstore/snapshot/store_chunked.go gives to packs and chunks of a dedup domain.\<close>

definition tenant_or_dash :: "string \<Rightarrow> string" where
  "tenant_or_dash tenant = (if tenant = [] then ''_'' else tenant)"

definition packBlobID :: "string \<Rightarrow> string \<Rightarrow> string" where
  "packBlobID tenant hash = ''pack-'' @ tenant_or_dash tenant @ ''-'' @ hash"

definition packTenantPrefix :: "string \<Rightarrow> string" where
  "packTenantPrefix tenant = ''pack-'' @ tenant_or_dash tenant @ ''-''"

definition chunkBlobID :: "string \<Rightarrow> string \<Rightarrow> string" where
  "chunkBlobID tenant hash = ''chunk-'' @ tenant_or_dash tenant @ ''-'' @ hash"

definition chunkTenantPrefix :: "string \<Rightarrow> string" where
  "chunkTenantPrefix tenant = ''chunk-'' @ tenant_or_dash tenant @ ''-''"

lemma packBlobID_eq [simp]: "packBlobID t h = packBlobID t h' \<longleftrightarrow> h = h'"
  and chunkBlobID_eq [simp]: "chunkBlobID t h = chunkBlobID t h' \<longleftrightarrow> h = h'"
  and pack_not_chunk [simp]: "packBlobID t h \<noteq> chunkBlobID t' h'" "chunkBlobID t' h' \<noteq> packBlobID t h"
  by (simp_all add: packBlobID_def chunkBlobID_def)

section \<open>Write if absent\<close>

lemma storage_get:
  assumes "storage_ok St v" and "bs_GetBlob St i off n b = (r, b')"
  shows "v b' = v b" and "r = Inr bs \<Longrightarrow> 0 \<le> off \<Longrightarrow> \<exists>data. v b i = Some data \<and>
      (if n < 0 then bs = drop (nat off) data else bs = take (nat n) (drop (nat off) data) \<and> int (length bs) = n)"
    and "r = Inl ErrBlobNotFound \<Longrightarrow> v b i = None"
proof -
  have L: "get_law St v i off n b" using assms(1) by (simp add: storage_ok_def)
  show "v b' = v b"
    using L assms(2) by (auto simp: get_law_def split: option.splits)
  show "\<exists>data. v b i = Some data \<and>
      (if n < 0 then bs = drop (nat off) data else bs = take (nat n) (drop (nat off) data) \<and> int (length bs) = n)" if "r = Inr bs" "0 \<le> off"
    using L assms(2) that by (auto simp: get_law_def split: option.splits)
  show "v b i = None" if "r = Inl ErrBlobNotFound"
    using L assms(2) that by (auto simp: get_law_def split: option.splits)
qed

lemma storage_put:
  assumes "storage_ok St v" and "bs_PutBlob St i data dnr b = (r, b')"
  shows "r = None \<Longrightarrow> v b' = (v b)(i \<mapsto> data) \<and> (dnr \<longrightarrow> v b i = None)"
    and "r = Some ErrBlobAlreadyExists \<Longrightarrow> v b' = v b \<and> v b i \<noteq> None"
    and "r = Some ErrUnsupportedPutBlobOption \<Longrightarrow> v b' = v b"
    and "v b' = v b \<or> (v b' = (v b)(i \<mapsto> data) \<and> (dnr \<longrightarrow> v b i = None))"
proof -
  have L: "put_law St v i data dnr b" using assms(1) by (simp add: storage_ok_def)
  show "v b' = (v b)(i \<mapsto> data) \<and> (dnr \<longrightarrow> v b i = None)" if "r = None"
    using L assms(2) that by (auto simp: put_law_def split: option.splits)
  show "v b' = v b \<and> v b i \<noteq> None" if "r = Some ErrBlobAlreadyExists"
    using L assms(2) that by (auto simp: put_law_def split: option.splits)
  show "v b' = v b" if "r = Some ErrUnsupportedPutBlobOption"
    using L assms(2) that by (auto simp: put_law_def split: option.splits)
  show "v b' = v b \<or> (v b' = (v b)(i \<mapsto> data) \<and> (dnr \<longrightarrow> v b i = None))"
    using L assms(2) by (auto simp: put_law_def split: option.splits)
qed

lemma storage_meta:
  assumes "storage_ok St v" and "bs_GetMetadata St i b = (r, b')"
  shows "v b' = v b" and "r = Inr md \<Longrightarrow> v b i \<noteq> None" and "r = Inl ErrBlobNotFound \<Longrightarrow> v b i = None"
proof -
  have L: "meta_law St v i b" using assms(1) by (simp add: storage_ok_def)
  show "v b' = v b"
    using L assms(2) by (auto simp: meta_law_def split: option.splits)
  show "v b i \<noteq> None" if "r = Inr md"
    using L assms(2) that by (auto simp: meta_law_def split: option.splits)
  show "v b i = None" if "r = Inl ErrBlobNotFound"
    using L assms(2) that by (auto simp: meta_law_def split: option.splits)
qed

lemma storage_delete:
  assumes "storage_ok St v" and "bs_DeleteBlob St i b = (r, b')"
  shows "v b' = v b \<or> v b' = (v b)(i := None)" and "r = None \<Longrightarrow> v b' = (v b)(i := None)"
proof -
  have L: "delete_law St v i b" using assms(1) by (simp add: storage_ok_def)
  show "v b' = v b \<or> v b' = (v b)(i := None)" using L assms(2) by (auto simp: delete_law_def split: option.splits)
  show "v b' = (v b)(i := None)" if "r = None" using L assms(2) that by (simp add: delete_law_def)
qed

text \<open>It keeps what is there, stores the bytes otherwise, and after success something is there.\<close>

lemma PutIfAbsent_effect:
  assumes "storage_ok St v" and run: "PutIfAbsent St i data b = (r, b')"
  shows "v b' = v b \<or> (v b i = None \<and> v b' = (v b)(i \<mapsto> data))" and "r = None \<Longrightarrow> v b' i \<noteq> None"
proof -
  obtain r1 b1 where p1: "bs_PutBlob St i data True b = (r1, b1)" by (rule prod.exhaust)
  note s1 = storage_put [OF assms(1) p1]
  have *: "(v b' = v b \<or> (v b i = None \<and> v b' = (v b)(i \<mapsto> data))) \<and> (r = None \<longrightarrow> v b' i \<noteq> None)"
  proof (cases "r1 = Some ErrUnsupportedPutBlobOption")
    case False
    then show ?thesis using run p1 s1 by (cases r1) (auto simp: PutIfAbsent_def split: if_splits)
  next
    case True
    obtain r2 b2 where p2: "bs_GetMetadata St i b1 = (r2, b2)" by (rule prod.exhaust)
    note s2 = storage_meta [OF assms(1) p2]
    have v2: "v b2 = v b" using s1(3) True s2(1) by simp
    show ?thesis
    proof (cases "r2 = Inl ErrBlobNotFound")
      case nf: True
      then have "bs_PutBlob St i data False b2 = (r, b')" using run p1 p2 True by (simp add: PutIfAbsent_def)
      from storage_put [OF assms(1) this] show ?thesis using s2(3) [OF nf] v2 s2(1) by auto
    next
      case False
      then show ?thesis using run p1 p2 True v2 s2 by (cases r2) (auto simp: PutIfAbsent_def)
    qed
  qed
  then show "v b' = v b \<or> (v b i = None \<and> v b' = (v b)(i \<mapsto> data))" and "r = None \<Longrightarrow> v b' i \<noteq> None" by blast+
qed

section \<open>A storage that keeps blobs in memory\<close>

text \<open>The documented behaviour can be met: blobs in a map, nothing fails.\<close>

definition mem_storage :: "(string \<Rightarrow> bytes option) Storage" where
  "mem_storage = \<lparr>
    bs_GetBlob = (\<lambda>i off n b. (case b i of
        None \<Rightarrow> Inl ErrBlobNotFound
      | Some d \<Rightarrow> if off < 0 \<or> int (length d) < off \<or> int (length d) < off + n then Inl ErrBlobOther
          else Inr (if n < 0 then drop (nat off) d else take (nat n) (drop (nat off) d)), b)),
    bs_GetMetadata = (\<lambda>i b. (case b i of
        None \<Rightarrow> Inl ErrBlobNotFound
      | Some d \<Rightarrow> Inr \<lparr>bm_ID = i, bm_Length = int (length d), bm_Timestamp = 0\<rparr>, b)),
    bs_PutBlob = (\<lambda>i d dnr b. if dnr \<and> b i \<noteq> None then (Some ErrBlobAlreadyExists, b) else (None, b(i \<mapsto> d))),
    bs_DeleteBlob = (\<lambda>i b. (None, b(i := None))),
    bs_ListBlobs = (\<lambda>p b. (Inr [], b))\<rparr>"

lemma mem_storage_ok: "storage_ok mem_storage id" and mem_reads_ok: "reads_ok mem_storage id"
proof -
  have "get_law mem_storage id i off n b" for i off n b
    by (auto simp: get_law_def mem_storage_def split: option.splits)
  moreover have "meta_law mem_storage id i b" "put_law mem_storage id i d dnr b" "delete_law mem_storage id i b" for i d dnr b
    by (auto simp: meta_law_def put_law_def delete_law_def mem_storage_def split: option.splits)
  ultimately show "storage_ok mem_storage id" by (simp add: storage_ok_def)
  show "reads_ok mem_storage id" by (auto simp: reads_ok_def mem_storage_def)
qed

end
