(* ===== verification/Pack_Assoc.thy ===== *)
theory Pack_Assoc
  imports Dedup_Index Blob_Store
begin

text \<open>
  Reclamation of packs by owner context: \<open>PackReclaimer\<close> of casstore/snapshot/packassoc.go over the in-memory index
  and a blob storage, and the safety of its marks when reclaimers and writers interleave.
\<close>

section \<open>Definitions\<close>

record ReclaimResult =
  rr_PacksConsidered :: nat
  rr_PacksReclaimed :: nat
  rr_PacksStillReferenced :: nat
  rr_PacksHeldByOther :: nat
  rr_PacksSkippedError :: nat
  rr_BytesReclaimed :: int

definition no_result :: ReclaimResult where
  "no_result = \<lparr>rr_PacksConsidered = 0, rr_PacksReclaimed = 0, rr_PacksStillReferenced = 0, rr_PacksHeldByOther = 0,
     rr_PacksSkippedError = 0, rr_BytesReclaimed = 0\<rparr>"

text \<open>
  The flags say, check by check, whether the context was cancelled by then; the in-memory index does not fail.
\<close>

fun mark_loop :: "string \<Rightarrow> string list \<Rightarrow> bool list \<Rightarrow> string list \<Rightarrow> ReclaimResult \<Rightarrow> MemoryDedupStore \<Rightarrow>
    (bool \<times> string list \<times> ReclaimResult \<times> bool list) \<times> MemoryDedupStore" where
  "mark_loop domain [] cs marked res D = ((False, marked, res, cs), D)"
| "mark_loop domain (p # ps) cs marked res D =
    (if cs \<noteq> [] \<and> hd cs then ((True, marked, res, tl cs), D)
     else case MarkObliterating domain p D of
         (True, D1) \<Rightarrow> mark_loop domain ps (tl cs) (marked @ [p]) res D1
       | (False, D1) \<Rightarrow> mark_loop domain ps (tl cs) marked (res\<lparr>rr_PacksHeldByOther := Suc (rr_PacksHeldByOther res)\<rparr>) D1)"

definition finish :: "'b Storage \<Rightarrow> bool \<Rightarrow> string \<Rightarrow> string \<Rightarrow> ReclaimResult \<Rightarrow> MemoryDedupStore \<times> 'b \<Rightarrow> ReclaimResult \<times> MemoryDedupStore \<times> 'b" where
  "finish St hasIndex domain p res Db = (case Db of (D, b) \<Rightarrow>
    (case CommitObliterated domain p D of
       (False, D1) \<Rightarrow> (res\<lparr>rr_PacksStillReferenced := Suc (rr_PacksStillReferenced res)\<rparr>, ReleaseMark domain p D1, b)
     | (True, D1) \<Rightarrow>
         (case bs_GetMetadata St (packBlobID domain p) b of (md, b1) \<Rightarrow>
          let sz = (case md of Inr x \<Rightarrow> bm_Length x | Inl _ \<Rightarrow> 0);
              D2 = (if hasIndex then PurgePacks domain [p] D1 else D1)
          in case bs_DeleteBlob St (packBlobID domain p) b1 of (r, b2) \<Rightarrow>
               if r \<noteq> None \<and> r \<noteq> Some ErrBlobNotFound
               then (res\<lparr>rr_PacksSkippedError := Suc (rr_PacksSkippedError res)\<rparr>, D2, b2)
               else (res\<lparr>rr_PacksReclaimed := Suc (rr_PacksReclaimed res), rr_BytesReclaimed := rr_BytesReclaimed res + sz\<rparr>, D2, b2))))"

fun finish_loop :: "'b Storage \<Rightarrow> bool \<Rightarrow> string \<Rightarrow> string list \<Rightarrow> bool list \<Rightarrow> ReclaimResult \<Rightarrow> MemoryDedupStore \<times> 'b \<Rightarrow>
    (bool \<times> ReclaimResult) \<times> MemoryDedupStore \<times> 'b" where
  "finish_loop St hasIndex domain [] cs res Db = ((False, res), Db)"
| "finish_loop St hasIndex domain (p # ps) cs res Db =
    (if cs \<noteq> [] \<and> hd cs then ((True, res), Db)
     else case finish St hasIndex domain p res Db of (res', Db') \<Rightarrow> finish_loop St hasIndex domain ps (tl cs) res' Db')"

text \<open>The first component says whether the call was cancelled; the drain wait lets other steps happen.\<close>

definition ObliterateContext :: "'b Storage \<Rightarrow> bool \<Rightarrow> bool list \<Rightarrow> string \<Rightarrow> string \<Rightarrow> MemoryDedupStore \<times> 'b \<Rightarrow>
    (bool \<times> ReclaimResult) \<times> MemoryDedupStore \<times> 'b" where
  "ObliterateContext St hasIndex cs domain packContext Db = (case Db of (D, b) \<Rightarrow>
    (case DropContext domain packContext D of (candidates, D1) \<Rightarrow>
     let res = no_result\<lparr>rr_PacksConsidered := length candidates\<rparr>
     in if candidates = [] then ((False, res), D1, b)
        else (case mark_loop domain candidates cs [] res D1 of
            ((True, marked, res1, cs1), D2) \<Rightarrow> ((True, res1), D2, b)
          | ((False, marked, res1, cs1), D2) \<Rightarrow>
              (case DropContext domain packContext D2 of (_, D3) \<Rightarrow> finish_loop St hasIndex domain marked cs1 res1 (D3, b)))))"

text \<open>
  The atomic steps of writers and reclaimers of one domain, each a call that the index or the storage serialises.
  The state has the packs that were ever uploaded and those that some reclaimer has committed.  A writer uploads a
  pack before it records or associates it.
\<close>

record 'b pack_sys =
  ps_D :: MemoryDedupStore
  ps_b :: 'b
  ps_up :: "string set"
  ps_doomed :: "string set"

inductive pack_step :: "'b Storage \<Rightarrow> string \<Rightarrow> 'b pack_sys \<Rightarrow> 'b pack_sys \<Rightarrow> bool" for St domain where
  step_upload: "PutIfAbsent St (packBlobID domain p) data (ps_b s) = (r, b') \<Longrightarrow>
    pack_step St domain s (s\<lparr>ps_b := b', ps_up := if r = None then insert p (ps_up s) else ps_up s\<rparr>)"
| step_record: "\<forall>l \<in> set locs. pr_PackHash (cl_PackRef l) \<in> ps_up s \<Longrightarrow>
    pack_step St domain s (s\<lparr>ps_D := Dedup_Record domain locs (ps_D s)\<rparr>)"
| step_associate: "\<forall>as \<in> set assocs. as_PackHash as \<in> ps_up s \<Longrightarrow> Associate domain assocs (ps_D s) = (r, D') \<Longrightarrow>
    pack_step St domain s (s\<lparr>ps_D := D'\<rparr>)"
| step_drop: "DropContext domain c (ps_D s) = (cands, D') \<Longrightarrow> pack_step St domain s (s\<lparr>ps_D := D'\<rparr>)"
| step_mark: "MarkObliterating domain p (ps_D s) = (won, D') \<Longrightarrow> pack_step St domain s (s\<lparr>ps_D := D'\<rparr>)"
| step_release: "pack_step St domain s (s\<lparr>ps_D := ReleaseMark domain p (ps_D s)\<rparr>)"
| step_commit: "CommitObliterated domain p (ps_D s) = (ok, D') \<Longrightarrow>
    pack_step St domain s (s\<lparr>ps_D := D', ps_doomed := if ok then insert p (ps_doomed s) else ps_doomed s\<rparr>)"
| step_purge: "pack_step St domain s (s\<lparr>ps_D := PurgePacks domain ps (ps_D s)\<rparr>)"
| step_stat: "bs_GetMetadata St i (ps_b s) = (r, b') \<Longrightarrow> pack_step St domain s (s\<lparr>ps_b := b'\<rparr>)"
| step_delete: "p \<in> ps_doomed s \<Longrightarrow> bs_DeleteBlob St (packBlobID domain p) (ps_b s) = (r, b') \<Longrightarrow>
    pack_step St domain s (s\<lparr>ps_b := b'\<rparr>)"

definition pack_init :: "'b \<Rightarrow> 'b pack_sys" where
  "pack_init b = \<lparr>ps_D = NewMemoryDedupStore, ps_b = b, ps_up = {}, ps_doomed = {}\<rparr>"

section \<open>Lemmas on the association maps\<close>

lemma members_add: "members (add_member k x m) k' = (if k' = k then List.insert x (members m k) else members m k')"
  by (simp add: members_def add_member_def update_conv')

lemma members_delete: "members (AList.delete k m) k' = (if k' = k then [] else members m k')"
  by (simp add: members_def delete_conv')

lemma members_drop_one: "members (drop_one c q m) p = (if p = q then removeAll c (members m q) else members m p)"
  by (simp add: drop_one_def members_def Let_def update_conv' delete_conv' split: option.split)

lemma members_drop_all:
  "members (fold (drop_one c) ps m) p = (if p \<in> set ps then removeAll c (members m p) else members m p)"
  by (induction ps arbitrary: m) (auto simp: members_drop_one)

lemma members_add_all:
  "set (members (ma_byPack (fold add_assoc assocs a)) p) =
     set (members (ma_byPack a) p) \<union> as_Context ` {as \<in> set assocs. as_PackHash as = p}"
  "set (members (ma_byContext (fold add_assoc assocs a)) c) =
     set (members (ma_byContext a) c) \<union> as_PackHash ` {as \<in> set assocs. as_Context as = c}"
  "ma_state (fold add_assoc assocs a) = ma_state a"
  by (induction assocs arbitrary: a) (auto simp: add_assoc_def members_add)

text \<open>The two directions of the association map agree.\<close>

definition assoc_ok :: "memAssoc \<Rightarrow> bool" where
  "assoc_ok a \<longleftrightarrow> (\<forall>p c. c \<in> set (members (ma_byPack a) p) \<longleftrightarrow> p \<in> set (members (ma_byContext a) c))"

lemma Associate_effect:
  assumes "Associate domain assocs D = (r, D')"
  shows "md_byDom D' = md_byDom D" and "ma_state (md_assoc D' d) = ma_state (md_assoc D d)"
    and "assoc_ok (md_assoc D d) \<Longrightarrow> assoc_ok (md_assoc D' d)"
    and "set (members (ma_byPack (md_assoc D' domain)) p) = set (members (ma_byPack (md_assoc D domain)) p) \<union>
      (if r = None then as_Context ` {as \<in> set assocs. as_PackHash as = p} else {})"
    and "r = None \<Longrightarrow> as \<in> set assocs \<Longrightarrow> stateOf (md_assoc D domain) (as_PackHash as) = PackStored"
  using assms
  by (auto simp: Associate_def Let_def set_assoc_def members_add_all assoc_ok_def list_ex_iff split: if_splits)

lemma DropContext_effect:
  assumes "DropContext domain c D = (cands, D')"
  shows "md_byDom D' = md_byDom D" and "ma_state (md_assoc D' d) = ma_state (md_assoc D d)"
    and "cands = members (ma_byContext (md_assoc D domain)) c"
    and "assoc_ok (md_assoc D domain) \<Longrightarrow> assoc_ok (md_assoc D' domain)"
    and "assoc_ok (md_assoc D domain) \<Longrightarrow>
      set (members (ma_byPack (md_assoc D' domain)) p) = set (members (ma_byPack (md_assoc D domain)) p) - {c}"
proof -
  let ?a = "md_assoc D domain" and ?ps = "members (ma_byContext (md_assoc D domain)) c"
  show "md_byDom D' = md_byDom D" "ma_state (md_assoc D' d) = ma_state (md_assoc D d)" "cands = ?ps"
    using assms by (auto simp: DropContext_def Let_def set_assoc_def split: if_splits)
  show *: "set (members (ma_byPack (md_assoc D' domain)) p) = set (members (ma_byPack ?a) p) - {c}" if "assoc_ok ?a" for p
    using assms that by (auto simp: DropContext_def Let_def set_assoc_def members_drop_all assoc_ok_def split: if_splits)
  have "members (ma_byContext (md_assoc D' domain)) x = (if x = c then [] else members (ma_byContext ?a) x)" for x
    using assms by (auto simp: DropContext_def Let_def set_assoc_def members_delete split: if_splits)
  then show "assoc_ok (md_assoc D' domain)" if "assoc_ok ?a"
    using that unfolding assoc_ok_def * [OF that] by auto
qed

section \<open>Safety of the marks\<close>

definition pack_ok :: "('b \<Rightarrow> string \<Rightarrow> bytes option) \<Rightarrow> string \<Rightarrow> 'b pack_sys \<Rightarrow> bool" where
  "pack_ok v domain s \<longleftrightarrow> (let a = md_assoc (ps_D s) domain in
     assoc_ok a \<and>
     (\<forall>p. stateOf a p = PackObliterated \<longrightarrow> set (members (ma_byPack a) p) = {}) \<and>
     (\<forall>p \<in> ps_doomed s. stateOf a p = PackObliterated) \<and>
     (\<forall>p \<in> ps_up s. stateOf a p \<noteq> PackObliterated \<longrightarrow> v (ps_b s) (packBlobID domain p) \<noteq> None) \<and>
     (\<forall>p. set (members (ma_byPack a) p) \<noteq> {} \<longrightarrow> p \<in> ps_up s) \<and>
     (\<forall>(h, ref) \<in> set (md_byDom (ps_D s) domain). pr_PackHash ref \<in> ps_up s))"

lemma pack_ok_init: "pack_ok v domain (pack_init b)"
  by (simp add: pack_ok_def pack_init_def NewMemoryDedupStore_def empty_assoc_def assoc_ok_def members_def stateOf_def)

lemma stateOf_cong: "ma_state a' = ma_state a \<Longrightarrow> stateOf a' p = stateOf a p"
  by (simp add: stateOf_def)

lemma fold_record_set: "set (fold record_one locs dm) \<subseteq> set dm \<union> (\<lambda>l. (cl_ChunkHash l, cl_PackRef l)) ` set locs"
proof (induction locs arbitrary: dm)
  case (Cons l locs)
  have "set (record_one l dm) \<subseteq> insert (cl_ChunkHash l, cl_PackRef l) (set dm)" by (auto simp: record_one_def)
  then show ?case using Cons [of "record_one l dm"] by auto
qed simp

text \<open>A change of the blobs that keeps every pack that is not yet obliterated.\<close>

lemma pack_ok_blobs:
  assumes "pack_ok v domain s" and "ps_up s \<subseteq> up"
    and "\<And>p. p \<in> up \<Longrightarrow> stateOf (md_assoc (ps_D s) domain) p \<noteq> PackObliterated \<Longrightarrow> v b' (packBlobID domain p) \<noteq> None"
  shows "pack_ok v domain (s\<lparr>ps_b := b', ps_up := up\<rparr>)"
  using assms unfolding pack_ok_def Let_def by simp blast

lemma pack_step_ok:
  assumes "pack_step St domain s s'" and st: "storage_ok St v" and "pack_ok v domain s"
  shows "pack_ok v domain s'"
  using assms(1,3)
proof (cases rule: pack_step.cases)
  case (step_upload p data r b')
  note eff = PutIfAbsent_effect [OF st step_upload(2)]
  have "pack_ok v domain (s\<lparr>ps_b := b', ps_up := if r = None then insert p (ps_up s) else ps_up s\<rparr>)"
  proof (rule pack_ok_blobs [OF assms(3)])
    fix q
    assume "q \<in> (if r = None then insert p (ps_up s) else ps_up s)" "stateOf (md_assoc (ps_D s) domain) q \<noteq> PackObliterated"
    then show "v b' (packBlobID domain q) \<noteq> None" using eff assms(3) by (auto simp: pack_ok_def Let_def split: if_splits)
  qed auto
  then show ?thesis using step_upload by simp
next
  case (step_record locs)
  then show ?thesis
    using assms(3) fold_record_set [of locs "md_byDom (ps_D s) domain"] by (fastforce simp: pack_ok_def Let_def Dedup_Record_def)
next
  case (step_associate assocs r D')
  note e = Associate_effect [OF step_associate(3)]
  have "pack_ok v domain (s\<lparr>ps_D := D'\<rparr>)"
    using assms(3) e(3) [of domain] e(5) step_associate(2) unfolding pack_ok_def Let_def by (auto simp: e(1,4) stateOf_cong [OF e(2)] split: if_splits)
  then show ?thesis using step_associate by simp
next
  case (step_drop c cands D')
  note e = DropContext_effect [OF step_drop(2)]
  have "assoc_ok (md_assoc (ps_D s) domain)" using assms(3) by (simp add: pack_ok_def Let_def)
  then have "pack_ok v domain (s\<lparr>ps_D := D'\<rparr>)"
    using assms(3) e(4) unfolding pack_ok_def Let_def by (auto simp: e(1,5) stateOf_cong [OF e(2)]) (metis empty_iff list.set(1))
  then show ?thesis using step_drop by simp
next
  case (step_mark p won D')
  then show ?thesis using assms(3)
    by (auto simp: pack_ok_def Let_def MarkObliterating_def stateOf_set_state byPack_set_state assoc_ok_def split: if_splits)
next
  case (step_release p)
  then show ?thesis using assms(3)
    by (auto simp: pack_ok_def Let_def ReleaseMark_def stateOf_set_state byPack_set_state assoc_ok_def)
next
  case (step_commit p ok D')
  then show ?thesis using assms(3)
    by (auto simp: pack_ok_def Let_def CommitObliterated_def stateOf_set_state byPack_set_state assoc_ok_def split: if_splits)
next
  case (step_purge ps)
  then show ?thesis using assms(3) by (auto simp: pack_ok_def Let_def PurgePacks_def)
next
  case (step_stat i r b')
  then show ?thesis using assms(3) storage_meta(1) [OF st step_stat(2)] by (simp add: pack_ok_def Let_def)
next
  case (step_delete p r b')
  have "pack_ok v domain (s\<lparr>ps_b := b', ps_up := ps_up s\<rparr>)"
  proof (rule pack_ok_blobs [OF assms(3)])
    fix q
    assume q: "q \<in> ps_up s" "stateOf (md_assoc (ps_D s) domain) q \<noteq> PackObliterated"
    then have "q \<noteq> p" "v (ps_b s) (packBlobID domain q) \<noteq> None" using assms(3) step_delete(2) by (auto simp: pack_ok_def Let_def)
    then show "v b' (packBlobID domain q) \<noteq> None" using storage_delete(1) [OF st step_delete(3)] by auto
  qed auto
  then show ?thesis using step_delete by simp
qed

lemma pack_steps_ok: "(pack_step St domain)\<^sup>*\<^sup>* s s' \<Longrightarrow> storage_ok St v \<Longrightarrow> pack_ok v domain s \<Longrightarrow> pack_ok v domain s'"
  by (induction rule: rtranclp_induct) (auto intro: pack_step_ok)

section \<open>A reclamation is a sequence of steps\<close>

lemma mark_loop_steps:
  assumes "mark_loop domain ps cs marked res (ps_D s) = (x, D')"
  shows "(pack_step St domain)\<^sup>*\<^sup>* s (s\<lparr>ps_D := D'\<rparr>) \<and> ma_byPack (md_assoc D' domain) = ma_byPack (md_assoc (ps_D s) domain)"
  using assms
proof (induction ps arbitrary: cs marked res s)
  case (Cons p ps)
  obtain won D1 where m: "MarkObliterating domain p (ps_D s) = (won, D1)" by (rule prod.exhaust)
  show ?case
  proof (cases "cs \<noteq> [] \<and> hd cs")
    case True
    then show ?thesis using Cons.prems by auto
  next
    case False
    have st: "pack_step St domain s (s\<lparr>ps_D := D1\<rparr>)" by (rule step_mark [OF m])
    have b: "ma_byPack (md_assoc D1 domain) = ma_byPack (md_assoc (ps_D s) domain)"
      using m by (auto simp: MarkObliterating_def byPack_set_state split: if_splits)
    have "(pack_step St domain)\<^sup>*\<^sup>* (s\<lparr>ps_D := D1\<rparr>) (s\<lparr>ps_D := D1, ps_D := D'\<rparr>) \<and> ma_byPack (md_assoc D' domain) = ma_byPack (md_assoc D1 domain)"
      using Cons.prems m False Cons.IH [where s = "s\<lparr>ps_D := D1\<rparr>"] by (cases won) (auto split: if_splits)
    then show ?thesis using st b by (auto intro: converse_rtranclp_into_rtranclp)
  qed
qed auto

lemma finish_steps:
  assumes "finish St hasIndex domain p res (ps_D s, ps_b s) = (res', D', b')"
  shows "\<exists>dm. (pack_step St domain)\<^sup>*\<^sup>* s (s\<lparr>ps_D := D', ps_b := b', ps_doomed := dm\<rparr>) \<and>
    ma_byPack (md_assoc D' domain) = ma_byPack (md_assoc (ps_D s) domain)"
proof -
  obtain ok D1 where c: "CommitObliterated domain p (ps_D s) = (ok, D1)" by (rule prod.exhaust)
  let ?s1 = "s\<lparr>ps_D := D1, ps_doomed := if ok then insert p (ps_doomed s) else ps_doomed s\<rparr>"
  have b1: "ma_byPack (md_assoc D1 domain) = ma_byPack (md_assoc (ps_D s) domain)"
    using c by (auto simp: CommitObliterated_def byPack_set_state split: if_splits)
  have st1: "pack_step St domain s ?s1" by (rule step_commit [OF c])
  show ?thesis
  proof (cases ok)
    case False
    have "pack_step St domain ?s1 (?s1\<lparr>ps_D := ReleaseMark domain p (ps_D ?s1)\<rparr>)" by (rule step_release)
    then have "(pack_step St domain)\<^sup>*\<^sup>* s (?s1\<lparr>ps_D := ReleaseMark domain p D1\<rparr>)" using st1 by (simp add: converse_rtranclp_into_rtranclp)
    moreover have "D' = ReleaseMark domain p D1" "b' = ps_b s" using assms c False by (simp_all add: finish_def)
    ultimately show ?thesis using False b1
      by (intro exI [of _ "ps_doomed s"]) (auto simp: ReleaseMark_def byPack_set_state)
  next
    case True
    obtain md b1' where g: "bs_GetMetadata St (packBlobID domain p) (ps_b s) = (md, b1')" by (rule prod.exhaust)
    obtain r b2 where d: "bs_DeleteBlob St (packBlobID domain p) b1' = (r, b2)" by (rule prod.exhaust)
    let ?D2 = "if hasIndex then PurgePacks domain [p] D1 else D1"
    have e: "D' = ?D2" "b' = b2" using assms c True g d by (auto simp: finish_def Let_def split: if_splits)
    let ?s2 = "?s1\<lparr>ps_b := b1'\<rparr>"
    have st2: "pack_step St domain ?s1 ?s2" by (rule step_stat [where i = "packBlobID domain p" and r = md]) (simp add: g)
    have st3: "(pack_step St domain)\<^sup>*\<^sup>* ?s2 (?s2\<lparr>ps_D := ?D2\<rparr>)"
    proof (cases hasIndex)
      case True
      then show ?thesis using step_purge [of St domain ?s2 "[p]"] by (simp add: r_into_rtranclp)
    next
      case False
      then have "?s2\<lparr>ps_D := ?D2\<rparr> = ?s2" by (cases s) simp
      then show ?thesis by (metis rtranclp.rtrancl_refl)
    qed
    have "pack_step St domain (?s2\<lparr>ps_D := ?D2\<rparr>) (?s2\<lparr>ps_D := ?D2, ps_b := b2\<rparr>)"
      by (rule step_delete [where p = p and r = r]) (use d True in simp_all)
    then have "(pack_step St domain)\<^sup>*\<^sup>* s (?s2\<lparr>ps_D := ?D2, ps_b := b2\<rparr>)"
      using st1 st2 st3 by (meson converse_rtranclp_into_rtranclp rtranclp.rtrancl_into_rtrancl)
    moreover have "?s2\<lparr>ps_D := ?D2, ps_b := b2\<rparr> = s\<lparr>ps_D := D', ps_b := b', ps_doomed := insert p (ps_doomed s)\<rparr>"
      using e True by (cases s) simp
    moreover have "ma_byPack (md_assoc D' domain) = ma_byPack (md_assoc D1 domain)" using e(1) by (simp add: PurgePacks_def)
    ultimately show ?thesis using b1 by metis
  qed
qed

lemma finish_loop_steps:
  assumes "finish_loop St hasIndex domain ps cs res (ps_D s, ps_b s) = (x, D', b')"
  shows "\<exists>dm. (pack_step St domain)\<^sup>*\<^sup>* s (s\<lparr>ps_D := D', ps_b := b', ps_doomed := dm\<rparr>) \<and>
    ma_byPack (md_assoc D' domain) = ma_byPack (md_assoc (ps_D s) domain)"
  using assms
proof (induction ps arbitrary: cs res s)
  case Nil
  then show ?case by (intro exI [of _ "ps_doomed s"]) auto
next
  case (Cons p ps)
  obtain res1 D1 b1 where f: "finish St hasIndex domain p res (ps_D s, ps_b s) = (res1, D1, b1)" by (rule prod_cases3)
  show ?case
  proof (cases "cs \<noteq> [] \<and> hd cs")
    case True
    then show ?thesis using Cons.prems by (intro exI [of _ "ps_doomed s"]) auto
  next
    case False
    obtain dm where d: "(pack_step St domain)\<^sup>*\<^sup>* s (s\<lparr>ps_D := D1, ps_b := b1, ps_doomed := dm\<rparr>)"
      "ma_byPack (md_assoc D1 domain) = ma_byPack (md_assoc (ps_D s) domain)" using finish_steps [OF f] by blast
    obtain dm' where "(pack_step St domain)\<^sup>*\<^sup>* (s\<lparr>ps_D := D1, ps_b := b1, ps_doomed := dm\<rparr>) (s\<lparr>ps_D := D', ps_b := b', ps_doomed := dm'\<rparr>)"
      "ma_byPack (md_assoc D' domain) = ma_byPack (md_assoc D1 domain)"
      using Cons.IH [where s = "s\<lparr>ps_D := D1, ps_b := b1, ps_doomed := dm\<rparr>"] Cons.prems f False by (auto split: if_splits)
    then show ?thesis using d by (intro exI [of _ dm']) auto
  qed
qed

section \<open>Properties\<close>

text \<open>C26: However writers and reclaimers of a domain interleave, a pack that some context is associated with is
  stored, and so is a pack that the dedup index hands out.\<close>

theorem associated_pack_present:
  assumes "storage_ok St v" and "(pack_step St domain)\<^sup>*\<^sup>* (pack_init b) s"
  shows "(members (ma_byPack (md_assoc (ps_D s) domain)) p \<noteq> [] \<longrightarrow> v (ps_b s) (packBlobID domain p) \<noteq> None) \<and>
    (Dedup_Lookup domain h (ps_D s) = Some r \<longrightarrow> v (ps_b s) (packBlobID domain (pr_PackHash r)) \<noteq> None)"
proof -
  let ?a = "md_assoc (ps_D s) domain"
  have ok: "pack_ok v domain s" by (rule pack_steps_ok [OF assms(2,1) pack_ok_init])
  have "v (ps_b s) (packBlobID domain p) \<noteq> None" if "members (ma_byPack ?a) p \<noteq> []"
    using ok that unfolding pack_ok_def Let_def set_empty by metis
  moreover have "v (ps_b s) (packBlobID domain (pr_PackHash r)) \<noteq> None" if "Dedup_Lookup domain h (ps_D s) = Some r"
  proof -
    have "(h, r) \<in> set (md_byDom (ps_D s) domain)"
      using that by (auto simp: Dedup_Lookup_def split: option.splits if_splits dest: map_of_SomeD)
    then have "pr_PackHash r \<in> ps_up s" using ok by (auto simp: pack_ok_def Let_def)
    then show ?thesis using ok Dedup_Lookup_available [OF that] by (simp add: pack_ok_def Let_def)
  qed
  ultimately show ?thesis by blast
qed

lemma pack_demo:
  "\<exists>s. (pack_step mem_storage ''d'')\<^sup>*\<^sup>* (pack_init Map.empty) s \<and> members (ma_byPack (md_assoc (ps_D s) ''d'')) ''p'' = [''c''] \<and>
     Dedup_Lookup ''d'' ''h'' (ps_D s) = Some \<lparr>pr_PackHash = ''p'', pr_Offset = 0, pr_Size = 1\<rparr>"
proof -
  let ?ref = "\<lparr>pr_PackHash = ''p'', pr_Offset = 0, pr_Size = 1\<rparr>" and ?loc = "\<lparr>cl_ChunkHash = ''h'', cl_PackRef = \<lparr>pr_PackHash = ''p'', pr_Offset = 0, pr_Size = 1\<rparr>\<rparr>"
  let ?as = "\<lparr>as_PackHash = ''p'', as_Context = ''c''\<rparr>"
  define s1 where "s1 = (pack_init Map.empty)\<lparr>ps_b := [packBlobID ''d'' ''p'' \<mapsto> [1 :: u8]], ps_up := {''p''}\<rparr>"
  define s2 where "s2 = s1\<lparr>ps_D := Dedup_Record ''d'' [?loc] (ps_D s1)\<rparr>"
  define s3 where "s3 = s2\<lparr>ps_D := snd (Associate ''d'' [?as] (ps_D s2))\<rparr>"
  note defs = s3_def s2_def s1_def pack_init_def NewMemoryDedupStore_def empty_assoc_def
  have "pack_step mem_storage ''d'' (pack_init Map.empty) s1"
    using step_upload [of mem_storage "''d''" "''p''" "[1]" "pack_init Map.empty" None "[packBlobID ''d'' ''p'' \<mapsto> [1]]"]
    by (simp add: PutIfAbsent_def mem_storage_def pack_init_def s1_def)
  moreover have "pack_step mem_storage ''d'' s1 s2" unfolding s2_def by (rule step_record) (simp add: s1_def)
  moreover have "pack_step mem_storage ''d'' s2 s3" unfolding s3_def
    by (rule step_associate [where assocs = "[?as]" and r = "fst (Associate ''d'' [?as] (ps_D s2))"]) (simp_all add: s2_def s1_def)
  ultimately have "(pack_step mem_storage ''d'')\<^sup>*\<^sup>* (pack_init Map.empty) s3" by (meson converse_rtranclp_into_rtranclp rtranclp.rtrancl_refl)
  moreover have "members (ma_byPack (md_assoc (ps_D s3) ''d'')) ''p'' = [''c'']"
    by (simp add: defs Dedup_Record_def Associate_def set_assoc_def add_assoc_def add_member_def members_def stateOf_def Let_def)
  moreover have "Dedup_Lookup ''d'' ''h'' (ps_D s3) = Some ?ref"
    by (simp add: defs Dedup_Record_def Associate_def set_assoc_def add_assoc_def stateOf_def Let_def Dedup_Lookup_def packUnavailable_def record_one_def)
  ultimately show ?thesis by blast
qed

theorem associated_pack_present_witness:
  "\<exists>s :: (string \<Rightarrow> bytes option) pack_sys. (pack_step mem_storage ''d'')\<^sup>*\<^sup>* (pack_init Map.empty) s \<and>
     members (ma_byPack (md_assoc (ps_D s) ''d'')) ''p'' = [''c''] \<and> ps_b s (packBlobID ''d'' ''p'') \<noteq> None"
proof -
  obtain s where s: "(pack_step mem_storage ''d'')\<^sup>*\<^sup>* (pack_init Map.empty) s" "members (ma_byPack (md_assoc (ps_D s) ''d'')) ''p'' = [''c'']"
    using pack_demo by blast
  then show ?thesis using associated_pack_present [OF mem_storage_ok s(1), of "''p''"] by auto
qed

text \<open>C27: A reclamation of a context that is not cancelled is a sequence of the atomic steps, so the safety of the interleavings covers it;
  afterwards the context is associated with no pack, and all other associations are as before.\<close>

theorem ObliterateContext_releases:
  assumes "storage_ok St v" and "(pack_step St domain)\<^sup>*\<^sup>* (pack_init b) s"
    and "ObliterateContext St hasIndex [] domain c (ps_D s, ps_b s) = (res, D', b')"
  shows "(\<exists>doomed. (pack_step St domain)\<^sup>*\<^sup>* s (s\<lparr>ps_D := D', ps_b := b', ps_doomed := doomed\<rparr>)) \<and>
    (\<forall>p. set (members (ma_byPack (md_assoc D' domain)) p) = set (members (ma_byPack (md_assoc (ps_D s) domain)) p) - {c})"
proof -
  have "pack_ok v domain s" by (rule pack_steps_ok [OF assms(2,1) pack_ok_init])
  then have a: "assoc_ok (md_assoc (ps_D s) domain)" by (simp add: pack_ok_def Let_def)
  obtain cands D1 where d1: "DropContext domain c (ps_D s) = (cands, D1)" by (rule prod.exhaust)
  note e1 = DropContext_effect [OF d1]
  have st1: "pack_step St domain s (s\<lparr>ps_D := D1\<rparr>)" by (rule step_drop [OF d1])
  show ?thesis
  proof (cases "cands = []")
    case True
    then have "D' = D1" "b' = ps_b s" using assms(3) d1 by (simp_all add: ObliterateContext_def)
    then show ?thesis using st1 e1(5) [OF a] by (intro conjI exI [of _ "ps_doomed s"]) (auto intro: r_into_rtranclp)
  next
    case False
    let ?res = "no_result\<lparr>rr_PacksConsidered := length cands\<rparr>"
    have nocancel: "\<exists>marked r D. mark_loop domain ps [] m r0 D0 = ((False, marked, r, []), D)" for ps m r0 D0
      by (induction ps arbitrary: m r0 D0) (auto split: prod.split bool.split)
    obtain marked res1 D2 where m: "mark_loop domain cands [] [] ?res D1 = ((False, marked, res1, []), D2)"
      using nocancel by blast
    note st2 = mark_loop_steps [where s = "s\<lparr>ps_D := D1\<rparr>" and St = St, simplified, OF m]
    obtain c3 D3 where d3: "DropContext domain c D2 = (c3, D3)" by (rule prod.exhaust)
    have st3: "pack_step St domain (s\<lparr>ps_D := D2\<rparr>) (s\<lparr>ps_D := D3\<rparr>)"
      using step_drop [of domain c "s\<lparr>ps_D := D2\<rparr>" c3 D3 St] d3 by simp
    have ok2: "pack_ok v domain (s\<lparr>ps_D := D2\<rparr>)"
      using pack_steps_ok [OF _ assms(1) \<open>pack_ok v domain s\<close>] st1 st2 by (meson converse_rtranclp_into_rtranclp)
    then have a2: "assoc_ok (md_assoc D2 domain)" by (simp add: pack_ok_def Let_def)
    have "finish_loop St hasIndex domain marked [] res1 (D3, ps_b s) = (res, D', b')"
      using assms(3) d1 False m d3 by (simp add: ObliterateContext_def)
    from finish_loop_steps [where s = "s\<lparr>ps_D := D3\<rparr>", simplified, OF this]
    obtain dm where f: "(pack_step St domain)\<^sup>*\<^sup>* (s\<lparr>ps_D := D3\<rparr>) (s\<lparr>ps_D := D', ps_b := b', ps_doomed := dm\<rparr>)"
      "ma_byPack (md_assoc D' domain) = ma_byPack (md_assoc D3 domain)" by blast
    have "set (members (ma_byPack (md_assoc D' domain)) p) = set (members (ma_byPack (md_assoc (ps_D s) domain)) p) - {c}" for p
      using DropContext_effect(5) [OF d3 a2] e1(5) [OF a] st2 f(2) by simp
    moreover have "(pack_step St domain)\<^sup>*\<^sup>* s (s\<lparr>ps_D := D', ps_b := b', ps_doomed := dm\<rparr>)"
      using st1 st2 st3 f(1) by (meson converse_rtranclp_into_rtranclp rtranclp_trans)
    ultimately show ?thesis by blast
  qed
qed

theorem ObliterateContext_releases_witness:
  "\<exists>s D' b' res. (pack_step mem_storage ''d'')\<^sup>*\<^sup>* (pack_init Map.empty) s \<and> members (ma_byPack (md_assoc (ps_D s) ''d'')) ''p'' = [''c''] \<and>
     ObliterateContext mem_storage True [] ''d'' ''c'' (ps_D s, ps_b s) = (res, D', b') \<and> members (ma_byPack (md_assoc D' ''d'')) ''p'' = []"
proof -
  obtain s where s: "(pack_step mem_storage ''d'')\<^sup>*\<^sup>* (pack_init Map.empty) s" "members (ma_byPack (md_assoc (ps_D s) ''d'')) ''p'' = [''c'']"
    using pack_demo by blast
  obtain res D' b' where o': "ObliterateContext mem_storage True [] ''d'' ''c'' (ps_D s, ps_b s) = (res, D', b')" by (rule prod_cases3)
  have "set (members (ma_byPack (md_assoc D' ''d'')) ''p'') = set (members (ma_byPack (md_assoc (ps_D s) ''d'')) ''p'') - {''c''}"
    using ObliterateContext_releases [OF mem_storage_ok s(1) o'] by blast
  then show ?thesis using s o' by auto
qed

section \<open>Obliteration is for ever\<close>

text \<open>
  No step leaves the state \<open>PackObliterated\<close>.  An object whose chunks make up the same pack again is uploaded, but
  every later association of it is refused, so that its put fails however often it is repeated.
\<close>

lemma obliterated_step:
  assumes "pack_step St domain s s'" and "stateOf (md_assoc (ps_D s) domain) p = PackObliterated"
  shows "stateOf (md_assoc (ps_D s') domain) p = PackObliterated"
  using assms
proof (cases rule: pack_step.cases)
  case (step_associate assocs r D')
  then show ?thesis using assms(2) stateOf_cong [OF Associate_effect(2) [OF step_associate(3)]] by simp
next
  case (step_drop c cands D')
  then show ?thesis using assms(2) stateOf_cong [OF DropContext_effect(2) [OF step_drop(2)]] by simp
qed (auto simp: Dedup_Record_def MarkObliterating_def ReleaseMark_def CommitObliterated_def PurgePacks_def stateOf_set_state split: if_splits)

lemma obliterated_refuses_for_ever:
  assumes "(pack_step St domain)\<^sup>*\<^sup>* s s'" and "stateOf (md_assoc (ps_D s) domain) (as_PackHash as) = PackObliterated" and "as \<in> set assocs"
  shows "Associate domain assocs (ps_D s') = (Some ErrPackObliterating, ps_D s')"
proof -
  have "stateOf (md_assoc (ps_D s') domain) (as_PackHash as) = PackObliterated"
    using assms(1,2) by (induction rule: rtranclp_induct) (auto intro: obliterated_step)
  then show ?thesis using assms(3) by (auto simp: Associate_def Let_def list_ex_iff intro!: bexI [of _ as])
qed

end
