(* ===== verification/Chunked_Store.thy ===== *)
theory Chunked_Store
  imports Pack_Assoc Pack_Props
begin

text \<open>
  The write side of casstore/snapshot/store_chunked.go: splitting a stream into chunks, packing them, deduplication
  against an index, and the manifest that goes to the upstream store.

  The splitter (kopia), the codecs, SHA-256 and the blob storage are parameters.  A manifest is stored as a value, its
  JSON text is not modelled.  Calls are serial; coalescing uploads of the same blob (\<open>InflightDeduper\<close>) then is
  \<open>PutIfAbsent\<close>, and the in-memory index has no recorder of pack sizes.
\<close>

section \<open>Definitions\<close>

record chunkRef =
  cr_Hash :: string
  cr_PackHash :: string
  cr_Offset :: int
  cr_Size :: int

record chunkManifest =
  cm_Format :: string
  cm_TotalSize :: int
  cm_Tenant :: string
  cm_Chunks :: "chunkRef list"

definition manifestFormatV1 :: string where "manifestFormatV1 = ''sandbox-chunked-v1''"
definition manifestFormatV2 :: string where "manifestFormatV2 = ''sandbox-chunked-v2''"

datatype PackCompressionMode = PackCompressPerChunk | PackCompressWholePack

datatype DedupIndex = PriorManifestIndex | GlobalIndex

text \<open>
  The documented range of \<open>NextSplitPoint\<close> is -1 or 1 to the length of the data; \<open>Some j\<close> stands for the point
  behind byte \<open>j\<close>, so that a split makes progress.
\<close>

record 's Splitter =
  sp_new :: 's
  sp_next :: "bytes \<Rightarrow> 's \<Rightarrow> nat option \<times> 's"

record ('u, 'b, 's) ChunkedStore =
  cs_upstream :: "(chunkManifest, 'u) SnapshotStore"
  cs_chunks :: "'b Storage"
  cs_splitter :: "'s Splitter"
  cs_packTargetBytes :: int
  cs_dedupDomain :: string
  cs_index :: DedupIndex
  cs_policy :: "string \<Rightarrow> CompressionAlgo"
  cs_packCompression :: PackCompressionMode
  cs_codec :: codec
  cs_sha :: "bytes \<Rightarrow> bytes"

text \<open>What the store works on: the upstream store, the blobs, the dedup store, and the cache of pack framings.\<close>

record ('u, 'b) cs_state =
  st_up :: 'u
  st_blobs :: 'b
  st_dedup :: MemoryDedupStore
  st_framing :: "(string \<times> packFraming) list"

definition packingDisabled :: int where "packingDisabled = - 1"

definition hexsha :: "('u, 'b, 's) ChunkedStore \<Rightarrow> bytes \<Rightarrow> string" where
  "hexsha C bs = hexenc (cs_sha C bs)"

definition storePackBlob :: "('u, 'b, 's) ChunkedStore \<Rightarrow> bytes \<Rightarrow> packSpan list \<Rightarrow> CompressionAlgo \<Rightarrow> serr + bytes" where
  "storePackBlob C raw spans algo =
    (if algo = CompressNone \<or> cs_packCompression C = PackCompressWholePack then compressPackBlob (cs_codec C) raw algo
     else compressPackBlobChunked (cs_codec C) raw spans algo)"

definition TagStoreUncompressed :: string where "TagStoreUncompressed = ''store_uncompressed''"

definition codecFor :: "('u, 'b, 's) ChunkedStore \<Rightarrow> SnapshotMetadata \<Rightarrow> CompressionAlgo" where
  "codecFor C meta =
    (if m_Tags meta TagStoreUncompressed \<notin> {None, Some []} then CompressNone else cs_policy C (m_Format meta))"

definition domainFor :: "('u, 'b, 's) ChunkedStore \<Rightarrow> SnapshotKey \<Rightarrow> string" where
  "domainFor C key = (if cs_dedupDomain C \<noteq> [] then cs_dedupDomain C else k_Tenant key)"

subsection \<open>Dedup sessions\<close>

datatype DedupSession = PriorSession "(string \<times> PackRef) list" | GlobalSession string "ChunkLocation list"

definition loadPriorIndex :: "serr + chunkManifest \<times> SnapshotMetadata \<Rightarrow> (string \<times> PackRef) list" where
  "loadPriorIndex r = (case r of
      Inl _ \<Rightarrow> []
    | Inr (m, _) \<Rightarrow>
        if cm_Format m \<noteq> manifestFormatV2 then []
        else rev (map (\<lambda>ref. (cr_Hash ref, \<lparr>pr_PackHash = cr_PackHash ref, pr_Offset = cr_Offset ref, pr_Size = cr_Size ref\<rparr>))
          (filter (\<lambda>ref. cr_PackHash ref \<noteq> [] \<and> cr_PackHash ref \<noteq> cr_Hash ref) (cm_Chunks m))))"

definition NewSession :: "('u, 'b, 's) ChunkedStore \<Rightarrow> string \<Rightarrow> SnapshotKey \<Rightarrow> ('u, 'b) cs_state \<Rightarrow> DedupSession \<times> ('u, 'b) cs_state" where
  "NewSession C domain key st = (case cs_index C of
      PriorManifestIndex \<Rightarrow>
        (case ss_GetLatest (cs_upstream C) key (st_up st) of (r, u) \<Rightarrow> (PriorSession (loadPriorIndex r), st\<lparr>st_up := u\<rparr>))
    | GlobalIndex \<Rightarrow> (GlobalSession domain [], st))"

definition sess_Lookup :: "DedupSession \<Rightarrow> string \<Rightarrow> MemoryDedupStore \<Rightarrow> PackRef option" where
  "sess_Lookup sess h D = (case sess of
      PriorSession idx \<Rightarrow> map_of idx h
    | GlobalSession domain _ \<Rightarrow> Dedup_Lookup domain h D)"

definition sess_Record :: "ChunkLocation \<Rightarrow> DedupSession \<Rightarrow> DedupSession" where
  "sess_Record loc sess = (case sess of
      PriorSession idx \<Rightarrow> PriorSession idx
    | GlobalSession domain pending \<Rightarrow> GlobalSession domain (pending @ [loc]))"

definition sess_Commit :: "DedupSession \<Rightarrow> MemoryDedupStore \<Rightarrow> MemoryDedupStore" where
  "sess_Commit sess D = (case sess of
      PriorSession _ \<Rightarrow> D
    | GlobalSession domain pending \<Rightarrow> if pending = [] then D else Dedup_Record domain pending D)"

subsection \<open>Streams\<close>

text \<open>
  A reader is the list of results of its coming calls; behind the list it is at the end.  \<open>None\<close> is a read without
  error, \<open>Some True\<close> one that reports the end, \<open>Some False\<close> one that fails.
\<close>

type_synonym reader = "(bytes \<times> bool option) list"

definition readBufSize :: nat where "readBufSize = 256 * 1024"

function blocks :: "nat \<Rightarrow> bytes \<Rightarrow> bytes list" where
  "blocks n data = (if data = [] \<or> n = 0 then [] else take n data # blocks n (drop n data))"
  by pat_completeness auto
termination by (relation "measure (\<lambda>(n, data). length data)") auto

declare blocks.simps [simp del]

definition bytesReader :: "bytes \<Rightarrow> reader" where
  "bytesReader data = map (\<lambda>d. (d, None)) (blocks readBufSize data)"

function split_block ::
  "'s Splitter \<Rightarrow> (bytes \<Rightarrow> 'x \<Rightarrow> serr option \<times> 'x) \<Rightarrow> bytes \<Rightarrow> 's \<Rightarrow> bytes \<Rightarrow> 'x \<Rightarrow> serr option \<times> 's \<times> bytes \<times> 'x" where
  "split_block sp emit data s current x =
    (if data = [] then (None, s, current, x)
     else case sp_next sp data s of
         (None, s') \<Rightarrow> (None, s', current @ data, x)
       | (Some j, s') \<Rightarrow>
           (case emit (current @ take (Suc j) data) x of
              (Some e, x') \<Rightarrow> (Some e, s', [], x')
            | (None, x') \<Rightarrow> split_block sp emit (drop (Suc j) data) s' [] x'))"
  by pat_completeness auto
termination by (relation "measure (\<lambda>(sp, emit, data, s, current, x). length data)") auto

declare split_block.simps [simp del]

fun read_split ::
  "'s Splitter \<Rightarrow> (bytes \<Rightarrow> 'x \<Rightarrow> serr option \<times> 'x) \<Rightarrow> reader \<Rightarrow> 's \<Rightarrow> bytes \<Rightarrow> 'x \<Rightarrow> serr option \<times> bytes \<times> 'x" where
  "read_split sp emit [] s current x = (None, current, x)"
| "read_split sp emit ((data, err) # r) s current x =
    (case split_block sp emit data s current x of
       (Some e, _, cur, x') \<Rightarrow> (Some e, cur, x')
     | (None, s', cur, x') \<Rightarrow>
         (case err of
            Some True \<Rightarrow> (None, cur, x')
          | Some False \<Rightarrow> (Some ErrOther, cur, x')
          | None \<Rightarrow> read_split sp emit r s' cur x'))"

text \<open>The loop with the final partial chunk.\<close>

definition split_stream ::
  "'s Splitter \<Rightarrow> (bytes \<Rightarrow> 'x \<Rightarrow> serr option \<times> 'x) \<Rightarrow> reader \<Rightarrow> 'x \<Rightarrow> serr option \<times> 'x" where
  "split_stream sp emit r x = (case read_split sp emit r (sp_new sp) [] x of
      (Some e, _, x') \<Rightarrow> (Some e, x')
    | (None, cur, x') \<Rightarrow> emit cur x')"

subsection \<open>Manifests\<close>

definition writeManifest ::
  "('u, 'b, 's) ChunkedStore \<Rightarrow> SnapshotKey \<Rightarrow> SnapshotMetadata \<Rightarrow> chunkManifest \<Rightarrow> string \<Rightarrow> ('u, 'b) cs_state \<Rightarrow>
     (serr + SnapshotMetadata) \<times> ('u, 'b) cs_state" where
  "writeManifest C key meta m formatTag st =
    (case ss_Put (cs_upstream C) key (meta\<lparr>m_Tags := (m_Tags meta)(''chunked_format'' \<mapsto> formatTag)\<rparr>) m (st_up st) of
       (r, u) \<Rightarrow> (r, st\<lparr>st_up := u\<rparr>))"

definition TagOwnerContext :: string where "TagOwnerContext = ''owner_context''"

definition contextFor :: "SnapshotKey \<Rightarrow> SnapshotMetadata \<Rightarrow> string" where
  "contextFor key meta = (case m_Tags meta TagOwnerContext of
      Some c \<Rightarrow> if c \<noteq> [] then c else k_OwnerKey key
    | None \<Rightarrow> k_OwnerKey key)"

fun pack_hashes :: "string list \<Rightarrow> chunkRef list \<Rightarrow> string list" where
  "pack_hashes seen [] = []"
| "pack_hashes seen (ref # refs) =
    (if cr_PackHash ref = [] \<or> cr_PackHash ref \<in> set seen then pack_hashes seen refs
     else cr_PackHash ref # pack_hashes (cr_PackHash ref # seen) refs)"

definition associatePacks ::
  "('u, 'b, 's) ChunkedStore \<Rightarrow> string \<Rightarrow> string \<Rightarrow> chunkRef list \<Rightarrow> MemoryDedupStore \<Rightarrow> serr option \<times> MemoryDedupStore" where
  "associatePacks C domain packContext chunks D =
    (if cs_index C \<noteq> GlobalIndex \<or> packContext = [] then (None, D)
     else Associate domain (map (\<lambda>p. \<lparr>as_PackHash = p, as_Context = packContext\<rparr>) (pack_hashes [] chunks)) D)"

subsection \<open>Put without packs\<close>

record ('u, 'b) v1_state =
  v1_chunks :: "chunkRef list"
  v1_total :: int
  v1_st :: "('u, 'b) cs_state"

definition emitV1 ::
  "('u, 'b, 's) ChunkedStore \<Rightarrow> string \<Rightarrow> CompressionAlgo \<Rightarrow> bytes \<Rightarrow> ('u, 'b) v1_state \<Rightarrow> serr option \<times> ('u, 'b) v1_state" where
  "emitV1 C domain algo current x =
    (if current = [] then (None, x)
     else case compressPackBlob (cs_codec C) current algo of
         Inl e \<Rightarrow> (Some e, x)
       | Inr stored \<Rightarrow>
           (case PutIfAbsent (cs_chunks C) (chunkBlobID domain (hexsha C current)) stored (st_blobs (v1_st x)) of
              (Some e, b) \<Rightarrow> (Some ErrOther, x\<lparr>v1_st := (v1_st x)\<lparr>st_blobs := b\<rparr>\<rparr>)
            | (None, b) \<Rightarrow> (None, x\<lparr>v1_chunks := v1_chunks x @ [\<lparr>cr_Hash = hexsha C current, cr_PackHash = [], cr_Offset = 0,
                  cr_Size = int (length current)\<rparr>],
                v1_total := v1_total x + int (length current), v1_st := (v1_st x)\<lparr>st_blobs := b\<rparr>\<rparr>)))"

definition putV1 ::
  "('u, 'b, 's) ChunkedStore \<Rightarrow> SnapshotKey \<Rightarrow> SnapshotMetadata \<Rightarrow> reader \<Rightarrow> ('u, 'b) cs_state \<Rightarrow> (serr + SnapshotMetadata) \<times> ('u, 'b) cs_state" where
  "putV1 C key meta r st =
    (let domain = domainFor C key
     in case split_stream (cs_splitter C) (emitV1 C domain (codecFor C meta)) r \<lparr>v1_chunks = [], v1_total = 0, v1_st = st\<rparr> of
          (Some e, x) \<Rightarrow> (Inl e, v1_st x)
        | (None, x) \<Rightarrow> writeManifest C key meta \<lparr>cm_Format = manifestFormatV1, cm_TotalSize = v1_total x, cm_Tenant = domain,
              cm_Chunks = v1_chunks x\<rparr> manifestFormatV1 (v1_st x))"

subsection \<open>Put with packs\<close>

record packEntry =
  en_idx :: nat
  en_offset :: int
  en_size :: int

record ('u, 'b) v2_state =
  v2_chunks :: "chunkRef list"
  v2_total :: int
  v2_buf :: bytes
  v2_entries :: "packEntry list"
  v2_sess :: DedupSession
  v2_st :: "('u, 'b) cs_state"

definition set_pack :: "string \<Rightarrow> packEntry \<Rightarrow> chunkRef list \<Rightarrow> chunkRef list" where
  "set_pack ph e cs = cs[en_idx e := (cs ! en_idx e)\<lparr>cr_PackHash := ph\<rparr>]"

definition entry_loc :: "chunkRef list \<Rightarrow> string \<Rightarrow> packEntry \<Rightarrow> ChunkLocation" where
  "entry_loc cs ph e = \<lparr>cl_ChunkHash = cr_Hash (cs ! en_idx e),
     cl_PackRef = \<lparr>pr_PackHash = ph, pr_Offset = en_offset e, pr_Size = en_size e\<rparr>\<rparr>"

definition flushPack ::
  "('u, 'b, 's) ChunkedStore \<Rightarrow> string \<Rightarrow> CompressionAlgo \<Rightarrow> ('u, 'b) v2_state \<Rightarrow> serr option \<times> ('u, 'b) v2_state" where
  "flushPack C domain algo x =
    (if v2_buf x = [] then (None, x)
     else
       let ph = hexsha C (v2_buf x)
       in case storePackBlob C (v2_buf x) (map (\<lambda>e. \<lparr>sp_offset = en_offset e, sp_size = en_size e\<rparr>) (v2_entries x)) algo of
            Inl e \<Rightarrow> (Some e, x)
          | Inr stored \<Rightarrow>
              (case PutIfAbsent (cs_chunks C) (packBlobID domain ph) stored (st_blobs (v2_st x)) of
                 (Some e, b) \<Rightarrow> (Some ErrOther, x\<lparr>v2_st := (v2_st x)\<lparr>st_blobs := b\<rparr>\<rparr>)
               | (None, b) \<Rightarrow> (None, x\<lparr>
                   v2_chunks := fold (set_pack ph) (v2_entries x) (v2_chunks x),
                   v2_sess := fold (\<lambda>e. sess_Record (entry_loc (v2_chunks x) ph e)) (v2_entries x) (v2_sess x),
                   v2_buf := [], v2_entries := [], v2_st := (v2_st x)\<lparr>st_blobs := b\<rparr>\<rparr>)))"

text \<open>A chunk that the session knows is not packed again, unless the pack would be the chunk itself.\<close>

definition reusable :: "string \<Rightarrow> PackRef option \<Rightarrow> PackRef option" where
  "reusable h r = (case r of Some ref \<Rightarrow> if pr_PackHash ref \<noteq> [] \<and> pr_PackHash ref \<noteq> h then Some ref else None | None \<Rightarrow> None)"

definition emitChunk ::
  "('u, 'b, 's) ChunkedStore \<Rightarrow> string \<Rightarrow> CompressionAlgo \<Rightarrow> bytes \<Rightarrow> ('u, 'b) v2_state \<Rightarrow> serr option \<times> ('u, 'b) v2_state" where
  "emitChunk C domain algo current x =
    (if current = [] then (None, x)
     else
       let h = hexsha C current
       in case reusable h (sess_Lookup (v2_sess x) h (st_dedup (v2_st x))) of
            Some ref \<Rightarrow> (None, x\<lparr>v2_chunks := v2_chunks x @ [\<lparr>cr_Hash = h, cr_PackHash = pr_PackHash ref, cr_Offset = pr_Offset ref,
                cr_Size = pr_Size ref\<rparr>], v2_total := v2_total x + pr_Size ref\<rparr>)
          | None \<Rightarrow>
              (let off = int (length (v2_buf x));
                   x1 = x\<lparr>v2_buf := v2_buf x @ current,
                     v2_chunks := v2_chunks x @ [\<lparr>cr_Hash = h, cr_PackHash = [], cr_Offset = off, cr_Size = int (length current)\<rparr>],
                     v2_total := v2_total x + int (length current),
                     v2_entries := v2_entries x @ [\<lparr>en_idx = length (v2_chunks x), en_offset = off, en_size = int (length current)\<rparr>]\<rparr>
               in if cs_packTargetBytes C \<le> int (length (v2_buf x1)) then flushPack C domain algo x1 else (None, x1)))"

definition putV2 ::
  "('u, 'b, 's) ChunkedStore \<Rightarrow> SnapshotKey \<Rightarrow> SnapshotMetadata \<Rightarrow> reader \<Rightarrow> ('u, 'b) cs_state \<Rightarrow> (serr + SnapshotMetadata) \<times> ('u, 'b) cs_state" where
  "putV2 C key meta r st =
    (let domain = domainFor C key; algo = codecFor C meta
     in case NewSession C domain key st of (sess, st0) \<Rightarrow>
        case split_stream (cs_splitter C) (emitChunk C domain algo) r
               \<lparr>v2_chunks = [], v2_total = 0, v2_buf = [], v2_entries = [], v2_sess = sess, v2_st = st0\<rparr> of
          (Some e, x) \<Rightarrow> (Inl e, v2_st x)
        | (None, x) \<Rightarrow>
            (case flushPack C domain algo x of
               (Some e, x1) \<Rightarrow> (Inl e, v2_st x1)
             | (None, x1) \<Rightarrow>
                 (let st1 = (v2_st x1)\<lparr>st_dedup := sess_Commit (v2_sess x1) (st_dedup (v2_st x1))\<rparr>
                  in case associatePacks C domain (contextFor key meta) (v2_chunks x1) (st_dedup st1) of
                       (Some e, D) \<Rightarrow> (Inl e, st1\<lparr>st_dedup := D\<rparr>)
                     | (None, D) \<Rightarrow> writeManifest C key meta \<lparr>cm_Format = manifestFormatV2, cm_TotalSize = v2_total x1,
                           cm_Tenant = domain, cm_Chunks = v2_chunks x1\<rparr> manifestFormatV2 (st1\<lparr>st_dedup := D\<rparr>))))"

definition ChunkedStore_Put ::
  "('u, 'b, 's) ChunkedStore \<Rightarrow> SnapshotKey \<Rightarrow> SnapshotMetadata \<Rightarrow> reader \<Rightarrow> ('u, 'b) cs_state \<Rightarrow> (serr + SnapshotMetadata) \<times> ('u, 'b) cs_state" where
  "ChunkedStore_Put C key meta r st =
    (if cs_packTargetBytes C = packingDisabled then putV1 C key meta r st else putV2 C key meta r st)"

subsection \<open>Batches\<close>

record BatchPutItem =
  bi_Key :: SnapshotKey
  bi_Meta :: SnapshotMetadata
  bi_Data :: bytes

record itemState =
  is_chunks :: "chunkRef list"
  is_total :: int
  is_sess :: DedupSession
  is_domain :: string
  is_algo :: CompressionAlgo

record batchEntry = packEntry +
  en_item :: nat

record ('u, 'b) vb_state =
  vb_items :: "itemState list"
  vb_buf :: bytes
  vb_entries :: "batchEntry list"
  vb_domain :: string
  vb_algo :: CompressionAlgo
  vb_st :: "('u, 'b) cs_state"

fun open_sessions :: "('u, 'b, 's) ChunkedStore \<Rightarrow> BatchPutItem list \<Rightarrow> ('u, 'b) cs_state \<Rightarrow> itemState list \<times> ('u, 'b) cs_state" where
  "open_sessions C [] st = ([], st)"
| "open_sessions C (it # items) st =
    (let domain = domainFor C (bi_Key it)
     in case NewSession C domain (bi_Key it) st of (sess, st1) \<Rightarrow>
        case open_sessions C items st1 of (rest, st2) \<Rightarrow>
          (\<lparr>is_chunks = [], is_total = 0, is_sess = sess, is_domain = domain, is_algo = codecFor C (bi_Meta it)\<rparr> # rest, st2))"

definition fill_entry :: "string \<Rightarrow> batchEntry \<Rightarrow> itemState list \<Rightarrow> itemState list" where
  "fill_entry ph e items =
    (let it = items ! en_item e
     in items[en_item e := it\<lparr>is_chunks := set_pack ph (packEntry.truncate e) (is_chunks it),
          is_sess := sess_Record (entry_loc (is_chunks it) ph (packEntry.truncate e)) (is_sess it)\<rparr>])"

definition flushBatch :: "('u, 'b, 's) ChunkedStore \<Rightarrow> ('u, 'b) vb_state \<Rightarrow> serr option \<times> ('u, 'b) vb_state" where
  "flushBatch C x =
    (if vb_buf x = [] then (None, x)
     else
       let ph = hexsha C (vb_buf x)
       in case storePackBlob C (vb_buf x) (map (\<lambda>e. \<lparr>sp_offset = en_offset e, sp_size = en_size e\<rparr>) (vb_entries x)) (vb_algo x) of
            Inl e \<Rightarrow> (Some e, x)
          | Inr stored \<Rightarrow>
              (case PutIfAbsent (cs_chunks C) (packBlobID (vb_domain x) ph) stored (st_blobs (vb_st x)) of
                 (Some e, b) \<Rightarrow> (Some ErrOther, x\<lparr>vb_st := (vb_st x)\<lparr>st_blobs := b\<rparr>\<rparr>)
               | (None, b) \<Rightarrow> (None, x\<lparr>vb_items := fold (fill_entry ph) (vb_entries x) (vb_items x),
                   vb_buf := [], vb_entries := [], vb_st := (vb_st x)\<lparr>st_blobs := b\<rparr>\<rparr>)))"

text \<open>A pack is uniform in domain and codec; it is flushed before a chunk of another kind is added.\<close>

definition batch_add ::
  "('u, 'b, 's) ChunkedStore \<Rightarrow> nat \<Rightarrow> bytes \<Rightarrow> ('u, 'b) vb_state \<Rightarrow> serr option \<times> ('u, 'b) vb_state" where
  "batch_add C i current x =
    (let it = vb_items x ! i;
         x0 = (if vb_buf x = [] then x\<lparr>vb_domain := is_domain it, vb_algo := is_algo it\<rparr> else x);
         off = int (length (vb_buf x0));
         x1 = x0\<lparr>vb_buf := vb_buf x0 @ current,
           vb_items := (vb_items x0)[i := it\<lparr>
             is_chunks := is_chunks it @ [\<lparr>cr_Hash = hexsha C current, cr_PackHash = [], cr_Offset = off, cr_Size = int (length current)\<rparr>],
             is_total := is_total it + int (length current)\<rparr>],
           vb_entries := vb_entries x0 @ [\<lparr>en_idx = length (is_chunks it), en_offset = off, en_size = int (length current), en_item = i\<rparr>]\<rparr>
     in if cs_packTargetBytes C \<le> int (length (vb_buf x1)) then flushBatch C x1 else (None, x1))"

definition emitBatch ::
  "('u, 'b, 's) ChunkedStore \<Rightarrow> nat \<Rightarrow> bytes \<Rightarrow> ('u, 'b) vb_state \<Rightarrow> serr option \<times> ('u, 'b) vb_state" where
  "emitBatch C i current x =
    (if current = [] then (None, x)
     else
       let h = hexsha C current; it = vb_items x ! i
       in case reusable h (sess_Lookup (is_sess it) h (st_dedup (vb_st x))) of
            Some ref \<Rightarrow> (None, x\<lparr>vb_items := (vb_items x)[i := it\<lparr>
                is_chunks := is_chunks it @ [\<lparr>cr_Hash = h, cr_PackHash = pr_PackHash ref, cr_Offset = pr_Offset ref, cr_Size = pr_Size ref\<rparr>],
                is_total := is_total it + pr_Size ref\<rparr>]\<rparr>)
          | None \<Rightarrow>
              if vb_buf x \<noteq> [] \<and> (is_domain it \<noteq> vb_domain x \<or> is_algo it \<noteq> vb_algo x)
              then (case flushBatch C x of
                  (Some e, x') \<Rightarrow> (Some e, x')
                | (None, x') \<Rightarrow> batch_add C i current x')
              else batch_add C i current x)"

fun process_items :: "('u, 'b, 's) ChunkedStore \<Rightarrow> nat \<Rightarrow> BatchPutItem list \<Rightarrow> ('u, 'b) vb_state \<Rightarrow> serr option \<times> ('u, 'b) vb_state" where
  "process_items C i [] x = (None, x)"
| "process_items C i (it # items) x =
    (case split_stream (cs_splitter C) (emitBatch C i) (bytesReader (bi_Data it)) x of
       (Some e, x') \<Rightarrow> (Some e, x')
     | (None, x') \<Rightarrow> process_items C (Suc i) items x')"

fun finish_items ::
  "('u, 'b, 's) ChunkedStore \<Rightarrow> BatchPutItem list \<Rightarrow> itemState list \<Rightarrow> ('u, 'b) cs_state \<Rightarrow> (serr + SnapshotMetadata list) \<times> ('u, 'b) cs_state" where
  "finish_items C (it # items) (is # iss) st =
    (let st1 = st\<lparr>st_dedup := sess_Commit (is_sess is) (st_dedup st)\<rparr>
     in case associatePacks C (is_domain is) (contextFor (bi_Key it) (bi_Meta it)) (is_chunks is) (st_dedup st1) of
          (Some e, D) \<Rightarrow> (Inl e, st1\<lparr>st_dedup := D\<rparr>)
        | (None, D) \<Rightarrow>
            (case writeManifest C (bi_Key it) (bi_Meta it) \<lparr>cm_Format = manifestFormatV2, cm_TotalSize = is_total is,
                 cm_Tenant = is_domain is, cm_Chunks = is_chunks is\<rparr> manifestFormatV2 (st1\<lparr>st_dedup := D\<rparr>) of
               (Inl e, st2) \<Rightarrow> (Inl e, st2)
             | (Inr md, st2) \<Rightarrow>
                 (case finish_items C items iss st2 of
                    (Inl e, st3) \<Rightarrow> (Inl e, st3)
                  | (Inr mds, st3) \<Rightarrow> (Inr (md # mds), st3))))"
| "finish_items C _ _ st = (Inr [], st)"

definition putBatchV2 ::
  "('u, 'b, 's) ChunkedStore \<Rightarrow> BatchPutItem list \<Rightarrow> ('u, 'b) cs_state \<Rightarrow> (serr + SnapshotMetadata list) \<times> ('u, 'b) cs_state" where
  "putBatchV2 C items st =
    (case open_sessions C items st of (iss, st0) \<Rightarrow>
     case process_items C 0 items \<lparr>vb_items = iss, vb_buf = [], vb_entries = [], vb_domain = [], vb_algo = CompressNone, vb_st = st0\<rparr> of
       (Some e, x) \<Rightarrow> (Inl e, vb_st x)
     | (None, x) \<Rightarrow>
         (case flushBatch C x of
            (Some e, x1) \<Rightarrow> (Inl e, vb_st x1)
          | (None, x1) \<Rightarrow> finish_items C items (vb_items x1) (vb_st x1)))"

fun put_each ::
  "('u, 'b, 's) ChunkedStore \<Rightarrow> BatchPutItem list \<Rightarrow> ('u, 'b) cs_state \<Rightarrow> (serr + SnapshotMetadata list) \<times> ('u, 'b) cs_state" where
  "put_each C [] st = (Inr [], st)"
| "put_each C (it # items) st =
    (case putV1 C (bi_Key it) (bi_Meta it) (bytesReader (bi_Data it)) st of
       (Inl e, st1) \<Rightarrow> (Inl e, st1)
     | (Inr md, st1) \<Rightarrow>
         (case put_each C items st1 of (Inl e, st2) \<Rightarrow> (Inl e, st2) | (Inr mds, st2) \<Rightarrow> (Inr (md # mds), st2)))"

definition PutBatch ::
  "('u, 'b, 's) ChunkedStore \<Rightarrow> BatchPutItem list \<Rightarrow> ('u, 'b) cs_state \<Rightarrow> (serr + SnapshotMetadata list) \<times> ('u, 'b) cs_state" where
  "PutBatch C items st =
    (if items = [] then (Inr [], st)
     else if cs_packTargetBytes C = packingDisabled then put_each C items st
     else putBatchV2 C items st)"

subsection \<open>Metadata updates\<close>

definition overlay_tags :: "(string \<rightharpoonup> string) \<Rightarrow> (string \<rightharpoonup> string) \<Rightarrow> string \<rightharpoonup> string" where
  "overlay_tags old new k = (case new k of None \<Rightarrow> old k | Some v \<Rightarrow> if v = [] then None else Some v)"

definition UpdateLatestMeta ::
  "('u, 'b, 's) ChunkedStore \<Rightarrow> SnapshotKey \<Rightarrow> (string \<rightharpoonup> string) \<Rightarrow> ('u, 'b) cs_state \<Rightarrow> (serr + SnapshotMetadata) \<times> ('u, 'b) cs_state" where
  "UpdateLatestMeta C key tags st =
    (case ss_GetLatest (cs_upstream C) key (st_up st) of
       (Inl e, u) \<Rightarrow> (Inl e, st\<lparr>st_up := u\<rparr>)
     | (Inr (m, meta), u) \<Rightarrow>
         if cm_Format m \<noteq> manifestFormatV1 \<and> cm_Format m \<noteq> manifestFormatV2 then (Inl ErrOther, st\<lparr>st_up := u\<rparr>)
         else (case ss_Put (cs_upstream C) key (meta\<lparr>m_Tags := overlay_tags (m_Tags meta) tags\<rparr>) m u of
             (r, u') \<Rightarrow> (r, st\<lparr>st_up := u'\<rparr>)))"

end
