(* ===== verification/Chunked_Read.thy ===== *)
theory Chunked_Read
  imports Chunked_Store
begin

text \<open>
  The read side of casstore/snapshot/store_chunked.go: opening a manifest and the streaming reader with its ranged
  reads, framing probes and fallbacks.
\<close>

section \<open>Definitions\<close>

record chunkStreamReader =
  rd_manifest :: chunkManifest
  rd_cursorIdx :: nat
  rd_current :: bytes
  rd_cachedPackID :: string
  rd_cachedPack :: "bytes option"
  rd_queued :: "bytes list"

text \<open>Results of the storage: a missing blob is told apart from any other failure.\<close>

definition get_blob :: "('u, 'b, 's) ChunkedStore \<Rightarrow> string \<Rightarrow> int \<Rightarrow> int \<Rightarrow> ('u, 'b) cs_state \<Rightarrow> (serr + bytes) \<times> ('u, 'b) cs_state" where
  "get_blob C i off n st = (case bs_GetBlob (cs_chunks C) i off n (st_blobs st) of
      (Inl e, b) \<Rightarrow> (Inl (if e = ErrBlobNotFound then ErrMissingBlob else ErrOther), st\<lparr>st_blobs := b\<rparr>)
    | (Inr bs, b) \<Rightarrow> (Inr bs, st\<lparr>st_blobs := b\<rparr>))"

subsection \<open>Slicing a run\<close>

definition shiftRun :: "chunkRef list \<Rightarrow> int \<Rightarrow> chunkRef list" where
  "shiftRun run base = (if base = 0 then run else map (\<lambda>ref. ref\<lparr>cr_Offset := cr_Offset ref - base\<rparr>) run)"

fun sliceRunFromContent :: "(bytes \<Rightarrow> string) \<Rightarrow> bytes \<Rightarrow> chunkRef list \<Rightarrow> serr + bytes list" where
  "sliceRunFromContent hash content [] = Inr []"
| "sliceRunFromContent hash content (ref # run) =
    (let fin = cr_Offset ref + cr_Size ref
     in if cr_Offset ref < 0 \<or> int (length content) < fin then Inl ErrCorrupt
        else if fin < cr_Offset ref then Inl ErrPanicked
        else
          let chunk = take (nat (fin - cr_Offset ref)) (drop (nat (cr_Offset ref)) content)
          in if hash chunk \<noteq> cr_Hash ref then Inl ErrCorrupt
             else case sliceRunFromContent hash content run of Inl e \<Rightarrow> Inl e | Inr cs \<Rightarrow> Inr (chunk # cs))"

subsection \<open>Framing\<close>

definition probePackFraming :: "('u, 'b, 's) ChunkedStore \<Rightarrow> string \<Rightarrow> ('u, 'b) cs_state \<Rightarrow> (serr + packFraming) \<times> ('u, 'b) cs_state" where
  "probePackFraming C pid st =
    (case (case get_blob C pid 0 (int packChunkedHeaderLen) st of
             (Inl e, st1) \<Rightarrow> if e = ErrMissingBlob then (Inl e, st1) else get_blob C pid 0 (int packHeaderLen) st1
           | (Inr bs, st1) \<Rightarrow> (Inr bs, st1)) of
       (Inl e, st2) \<Rightarrow> if e = ErrMissingBlob then (Inl e, st2) else (Inr (plain_framing forceWholePack 0), st2)
     | (Inr head, st2) \<Rightarrow>
         (case detectPackFraming head of
            Inl e \<Rightarrow> (Inl e, st2)
          | Inr fr \<Rightarrow>
              if pf_algo fr \<noteq> packAlgoChunked then (Inr fr, st2)
              else if pf_indexLen fr = 0 then (Inr (fr\<lparr>pf_chunked := []\<rparr>), st2)
              else (case get_blob C pid (int packChunkedHeaderLen) (pf_indexLen fr) st2 of
                  (Inl e, st3) \<Rightarrow> (Inl e, st3)
                | (Inr idx, st3) \<Rightarrow>
                    (case parsePackChunkIndex idx of
                       Inl e \<Rightarrow> (Inl e, st3)
                     | Inr entries \<Rightarrow> (Inr (fr\<lparr>pf_chunked := entries\<rparr>), st3)))))"

definition framingFor :: "('u, 'b, 's) ChunkedStore \<Rightarrow> string \<Rightarrow> ('u, 'b) cs_state \<Rightarrow> (serr + packFraming) \<times> ('u, 'b) cs_state" where
  "framingFor C pid st = (case map_of (st_framing st) pid of
      Some fr \<Rightarrow> (Inr fr, st)
    | None \<Rightarrow>
        (case probePackFraming C pid st of
           (Inl e, st1) \<Rightarrow> (Inl e, st1)
         | (Inr fr, st1) \<Rightarrow> (Inr fr, st1\<lparr>st_framing := (pid, fr) # st_framing st1\<rparr>)))"

subsection \<open>Fetching a run\<close>

definition loadStandaloneChunk ::
  "('u, 'b, 's) ChunkedStore \<Rightarrow> chunkStreamReader \<Rightarrow> chunkRef \<Rightarrow> ('u, 'b) cs_state \<Rightarrow> (serr + bytes) \<times> ('u, 'b) cs_state" where
  "loadStandaloneChunk C rd ref st = (case get_blob C (chunkBlobID (cm_Tenant (rd_manifest rd)) (cr_Hash ref)) 0 (- 1) st of
      (Inl e, st1) \<Rightarrow> (Inl e, st1)
    | (Inr buf, st1) \<Rightarrow>
        (case decompressPackBlob (cs_codec C) buf of
           Inl e \<Rightarrow> (Inl e, st1)
         | Inr got \<Rightarrow> if int (length got) \<noteq> cr_Size ref then (Inl ErrCorrupt, st1) else (Inr got, st1)))"

definition loadChunkedPackRun ::
  "('u, 'b, 's) ChunkedStore \<Rightarrow> string \<Rightarrow> packFraming \<Rightarrow> chunkRef list \<Rightarrow> int \<Rightarrow> int \<Rightarrow> ('u, 'b) cs_state \<Rightarrow>
     (serr + bytes list) \<times> ('u, 'b) cs_state" where
  "loadChunkedPackRun C pid fr run minOff maxEnd st = (case chunkedStoredSpan fr minOff maxEnd of
      Inl e \<Rightarrow> (Inl e, st)
    | Inr (storedOff, storedLen, first, fin) \<Rightarrow>
        if storedLen = 0 then (sliceRunFromContent (hexsha C) [] (shiftRun run minOff), st)
        else (case get_blob C pid (pf_bodyBase fr + storedOff) storedLen st of
            (Inl e, st1) \<Rightarrow> (Inl e, st1)
          | (Inr buf, st1) \<Rightarrow>
              (case materializeChunkedWindow (cs_codec C) (pf_chunked fr) first fin buf storedOff of
                 Inl e \<Rightarrow> (Inl e, st1)
               | Inr content \<Rightarrow> (sliceRunFromContent (hexsha C) content (shiftRun run minOff), st1))))"

definition loadCompressedPackRun ::
  "('u, 'b, 's) ChunkedStore \<Rightarrow> string \<Rightarrow> chunkRef list \<Rightarrow> chunkStreamReader \<times> ('u, 'b) cs_state \<Rightarrow>
     (serr + bytes list) \<times> chunkStreamReader \<times> ('u, 'b) cs_state" where
  "loadCompressedPackRun C pid run rs = (case rs of (rd, st) \<Rightarrow>
    (case get_blob C pid 0 (- 1) st of
       (Inl e, st1) \<Rightarrow> (Inl e, rd, st1)
     | (Inr buf, st1) \<Rightarrow>
         (case decompressPackBlob (cs_codec C) buf of
            Inl e \<Rightarrow> (Inl e, rd, st1)
          | Inr raw \<Rightarrow> (sliceRunFromContent (hexsha C) raw run, rd\<lparr>rd_cachedPackID := pid, rd_cachedPack := Some raw\<rparr>, st1))))"

text \<open>The window of a run: least offset and greatest end.\<close>

definition run_min :: "chunkRef list \<Rightarrow> int" where
  "run_min run = fold (\<lambda>ref m. if cr_Offset ref < m then cr_Offset ref else m) run (cr_Offset (hd run))"

definition run_max :: "chunkRef list \<Rightarrow> int" where
  "run_max run = fold (\<lambda>ref m. if m < cr_Offset ref + cr_Size ref then cr_Offset ref + cr_Size ref else m) run 0"

definition loadPackRun ::
  "('u, 'b, 's) ChunkedStore \<Rightarrow> string \<Rightarrow> chunkRef list \<Rightarrow> chunkStreamReader \<times> ('u, 'b) cs_state \<Rightarrow>
     (serr + bytes list) \<times> chunkStreamReader \<times> ('u, 'b) cs_state" where
  "loadPackRun C packHash run rs = (case rs of (rd, st) \<Rightarrow>
    (let pid = packBlobID (cm_Tenant (rd_manifest rd)) packHash; minOff = run_min run; maxEnd = run_max run
     in if rd_cachedPackID rd = pid \<and> rd_cachedPack rd \<noteq> None
        then (sliceRunFromContent (hexsha C) (the (rd_cachedPack rd)) run, rd, st)
        else if minOff < 0 \<or> maxEnd < minOff then (Inl ErrOther, rd, st)
        else if maxEnd - minOff \<le> 0 then (sliceRunFromContent (hexsha C) [] (shiftRun run minOff), rd, st)
        else (case framingFor C pid st of
            (Inl e, st1) \<Rightarrow> (Inl e, rd, st1)
          | (Inr fr, st1) \<Rightarrow>
              if pf_algo fr = packAlgoChunked
              then (case loadChunkedPackRun C pid fr run minOff maxEnd st1 of
                  (Inr cs, st2) \<Rightarrow> (Inr cs, rd, st2)
                | (Inl e, st2) \<Rightarrow>
                    if e = ErrMissingBlob \<or> e = ErrCorrupt then (Inl e, rd, st2) else loadCompressedPackRun C pid run (rd, st2))
              else if pf_algo fr \<noteq> CompressNone then loadCompressedPackRun C pid run (rd, st1)
              else (case get_blob C pid (pf_contentBase fr + minOff) (maxEnd - minOff) st1 of
                  (Inl e, st2) \<Rightarrow> if e = ErrMissingBlob then (Inl e, rd, st2) else loadCompressedPackRun C pid run (rd, st2)
                | (Inr buf, st2) \<Rightarrow> (sliceRunFromContent (hexsha C) buf (shiftRun run minOff), rd, st2)))))"

definition loadNextRun ::
  "('u, 'b, 's) ChunkedStore \<Rightarrow> chunkStreamReader \<times> ('u, 'b) cs_state \<Rightarrow> serr option \<times> chunkStreamReader \<times> ('u, 'b) cs_state" where
  "loadNextRun C rs = (case rs of (rd, st) \<Rightarrow>
    (let refs = drop (rd_cursorIdx rd) (cm_Chunks (rd_manifest rd)); ref = hd refs
     in if cr_PackHash ref = []
        then (let rd1 = rd\<lparr>rd_cursorIdx := Suc (rd_cursorIdx rd)\<rparr>
              in case loadStandaloneChunk C rd1 ref st of
                   (Inl e, st1) \<Rightarrow> (Some e, rd1, st1)
                 | (Inr chunk, st1) \<Rightarrow> (None, rd1\<lparr>rd_queued := [chunk]\<rparr>, st1))
        else (let run = ref # takeWhile (\<lambda>r. cr_PackHash r = cr_PackHash ref) (tl refs);
                  rd1 = rd\<lparr>rd_cursorIdx := rd_cursorIdx rd + length run\<rparr>
              in case loadPackRun C (cr_PackHash ref) run (rd1, st) of
                   (Inl e, rd2, st1) \<Rightarrow> (Some e, rd2, st1)
                 | (Inr cs, rd2, st1) \<Rightarrow> (None, rd2\<lparr>rd_queued := cs\<rparr>, st1))))"

subsection \<open>Reading\<close>

text \<open>
  One \<open>Read\<close> into a buffer of \<open>n\<close> bytes; \<open>None\<close> is the end of the stream.  A run never is empty, so that taking its
  first chunk does not panic.
\<close>

definition Reader_Read ::
  "('u, 'b, 's) ChunkedStore \<Rightarrow> nat \<Rightarrow> chunkStreamReader \<times> ('u, 'b) cs_state \<Rightarrow>
     (serr + bytes option) \<times> chunkStreamReader \<times> ('u, 'b) cs_state" where
  "Reader_Read C n rs = (case rs of (rd, st) \<Rightarrow>
    (let hand = (\<lambda>(rd, st). (Inr (Some (take n (rd_current rd))), rd\<lparr>rd_current := drop n (rd_current rd)\<rparr>, st));
         pop = (\<lambda>(rd, st). case rd_queued rd of
             [] \<Rightarrow> (Inl ErrPanicked, rd, st)
           | q # qs \<Rightarrow> hand (rd\<lparr>rd_current := q, rd_queued := qs\<rparr>, st))
     in if rd_current rd \<noteq> [] then hand (rd, st)
        else if rd_queued rd \<noteq> [] then pop (rd, st)
        else if length (cm_Chunks (rd_manifest rd)) \<le> rd_cursorIdx rd then (Inr None, rd, st)
        else (case loadNextRun C (rd, st) of
            (Some e, rd1, st1) \<Rightarrow> (Inl e, rd1, st1)
          | (None, rd1, st1) \<Rightarrow> pop (rd1, st1))))"

definition newChunkStreamReader :: "chunkManifest \<Rightarrow> chunkStreamReader" where
  "newChunkStreamReader m = \<lparr>rd_manifest = m, rd_cursorIdx = 0, rd_current = [], rd_cachedPackID = [], rd_cachedPack = None, rd_queued = []\<rparr>"

definition openManifest :: "chunkManifest \<Rightarrow> serr + chunkStreamReader" where
  "openManifest m =
    (if cm_Format m = manifestFormatV1 then Inr (newChunkStreamReader (m\<lparr>cm_Format := manifestFormatV2\<rparr>))
     else if cm_Format m = manifestFormatV2 then Inr (newChunkStreamReader m)
     else Inl ErrOther)"

definition ChunkedStore_Get ::
  "('u, 'b, 's) ChunkedStore \<Rightarrow> SnapshotKey \<Rightarrow> string \<Rightarrow> ('u, 'b) cs_state \<Rightarrow> (serr + chunkStreamReader \<times> SnapshotMetadata) \<times> ('u, 'b) cs_state" where
  "ChunkedStore_Get C key version st = (case ss_Get (cs_upstream C) key version (st_up st) of
      (Inl e, u) \<Rightarrow> (Inl e, st\<lparr>st_up := u\<rparr>)
    | (Inr (m, meta), u) \<Rightarrow> (case openManifest m of Inl e \<Rightarrow> Inl e | Inr rd \<Rightarrow> Inr (rd, meta), st\<lparr>st_up := u\<rparr>))"

definition ChunkedStore_GetLatest ::
  "('u, 'b, 's) ChunkedStore \<Rightarrow> SnapshotKey \<Rightarrow> ('u, 'b) cs_state \<Rightarrow> (serr + chunkStreamReader \<times> SnapshotMetadata) \<times> ('u, 'b) cs_state" where
  "ChunkedStore_GetLatest C key st = (case ss_GetLatest (cs_upstream C) key (st_up st) of
      (Inl e, u) \<Rightarrow> (Inl e, st\<lparr>st_up := u\<rparr>)
    | (Inr (m, meta), u) \<Rightarrow> (case openManifest m of Inl e \<Rightarrow> Inl e | Inr rd \<Rightarrow> Inr (rd, meta), st\<lparr>st_up := u\<rparr>))"

definition lift_up :: "('u \<Rightarrow> 'a \<times> 'u) \<Rightarrow> ('u, 'b) cs_state \<Rightarrow> 'a \<times> ('u, 'b) cs_state" where
  "lift_up op st = (case op (st_up st) of (r, u) \<Rightarrow> (r, st\<lparr>st_up := u\<rparr>))"

definition ChunkedStore_GetLatestMetadata :: "('u, 'b, 's) ChunkedStore \<Rightarrow> SnapshotKey \<Rightarrow> ('u, 'b) cs_state \<Rightarrow> (serr + SnapshotMetadata) \<times> ('u, 'b) cs_state" where
  "ChunkedStore_GetLatestMetadata C key = lift_up (ss_GetLatestMetadata (cs_upstream C) key)"

definition ChunkedStore_List :: "('u, 'b, 's) ChunkedStore \<Rightarrow> SnapshotKey \<Rightarrow> ('u, 'b) cs_state \<Rightarrow> (serr + SnapshotMetadata list) \<times> ('u, 'b) cs_state" where
  "ChunkedStore_List C key = lift_up (ss_List (cs_upstream C) key)"

definition ChunkedStore_Walk ::
  "('u, 'b, 's) ChunkedStore \<Rightarrow> ('u, 'b) cs_state \<Rightarrow> (serr + (SnapshotKey \<times> string \<times> SnapshotMetadata) list) \<times> ('u, 'b) cs_state" where
  "ChunkedStore_Walk C = lift_up (ss_Walk (cs_upstream C))"

definition ChunkedStore_Delete :: "('u, 'b, 's) ChunkedStore \<Rightarrow> SnapshotKey \<Rightarrow> string \<Rightarrow> ('u, 'b) cs_state \<Rightarrow> serr option \<times> ('u, 'b) cs_state" where
  "ChunkedStore_Delete C key version = lift_up (ss_Delete (cs_upstream C) key version)"

section \<open>Progress of the reader\<close>

lemma loadPackRun_frame:
  assumes "loadPackRun C ph run (rd, st) = (r, rd', st')"
  shows "rd_manifest rd' = rd_manifest rd \<and> rd_cursorIdx rd' = rd_cursorIdx rd \<and> rd_current rd' = rd_current rd \<and> rd_queued rd' = rd_queued rd"
proof -
  have "rd_manifest rd' = rd_manifest rd \<and> rd_cursorIdx rd' = rd_cursorIdx rd \<and> rd_current rd' = rd_current rd \<and> rd_queued rd' = rd_queued rd"
    if "loadCompressedPackRun C pid run (rd, s) = (r, rd', st')" for pid s
    using that by (auto simp: loadCompressedPackRun_def split: prod.splits sum.splits)
  then show ?thesis using assms unfolding loadPackRun_def Let_def by (auto split: prod.splits sum.splits if_splits)
qed

lemma loadNextRun_cursor:
  assumes "loadNextRun C (rd, st) = (e, rd', st')" and "rd_cursorIdx rd < length (cm_Chunks (rd_manifest rd))"
  shows "rd_cursorIdx rd < rd_cursorIdx rd' \<and> rd_manifest rd' = rd_manifest rd \<and> rd_current rd' = rd_current rd"
proof -
  let ?refs = "drop (rd_cursorIdx rd) (cm_Chunks (rd_manifest rd))"
  show ?thesis
  proof (cases "cr_PackHash (hd ?refs) = []")
    case True
    then show ?thesis using assms(1) by (auto simp: loadNextRun_def Let_def split: prod.splits sum.splits)
  next
    case False
    let ?run = "hd ?refs # takeWhile (\<lambda>r. cr_PackHash r = cr_PackHash (hd ?refs)) (tl ?refs)"
    let ?rd1 = "rd\<lparr>rd_cursorIdx := rd_cursorIdx rd + length ?run\<rparr>"
    obtain r rd2 st2 where l: "loadPackRun C (cr_PackHash (hd ?refs)) ?run (?rd1, st) = (r, rd2, st2)" by (rule prod_cases3)
    show ?thesis using assms(1) False l loadPackRun_frame [OF l] unfolding loadNextRun_def Let_def by (cases r) auto
  qed
qed

definition rd_measure :: "chunkStreamReader \<Rightarrow> nat \<times> nat \<times> nat" where
  "rd_measure rd = (length (cm_Chunks (rd_manifest rd)) - rd_cursorIdx rd, length (rd_queued rd), length (rd_current rd))"

lemma Reader_Read_progress:
  assumes "Reader_Read C n (rd, st) = (Inr (Some bs), rd', st')" and "0 < n"
  shows "(rd_measure rd', rd_measure rd) \<in> less_than <*lex*> less_than <*lex*> less_than"
proof (cases "rd_current rd = [] \<and> rd_queued rd = []")
  case True
  then have c: "rd_cursorIdx rd < length (cm_Chunks (rd_manifest rd))"
    using assms(1) by (auto simp: Reader_Read_def split: if_splits)
  obtain e rd1 st1 where l: "loadNextRun C (rd, st) = (e, rd1, st1)" by (rule prod_cases3)
  note f = loadNextRun_cursor [OF l c]
  have "rd_cursorIdx rd' = rd_cursorIdx rd1 \<and> rd_manifest rd' = rd_manifest rd1"
    using assms(1) True c l by (cases "rd_queued rd1"; cases e) (auto simp: Reader_Read_def)
  then have "length (cm_Chunks (rd_manifest rd')) - rd_cursorIdx rd' < length (cm_Chunks (rd_manifest rd)) - rd_cursorIdx rd"
    using f c by (simp add: diff_less_mono2)
  then show ?thesis by (simp add: rd_measure_def)
next
  case False
  show ?thesis
  proof (cases "rd_current rd = []")
    case True
    then obtain q qs where q: "rd_queued rd = q # qs" using False by (cases "rd_queued rd") auto
    then show ?thesis using assms(1) True by (auto simp: Reader_Read_def rd_measure_def)
  next
    case False
    then show ?thesis using assms by (cases "rd_current rd") (auto simp: Reader_Read_def rd_measure_def)
  qed
qed

text \<open>\<open>io.ReadAll\<close>; the size of its buffer only decides how the bytes are cut.\<close>

function ReadAll :: "('u, 'b, 's) ChunkedStore \<Rightarrow> bytes \<Rightarrow> chunkStreamReader \<times> ('u, 'b) cs_state \<Rightarrow> (serr + bytes) \<times> ('u, 'b) cs_state" where
  "ReadAll C acc rs = (case Reader_Read C 512 rs of
      (Inl e, _, st') \<Rightarrow> (Inl e, st')
    | (Inr None, _, st') \<Rightarrow> (Inr acc, st')
    | (Inr (Some bs), rs') \<Rightarrow> ReadAll C (acc @ bs) rs')"
  by pat_completeness auto
termination
proof (relation "inv_image (less_than <*lex*> less_than <*lex*> less_than) (\<lambda>(C, acc, rs). rd_measure (fst rs))", goal_cases)
  case 1
  then show ?case by (intro wf_inv_image wf_lex_prod wf_less_than)
next
  case (2 C acc rs a rs' r y)
  then show ?case using Reader_Read_progress [of C 512 "fst rs" "snd rs" y "fst rs'" "snd rs'"] by simp
qed

declare ReadAll.simps [simp del]

section \<open>What a read returns\<close>

text \<open>Every chunk handed out hashes to what the manifest says.\<close>

lemma slice_hashes: "sliceRunFromContent hash content run = Inr cs \<Longrightarrow> map hash cs = map cr_Hash run"
  by (induction run arbitrary: cs) (auto simp: Let_def split: if_splits sum.splits)

lemma shift_hashes [simp]: "map cr_Hash (shiftRun run b) = map cr_Hash run"
  by (simp add: shiftRun_def)

lemma slice_shift_hashes: "sliceRunFromContent hash content (shiftRun run b) = Inr cs \<Longrightarrow> map hash cs = map cr_Hash run"
  using slice_hashes [of hash content "shiftRun run b" cs] by simp

lemma compressed_hashes: "loadCompressedPackRun C pid run rs = (Inr cs, rs') \<Longrightarrow> map (hexsha C) cs = map cr_Hash run"
  by (auto simp: loadCompressedPackRun_def split: prod.splits sum.splits dest: slice_hashes)

lemma chunked_hashes: "loadChunkedPackRun C pid fr run lo hi st = (Inr cs, st') \<Longrightarrow> map (hexsha C) cs = map cr_Hash run"
  unfolding loadChunkedPackRun_def by (auto split: prod.splits sum.splits if_splits dest: slice_shift_hashes)

lemma loadPackRun_hashes:
  assumes "loadPackRun C ph run rs = (Inr cs, rs')"
  shows "map (hexsha C) cs = map cr_Hash run"
  using assms unfolding loadPackRun_def Let_def
  by (auto split: prod.splits sum.splits if_splits dest: slice_hashes slice_shift_hashes compressed_hashes chunked_hashes)

lemma loadNextRun_hashes:
  assumes l: "loadNextRun C (rd, st) = (None, rd', st')" and c: "rd_cursorIdx rd < length (cm_Chunks (rd_manifest rd))"
    and p: "cr_PackHash (cm_Chunks (rd_manifest rd) ! rd_cursorIdx rd) \<noteq> []"
  shows "\<exists>run. drop (rd_cursorIdx rd) (cm_Chunks (rd_manifest rd)) = run @ drop (rd_cursorIdx rd') (cm_Chunks (rd_manifest rd)) \<and>
    run \<noteq> [] \<and> map (hexsha C) (rd_queued rd') = map cr_Hash run"
proof -
  let ?refs = "drop (rd_cursorIdx rd) (cm_Chunks (rd_manifest rd))"
  let ?P = "\<lambda>r. cr_PackHash r = cr_PackHash (hd ?refs)"
  let ?run = "hd ?refs # takeWhile ?P (tl ?refs)"
  let ?rd1 = "rd\<lparr>rd_cursorIdx := rd_cursorIdx rd + length ?run\<rparr>"
  have refs: "?refs \<noteq> []" "cr_PackHash (hd ?refs) \<noteq> []" using c p by (simp_all add: hd_drop_conv_nth)
  obtain r rd2 st2 where q: "loadPackRun C (cr_PackHash (hd ?refs)) ?run (?rd1, st) = (r, rd2, st2)" by (rule prod_cases3)
  have "r = Inr (rd_queued rd') \<and> rd_cursorIdx rd' = rd_cursorIdx rd2"
    using l refs(2) q unfolding loadNextRun_def Let_def by (cases r) auto
  then have h: "map (hexsha C) (rd_queued rd') = map cr_Hash ?run" and cu: "rd_cursorIdx rd' = rd_cursorIdx rd + length ?run"
    using loadPackRun_hashes [of C _ ?run] q loadPackRun_frame [OF q] by auto
  define run where "run = ?run"
  have split: "?refs = run @ dropWhile ?P (tl ?refs)" using refs(1) unfolding run_def by (cases ?refs) simp_all
  have "drop (length run) ?refs = dropWhile ?P (tl ?refs)" using split by (metis append_eq_conv_conj)
  then have "drop (rd_cursorIdx rd') (cm_Chunks (rd_manifest rd)) = dropWhile ?P (tl ?refs)"
    unfolding cu run_def [symmetric] by (simp add: add.commute)
  moreover have "map (hexsha C) (rd_queued rd') = map cr_Hash run" "run \<noteq> []" using h by (simp_all add: run_def)
  ultimately show ?thesis using split by metis
qed

definition rd_rest :: "chunkStreamReader \<Rightarrow> chunkRef list" where
  "rd_rest rd = drop (rd_cursorIdx rd) (cm_Chunks (rd_manifest rd))"

lemma Reader_Read_hashes:
  assumes "Reader_Read C n (rd, st) = (Inr r, rd', st')" and "\<forall>ref \<in> set (rd_rest rd). cr_PackHash ref \<noteq> []"
  shows "case r of
      None \<Rightarrow> rd_current rd = [] \<and> rd_queued rd = [] \<and> rd_rest rd = []
    | Some bs \<Rightarrow> \<exists>run css. rd_rest rd = run @ rd_rest rd' \<and> map (hexsha C) css = map cr_Hash run \<and>
        rd_current rd @ concat (rd_queued rd) @ concat css = bs @ rd_current rd' @ concat (rd_queued rd')"
proof (cases "rd_current rd = [] \<and> rd_queued rd = []")
  case False
  then show ?thesis using assms(1)
    by (cases "rd_current rd"; cases "rd_queued rd") (auto simp: Reader_Read_def rd_rest_def intro!: exI [of _ "[]"])
next
  case True
  show ?thesis
  proof (cases "rd_cursorIdx rd < length (cm_Chunks (rd_manifest rd))")
    case False
    then show ?thesis using True assms(1) by (auto simp: Reader_Read_def rd_rest_def)
  next
    case c: True
    obtain e rd1 st1 where l: "loadNextRun C (rd, st) = (e, rd1, st1)" by (rule prod_cases3)
    have e: "e = None" using assms(1) True c l by (cases e) (simp_all add: Reader_Read_def)
    have "cr_PackHash (cm_Chunks (rd_manifest rd) ! rd_cursorIdx rd) \<noteq> []"
      using assms(2) c by (auto simp: rd_rest_def Cons_nth_drop_Suc [OF c, symmetric])
    from loadNextRun_hashes [OF l [unfolded e] c this] obtain run where run: "rd_rest rd = run @ drop (rd_cursorIdx rd1) (cm_Chunks (rd_manifest rd))"
      "map (hexsha C) (rd_queued rd1) = map cr_Hash run" "run \<noteq> []" by (auto simp: rd_rest_def)
    from run(2,3) obtain q qs where q: "rd_queued rd1 = q # qs" by (cases "rd_queued rd1") auto
    have "r = Some (take n q)" "rd' = rd1\<lparr>rd_current := drop n q, rd_queued := qs\<rparr>"
      using assms(1) True c l e q by (auto simp: Reader_Read_def)
    then show ?thesis using True run loadNextRun_cursor [OF l c] q
      by (auto simp: rd_rest_def intro!: exI [of _ run] exI [of _ "rd_queued rd1"])
  qed
qed

lemma ReadAll_hashes:
  assumes "ReadAll C acc rs = (Inr bs, st')" and "\<forall>ref \<in> set (rd_rest (fst rs)). cr_PackHash ref \<noteq> []"
  shows "\<exists>css. bs = acc @ rd_current (fst rs) @ concat (rd_queued (fst rs)) @ concat css \<and> map (hexsha C) css = map cr_Hash (rd_rest (fst rs))"
  using assms
proof (induction C acc rs rule: ReadAll.induct)
  case (1 C acc rs)
  obtain r rd' s' where rr: "Reader_Read C 512 (fst rs, snd rs) = (r, rd', s')" by (rule prod_cases3)
  show ?case
  proof (cases r)
    case (Inl e)
    then show ?thesis using 1(2) rr by (simp add: ReadAll.simps [of C acc rs])
  next
    case (Inr o')
    note h = Reader_Read_hashes [OF rr [unfolded Inr] 1(3)]
    show ?thesis
    proof (cases o')
      case None
      then show ?thesis using 1(2) rr Inr h by (simp add: ReadAll.simps [of C acc rs])
    next
      case (Some b)
      then obtain run css where run: "rd_rest (fst rs) = run @ rd_rest rd'" "map (hexsha C) css = map cr_Hash run"
        "rd_current (fst rs) @ concat (rd_queued (fst rs)) @ concat css = b @ rd_current rd' @ concat (rd_queued rd')" using h by auto
      have "ReadAll C (acc @ b) (rd', s') = (Inr bs, st')" using 1(2) rr Inr Some by (simp add: ReadAll.simps [of C acc rs])
      from 1(1) [OF _ Inr Some this] obtain css' where
        "bs = (acc @ b) @ rd_current rd' @ concat (rd_queued rd') @ concat css'" "map (hexsha C) css' = map cr_Hash (rd_rest rd')"
        using rr 1(3) run(1) by auto
      then have "bs = acc @ (rd_current (fst rs) @ concat (rd_queued (fst rs)) @ concat css) @ concat css'" using run(3) by simp
      then show ?thesis using run \<open>map (hexsha C) css' = map cr_Hash (rd_rest rd')\<close> by (intro exI [of _ "css @ css'"]) simp
    qed
  qed
qed

text \<open>
  Reading touches only the state of the blob storage and the framing cache, and of the blob storage only what getting a
  blob touches: \<open>g\<close> is what gets leave as it is.
\<close>

definition gets_keep :: "('u, 'b, 's) ChunkedStore \<Rightarrow> ('b \<Rightarrow> 'x) \<Rightarrow> bool" where
  "gets_keep C g \<longleftrightarrow> (\<forall>i off n b. g (snd (bs_GetBlob (cs_chunks C) i off n b)) = g b)"

definition read_only :: "('b \<Rightarrow> 'x) \<Rightarrow> ('u, 'b) cs_state \<Rightarrow> ('u, 'b) cs_state \<Rightarrow> bool" where
  "read_only g st st' \<longleftrightarrow> st_up st' = st_up st \<and> st_dedup st' = st_dedup st \<and> g (st_blobs st') = g (st_blobs st)"

lemma read_only_refl [simp]: "read_only g st st"
  and read_only_trans: "read_only g st st1 \<Longrightarrow> read_only g st1 st2 \<Longrightarrow> read_only g st st2"
  by (simp_all add: read_only_def)

lemma gets_keep_unit: "gets_keep C (\<lambda>_. ())"
  by (simp add: gets_keep_def)

lemma get_blob_only: "gets_keep C g \<Longrightarrow> get_blob C i off n st = (r, st') \<Longrightarrow> read_only g st st'"
  by (auto simp: get_blob_def read_only_def gets_keep_def split: prod.splits sum.splits) (metis snd_conv)+

lemma probe_only: "gets_keep C g \<Longrightarrow> probePackFraming C pid st = (r, st') \<Longrightarrow> read_only g st st'"
  unfolding probePackFraming_def
  by (auto split: prod.splits sum.splits if_splits dest!: get_blob_only [rotated] intro: read_only_trans)

lemma framingFor_only: "gets_keep C g \<Longrightarrow> framingFor C pid st = (r, st') \<Longrightarrow> read_only g st st'"
  by (auto simp: framingFor_def read_only_def split: option.splits prod.splits sum.splits dest!: probe_only [rotated])

lemma standalone_only: "gets_keep C g \<Longrightarrow> loadStandaloneChunk C rd ref st = (r, st') \<Longrightarrow> read_only g st st'"
  by (auto simp: loadStandaloneChunk_def split: prod.splits sum.splits if_splits dest!: get_blob_only [rotated])

lemma chunkedRun_only: "gets_keep C g \<Longrightarrow> loadChunkedPackRun C pid fr run lo hi st = (r, st') \<Longrightarrow> read_only g st st'"
  unfolding loadChunkedPackRun_def by (auto split: prod.splits sum.splits if_splits dest!: get_blob_only [rotated])

lemma compressedRun_only: "gets_keep C g \<Longrightarrow> loadCompressedPackRun C pid run (rd, st) = (r, rd', st') \<Longrightarrow> read_only g st st'"
  by (auto simp: loadCompressedPackRun_def split: prod.splits sum.splits dest!: get_blob_only [rotated])

lemma loadPackRun_only: "gets_keep C g \<Longrightarrow> loadPackRun C ph run (rd, st) = (r, rd', st') \<Longrightarrow> read_only g st st'"
  unfolding loadPackRun_def Let_def
  by (auto split: prod.splits sum.splits if_splits dest!: framingFor_only [rotated] get_blob_only [rotated] chunkedRun_only [rotated] compressedRun_only [rotated]
      intro: read_only_trans)

lemma loadNextRun_only: "gets_keep C g \<Longrightarrow> loadNextRun C (rd, st) = (r, rd', st') \<Longrightarrow> read_only g st st'"
  unfolding loadNextRun_def Let_def
  by (auto split: prod.splits sum.splits if_splits dest!: standalone_only [rotated] loadPackRun_only [rotated])

lemma Reader_Read_only:
  assumes g: "gets_keep C g" and run: "Reader_Read C n (rd, st) = (r, rd', st')"
  shows "read_only g st st'"
proof -
  obtain e rd1 st1 where l: "loadNextRun C (rd, st) = (e, rd1, st1)" by (rule prod_cases3)
  show ?thesis using run l loadNextRun_only [OF g l]
    by (cases e; cases "rd_queued rd1"; cases "rd_queued rd") (auto simp: Reader_Read_def Let_def split: if_splits)
qed

lemma ReadAll_only: "gets_keep C g \<Longrightarrow> ReadAll C acc rs = (r, st') \<Longrightarrow> read_only g (snd rs) st'"
proof (induction C acc rs rule: ReadAll.induct)
  case (1 C acc rs)
  obtain q rd' s' where rr: "Reader_Read C 512 (fst rs, snd rs) = (q, rd', s')" by (rule prod_cases3)
  note ro = Reader_Read_only [OF 1(2) rr]
  show ?case
  proof (cases "\<exists>b. q = Inr (Some b)")
    case False
    then show ?thesis using 1(3) rr ro by (auto simp: ReadAll.simps [of C acc rs] split: sum.splits option.splits)
  next
    case True
    then obtain b where b: "q = Inr (Some b)" by blast
    then have "ReadAll C (acc @ b) (rd', s') = (r, st')" using 1(3) rr by (simp add: ReadAll.simps [of C acc rs])
    from 1(1) [OF _ b refl 1(2) this] show ?thesis using rr ro by (auto intro: read_only_trans)
  qed
qed

end
