(* ===== verification/Chunked_Put.thy ===== *)
theory Chunked_Put
  imports Chunked_Read
begin

text \<open>
  What a put stores: the chunks of the manifest are the pieces of the stream, in order, whatever the splitter, the
  dedup index and the packs do.  Together with the hash checks of the reader a read can only return what was put.
\<close>

section \<open>Streams\<close>

text \<open>The bytes that a reader delivers up to its end.\<close>

fun reader_bytes :: "reader \<Rightarrow> bytes" where
  "reader_bytes [] = []"
| "reader_bytes ((data, err) # r) = data @ (if err = None then reader_bytes r else [])"

lemma concat_blocks: "0 < n \<Longrightarrow> concat (blocks n data) = data"
  by (induction n data rule: blocks.induct) (subst blocks.simps, auto)

lemma bytesReader_bytes [simp]: "reader_bytes (bytesReader data) = data"
proof -
  have "reader_bytes (map (\<lambda>d. (d, None)) ds) = concat ds" for ds by (induction ds) simp_all
  then show ?thesis by (simp add: bytesReader_def readBufSize_def concat_blocks)
qed

text \<open>
  An invariant \<open>I\<close> of the pieces emitted so far, and one \<open>J\<close> of the state that holds even when emitting fails; it may
  count the bytes emitted.
\<close>

lemma split_block_inv:
  assumes I: "\<And>cur x x' ps. emit cur x = (None, x') \<Longrightarrow> I ps x \<Longrightarrow> I (ps @ [cur]) x'"
    and J: "\<And>cur x q x' k. emit cur x = (q, x') \<Longrightarrow> J k x \<Longrightarrow> J (k + length cur) x'"
    and "split_block sp emit data s cur x = (q, s', cur', x')"
  shows "(J k x \<longrightarrow> (\<exists>k'. J k' x' \<and> k' + (if q = None then length cur' else 0) \<le> k + length cur + length data)) \<and>
    (q = None \<longrightarrow> I ps x \<longrightarrow> (\<exists>ps'. I (ps @ ps') x' \<and> concat ps' @ cur' = cur @ data))"
  using assms(3)
proof (induction "length data" arbitrary: data s cur x ps k rule: less_induct)
  case less
  obtain c t where n: "sp_next sp data s = (c, t)" by (rule prod.exhaust)
  note run = less.prems [unfolded split_block.simps [of sp emit data s cur x]]
  consider (stop) "data = []" | (whole) "data \<noteq> []" "c = None" | (cut) j where "data \<noteq> []" "c = Some j" by (cases c) auto
  then show ?case
  proof cases
    case stop
    then show ?thesis using run by (auto intro: exI [of _ "[]"] exI [of _ k])
  next
    case whole
    then show ?thesis using run n by (auto intro: exI [of _ "[]"] exI [of _ k])
  next
    case cut
    let ?piece = "cur @ take (Suc j) data"
    obtain e y where e: "emit ?piece x = (e, y)" by (rule prod.exhaust)
    have le: "length ?piece + length (drop (Suc j) data) = length cur + length data" by simp
    show ?thesis
    proof (cases e)
      case (Some er)
      have "k + length ?piece \<le> k + length cur + length data" using le by linarith
      then show ?thesis using run n cut e Some J [OF e, of k] by auto
    next
      case None
      then have rec: "split_block sp emit (drop (Suc j) data) t [] y = (q, s', cur', x')" using run n cut e by simp
      have "length (drop (Suc j) data) < length data" using cut by (cases data) simp_all
      note ih = less.hyps [OF this rec, of "k + length ?piece" "ps @ [?piece]"]
      have "\<exists>k'. J k' x' \<and> k' + (if q = None then length cur' else 0) \<le> k + length cur + length data" if "J k x"
        using conjunct1 [OF ih] J [OF e that] le by (auto simp del: length_append)
      moreover have "\<exists>ps'. I (ps @ ps') x' \<and> concat ps' @ cur' = cur @ data" if "q = None" "I ps x"
      proof -
        from conjunct2 [OF ih] that I [OF e [unfolded None]]
        obtain ps' where "I ((ps @ [?piece]) @ ps') x'" "concat ps' @ cur' = drop (Suc j) data" by auto
        then show ?thesis by (intro exI [of _ "?piece # ps'"]) simp
      qed
      ultimately show ?thesis by blast
    qed
  qed
qed

lemma read_split_inv:
  assumes I: "\<And>cur x x' ps. emit cur x = (None, x') \<Longrightarrow> I ps x \<Longrightarrow> I (ps @ [cur]) x'"
    and J: "\<And>cur x q x' k. emit cur x = (q, x') \<Longrightarrow> J k x \<Longrightarrow> J (k + length cur) x'"
    and "read_split sp emit r s cur x = (q, cur', x')"
  shows "(J k x \<longrightarrow> (\<exists>k'. J k' x' \<and> k' + (if q = None then length cur' else 0) \<le> k + length cur + length (reader_bytes r))) \<and>
    (q = None \<longrightarrow> I ps x \<longrightarrow> (\<exists>ps'. I (ps @ ps') x' \<and> concat ps' @ cur' = cur @ reader_bytes r))"
  using assms(3)
proof (induction r arbitrary: s cur x ps k)
  case Nil
  then show ?case by (auto intro: exI [of _ "[]"] exI [of _ k])
next
  case (Cons d r)
  obtain data err where d: "d = (data, err)" by (rule prod.exhaust)
  obtain q1 s1 c1 x1 where sb: "split_block sp emit data s cur x = (q1, s1, c1, x1)" by (rule prod_cases4)
  have b: "(J k x \<longrightarrow> (\<exists>k'. J k' x1 \<and> k' + (if q1 = None then length c1 else 0) \<le> k + length cur + length data)) \<and>
      (q1 = None \<longrightarrow> I ps x \<longrightarrow> (\<exists>ps'. I (ps @ ps') x1 \<and> concat ps' @ c1 = cur @ data))" for ps
    by (rule split_block_inv [OF _ _ sb]) (fact I, fact J)
  show ?case
  proof (cases "q1 = None \<and> err = None")
    case False
    then have e: "x' = x1" "q = None \<longrightarrow> q1 = None \<and> cur' = c1 \<and> err \<noteq> None"
      using Cons.prems d sb by (cases q1; cases err; auto split: bool.splits)+
    have "\<exists>k'. J k' x' \<and> k' + (if q = None then length cur' else 0) \<le> k + length cur + length (reader_bytes (d # r))" if J0: "J k x"
    proof -
      from b J0 obtain k' where "J k' x1" "k' + (if q1 = None then length c1 else 0) \<le> k + length cur + length data" by blast
      then show ?thesis using e d by (intro exI [of _ k']) (auto split: if_splits)
    qed
    then show ?thesis using b [of ps] e d by auto
  next
    case True
    then have rec: "read_split sp emit r s1 c1 x1 = (q, cur', x')" using Cons.prems d sb by simp
    have "\<exists>ps'. I (ps @ ps') x' \<and> concat ps' @ cur' = cur @ reader_bytes (d # r)" if "q = None" "I ps x"
    proof -
      from b [of ps] True that obtain p1 where p1: "I (ps @ p1) x1" "concat p1 @ c1 = cur @ data" by blast
      from Cons.IH [OF rec, where ps = "ps @ p1"] that p1 obtain p2 where "I ((ps @ p1) @ p2) x'" "concat p2 @ cur' = c1 @ reader_bytes r" by blast
      moreover from this p1 have "concat (p1 @ p2) @ cur' = cur @ data @ reader_bytes r" by (metis append.assoc concat_append)
      ultimately show ?thesis using d True by (intro exI [of _ "p1 @ p2"]) simp
    qed
    moreover have "\<exists>k'. J k' x' \<and> k' + (if q = None then length cur' else 0) \<le> k + length cur + length (reader_bytes (d # r))" if J0: "J k x"
    proof -
      from b J0 True obtain k1 where k1: "J k1 x1" "k1 + length c1 \<le> k + length cur + length data" by auto
      from conjunct1 [OF Cons.IH [OF rec, where k = k1]] k1(1)
      obtain k' where "J k' x'" "k' + (if q = None then length cur' else 0) \<le> k1 + length c1 + length (reader_bytes r)" by blast
      then show ?thesis using k1(2) d True by (intro exI [of _ k']) simp
    qed
    ultimately show ?thesis by blast
  qed
qed

lemma split_stream_inv:
  assumes I: "\<And>cur x x' ps. emit cur x = (None, x') \<Longrightarrow> I ps x \<Longrightarrow> I (ps @ [cur]) x'"
    and J: "\<And>cur x q x' k. emit cur x = (q, x') \<Longrightarrow> J k x \<Longrightarrow> J (k + length cur) x'"
    and run: "split_stream sp emit r x = (q, x')"
  shows "(J 0 x \<longrightarrow> (\<exists>k \<le> length (reader_bytes r). J k x')) \<and> (q = None \<longrightarrow> I [] x \<longrightarrow> (\<exists>ps. I ps x' \<and> concat ps = reader_bytes r))"
proof -
  obtain q1 cur x1 where rs: "read_split sp emit r (sp_new sp) [] x = (q1, cur, x1)" by (rule prod_cases3)
  have b: "(J 0 x \<longrightarrow> (\<exists>k'. J k' x1 \<and> k' + (if q1 = None then length cur else 0) \<le> 0 + length ([] :: bytes) + length (reader_bytes r))) \<and>
      (q1 = None \<longrightarrow> I [] x \<longrightarrow> (\<exists>ps'. I ([] @ ps') x1 \<and> concat ps' @ cur = [] @ reader_bytes r))"
    by (rule read_split_inv [OF _ _ rs]) (fact I, fact J)
  show ?thesis
  proof (cases q1)
    case (Some e)
    then show ?thesis using run rs b by (auto simp: split_stream_def)
  next
    case None
    then have em: "emit cur x1 = (q, x')" using run rs by (simp add: split_stream_def)
    have "\<exists>ps. I ps x' \<and> concat ps = reader_bytes r" if "q = None" "I [] x"
    proof -
      from b None that obtain ps where "I ps x1" "concat ps @ cur = reader_bytes r" by auto
      then show ?thesis using I [OF em [unfolded that(1)]] by (intro exI [of _ "ps @ [cur]"]) simp
    qed
    moreover have "\<exists>k \<le> length (reader_bytes r). J k x'" if "J 0 x"
    proof -
      from b None that obtain k where "J k x1" "k + length cur \<le> length (reader_bytes r)" by auto
      then show ?thesis using J [OF em] by blast
    qed
    ultimately show ?thesis by blast
  qed
qed

section \<open>Hashes\<close>

text \<open>
  SHA-256 as content addressing uses it: no collisions, and digests are not empty.  (A function into 32 bytes has
  collisions; that none occurs is the assumption on which content-addressed storage rests.)
\<close>

definition sha_ok :: "(bytes \<Rightarrow> bytes) \<Rightarrow> bool" where
  "sha_ok sha \<longleftrightarrow> inj sha \<and> (\<forall>x. sha x \<noteq> [])"

lemma hex_digit_inj: "m < 16 \<Longrightarrow> n < 16 \<Longrightarrow> hex_digit m = hex_digit n \<Longrightarrow> m = n"
proof -
  have "list_all (\<lambda>m. list_all (\<lambda>n. hex_digit m = hex_digit n \<longrightarrow> m = n) [0..<16]) [0..<16]" by code_simp
  then show "m < 16 \<Longrightarrow> n < 16 \<Longrightarrow> hex_digit m = hex_digit n \<Longrightarrow> m = n" by (simp add: list_all_iff)
qed

lemma hexenc_inj: "hexenc xs = hexenc ys \<Longrightarrow> xs = ys"
proof (induction xs arbitrary: ys)
  case Nil
  then show ?case by (cases ys) (simp_all add: hexenc_def)
next
  case (Cons x xs)
  then obtain y ys' where ys: "ys = y # ys'" by (cases ys) (simp_all add: hexenc_def)
  have b: "unat (z :: u8) < 256" for z using unsigned_less [of z] by simp
  have d: "unat (z :: u8) div 16 < 16" for z using b [of z] by (simp add: less_mult_imp_div_less)
  have "hex_digit (unat x div 16) = hex_digit (unat y div 16)" "hex_digit (unat x mod 16) = hex_digit (unat y mod 16)" "hexenc xs = hexenc ys'"
    using Cons.prems by (simp_all add: ys hexenc_def)
  then have "unat x div 16 = unat y div 16" "unat x mod 16 = unat y mod 16" "xs = ys'"
    using d hex_digit_inj Cons.IH by simp_all
  then have "unat x = unat y" by (metis div_mult_mod_eq)
  then have "x = y" by (simp add: word_unat_eq_iff)
  then show ?case using ys \<open>xs = ys'\<close> by simp
qed

lemma hexsha_eq: "sha_ok (cs_sha C) \<Longrightarrow> hexsha C x = hexsha C y \<longleftrightarrow> x = y"
  using hexenc_inj by (auto simp: sha_ok_def hexsha_def dest: injD)

lemma hexsha_nonempty: "sha_ok (cs_sha C) \<Longrightarrow> hexsha C x \<noteq> []"
proof -
  assume "sha_ok (cs_sha C)"
  then have "cs_sha C x \<noteq> []" by (simp add: sha_ok_def)
  then show ?thesis by (cases "cs_sha C x") (simp_all add: hexsha_def hexenc_def)
qed

lemma map_hexsha_eq: "sha_ok (cs_sha C) \<Longrightarrow> map (hexsha C) xs = map (hexsha C) ys \<longleftrightarrow> xs = ys"
  using hexsha_eq [of C] by (metis injI inj_map_eq_map)

section \<open>The chunks of a manifest\<close>

abbreviation pieces :: "bytes list \<Rightarrow> bytes list" where
  "pieces ps \<equiv> filter (\<lambda>p. p \<noteq> []) ps"

lemma concat_pieces [simp]: "concat (pieces ps) = concat ps"
  by (induction ps) simp_all

definition v2_ok :: "('u, 'b, 's) ChunkedStore \<Rightarrow> bytes list \<Rightarrow> ('u, 'b) v2_state \<Rightarrow> bool" where
  "v2_ok C ps x \<longleftrightarrow> map cr_Hash (v2_chunks x) = map (hexsha C) (pieces ps) \<and>
     (\<forall>i < length (v2_chunks x). cr_PackHash (v2_chunks x ! i) = [] \<longrightarrow> i \<in> en_idx ` set (v2_entries x)) \<and>
     (\<forall>e \<in> set (v2_entries x). en_idx e < length (v2_chunks x)) \<and> (v2_buf x = [] \<longrightarrow> v2_entries x = [])"

lemma set_packs:
  assumes "\<forall>e \<in> set es. en_idx e < length cs"
  shows "length (fold (set_pack ph) es cs) = length cs"
    and "i < length cs \<Longrightarrow> fold (set_pack ph) es cs ! i = (if i \<in> en_idx ` set es then (cs ! i)\<lparr>cr_PackHash := ph\<rparr> else cs ! i)"
proof -
  have "length (fold (set_pack ph) es cs) = length cs \<and>
      (\<forall>i < length cs. fold (set_pack ph) es cs ! i = (if i \<in> en_idx ` set es then (cs ! i)\<lparr>cr_PackHash := ph\<rparr> else cs ! i))"
    using assms
  proof (induction es arbitrary: cs)
    case (Cons e es)
    have "length (set_pack ph e cs) = length cs" by (simp add: set_pack_def)
    with Cons.IH [of "set_pack ph e cs"] Cons.prems show ?case by (auto simp: set_pack_def nth_list_update)
  qed simp
  then show "length (fold (set_pack ph) es cs) = length cs"
    "i < length cs \<Longrightarrow> fold (set_pack ph) es cs ! i = (if i \<in> en_idx ` set es then (cs ! i)\<lparr>cr_PackHash := ph\<rparr> else cs ! i)" by auto
qed

lemma set_packs_hashes:
  assumes "\<forall>e \<in> set es. en_idx e < length cs"
  shows "map cr_Hash (fold (set_pack ph) es cs) = map cr_Hash cs"
  using set_packs [OF assms] by (intro nth_equalityI) auto

lemma flushPack_ok:
  assumes "sha_ok (cs_sha C)" and "v2_ok C ps x" and "flushPack C domain algo x = (None, x')"
  shows "v2_ok C ps x'" and "v2_entries x' = []"
proof -
  let ?ph = "hexsha C (v2_buf x)"
  have idx: "\<forall>e \<in> set (v2_entries x). en_idx e < length (v2_chunks x)" using assms(2) by (simp add: v2_ok_def)
  have f: "v2_chunks x' = fold (set_pack ?ph) (v2_entries x) (v2_chunks x)" "v2_entries x' = []" "v2_buf x' = []"
    using assms(2,3) by (auto simp: flushPack_def Let_def v2_ok_def split: if_splits sum.splits prod.splits option.splits)
  show "v2_entries x' = []" by (rule f(2))
  show "v2_ok C ps x'"
    using assms(2) hexsha_nonempty [OF assms(1), of "v2_buf x"]
    unfolding v2_ok_def f set_packs_hashes [OF idx] by (auto simp: set_packs [OF idx] split: if_splits)
qed

lemma emitChunk_ok:
  assumes "sha_ok (cs_sha C)" and "v2_ok C ps x" and "emitChunk C domain algo cur x = (None, x')"
  shows "v2_ok C (ps @ [cur]) x'"
proof (cases "cur = []")
  case True
  then show ?thesis using assms by (simp add: emitChunk_def v2_ok_def)
next
  case False
  show ?thesis
  proof (cases "reusable (hexsha C cur) (sess_Lookup (v2_sess x) (hexsha C cur) (st_dedup (v2_st x)))")
    case (Some ref)
    then have "pr_PackHash ref \<noteq> []" by (auto simp: reusable_def split: option.splits if_splits)
    then show ?thesis using assms Some False by (auto simp: emitChunk_def Let_def v2_ok_def nth_append less_Suc_eq)
  next
    case None
    define x1 where "x1 = x\<lparr>v2_buf := v2_buf x @ cur,
        v2_chunks := v2_chunks x @ [\<lparr>cr_Hash = hexsha C cur, cr_PackHash = [], cr_Offset = int (length (v2_buf x)), cr_Size = int (length cur)\<rparr>],
        v2_total := v2_total x + int (length cur),
        v2_entries := v2_entries x @ [\<lparr>en_idx = length (v2_chunks x), en_offset = int (length (v2_buf x)), en_size = int (length cur)\<rparr>]\<rparr>"
    have "v2_ok C (ps @ [cur]) x1" using assms(2) False by (auto simp: v2_ok_def x1_def nth_append less_Suc_eq)
    moreover have "x' = x1 \<or> flushPack C domain algo x1 = (None, x')"
      using assms(3) False None by (auto simp: emitChunk_def Let_def x1_def split: if_splits)
    ultimately show ?thesis using flushPack_ok(1) [OF assms(1)] by blast
  qed
qed

lemma flushPack_up: "flushPack C domain algo x = (q, x') \<Longrightarrow> st_up (v2_st x') = st_up (v2_st x)"
  by (auto simp: flushPack_def Let_def split: if_splits sum.splits prod.splits option.splits)

lemma emitChunk_up: "emitChunk C domain algo cur x = (q, x') \<Longrightarrow> st_up (v2_st x') = st_up (v2_st x)"
  by (auto simp: emitChunk_def Let_def split: if_splits option.splits dest!: flushPack_up)

text \<open>A manifest whose chunks are the pieces of some bytes, all of them in packs.\<close>

definition describes :: "('u, 'b, 's) ChunkedStore \<Rightarrow> chunkManifest \<Rightarrow> bytes \<Rightarrow> bool" where
  "describes C m data \<longleftrightarrow> (\<exists>ps. concat ps = data \<and> map cr_Hash (cm_Chunks m) = map (hexsha C) ps) \<and>
     (\<forall>ref \<in> set (cm_Chunks m). cr_PackHash ref \<noteq> [])"

lemma describes_unique: "sha_ok (cs_sha C) \<Longrightarrow> describes C m x \<Longrightarrow> describes C m y \<Longrightarrow> x = y"
  unfolding describes_def using map_hexsha_eq [of C] by metis

text \<open>Reading a manifest gives the bytes it describes, or an error.\<close>

lemma read_described:
  assumes "sha_ok (cs_sha C)" and "describes C m data" and "openManifest m = Inr rd" and "ReadAll C [] (rd, st) = (Inr bs, st')"
  shows "bs = data"
proof -
  have rd: "rd_rest rd = cm_Chunks m" "rd_current rd = []" "rd_queued rd = []"
    using assms(3) by (auto simp: openManifest_def newChunkStreamReader_def rd_rest_def split: if_splits)
  have "\<forall>ref \<in> set (rd_rest (fst (rd, st))). cr_PackHash ref \<noteq> []" using assms(2) by (simp add: rd(1) describes_def)
  from ReadAll_hashes [OF assms(4) this] obtain css where "bs = concat css" "map (hexsha C) css = map cr_Hash (cm_Chunks m)"
    using rd by auto
  then have "describes C m bs" using assms(2) by (auto simp: describes_def intro: exI [of _ css])
  then show ?thesis using describes_unique [OF assms(1)] assms(2) by blast
qed

lemma v2_done_describes:
  assumes "v2_ok C ps x" and "v2_entries x = []"
  shows "describes C \<lparr>cm_Format = fmt, cm_TotalSize = n, cm_Tenant = dom', cm_Chunks = v2_chunks x\<rparr> (concat ps)"
proof -
  have "cr_PackHash ref \<noteq> []" if "ref \<in> set (v2_chunks x)" for ref
    using assms that by (auto simp: v2_ok_def in_set_conv_nth)
  moreover have "\<exists>qs. concat qs = concat ps \<and> map cr_Hash (v2_chunks x) = map (hexsha C) qs"
    using assms(1) by (intro exI [of _ "pieces ps"]) (simp add: v2_ok_def)
  ultimately show ?thesis by (simp add: describes_def)
qed

text \<open>A snapshot store that holds manifests.\<close>

locale manifest_store = snapshot_store U inv K latest unused
  for U :: "(chunkManifest, 'u) SnapshotStore" and inv :: "'u \<Rightarrow> bool" and K :: "SnapshotKey set"
    and latest :: "'u \<Rightarrow> SnapshotKey \<Rightarrow> chunkManifest option" and unused :: "'u \<Rightarrow> SnapshotKey \<Rightarrow> bool"
begin

lemma NewSession_frame:
  assumes "Chunked_Store.NewSession C domain key st = (sess, st')" and "cs_upstream C = U" and "inv (st_up st)" and "key \<in> K"
  shows "inv (st_up st') \<and> (\<forall>j \<in> K. latest (st_up st') j = latest (st_up st) j \<and> unused (st_up st') j = unused (st_up st) j) \<and>
    st_blobs st' = st_blobs st \<and> st_dedup st' = st_dedup st"
proof (cases "cs_index C")
  case PriorManifestIndex
  obtain q u where g: "ss_GetLatest U key (st_up st) = (q, u)" by (rule prod.exhaust)
  then have "st' = st\<lparr>st_up := u\<rparr>" using assms(1,2) PriorManifestIndex by (simp add: NewSession_def)
  then show ?thesis using latest_frame [OF assms(3,4) g] by simp
next
  case GlobalIndex
  then show ?thesis using assms by (simp add: NewSession_def)
qed

lemma writeManifest_effect:
  assumes "writeManifest C key meta m fmt st = (q, st')" and "cs_upstream C = U" and "inv (st_up st)" and "key \<in> K"
  shows "inv (st_up st') \<and> (\<forall>j \<in> K. j \<noteq> key \<longrightarrow> latest (st_up st') j = latest (st_up st) j \<and> unused (st_up st') j = unused (st_up st) j) \<and>
    (unused (st_up st) key \<longrightarrow> latest (st_up st') key = Some m \<or> (\<exists>e. q = Inl e) \<and> latest (st_up st') key = None)"
proof -
  let ?meta = "meta\<lparr>m_Tags := (m_Tags meta)(''chunked_format'' \<mapsto> fmt)\<rparr>"
  obtain r u where p: "ss_Put U key ?meta m (st_up st) = (r, u)" by (rule prod.exhaust)
  then have e: "q = r" "st_up st' = u" using assms(1,2) by (auto simp: writeManifest_def)
  have "latest u key = Some m \<or> (\<exists>e. q = Inl e) \<and> latest u key = None" if un: "unused (st_up st) key"
  proof (cases r)
    case (Inl er)
    then show ?thesis using put_err [OF assms(3,4) un] p e(1) by blast
  next
    case (Inr md)
    then show ?thesis using put_ok [OF assms(3,4) un] p by blast
  qed
  then show ?thesis using put_frame [OF assms(3,4) p] by (simp add: e)
qed

lemma putV2_effect:
  assumes run: "putV2 C key meta r st = (q, st')" and U: "cs_upstream C = U" and inv: "inv (st_up st)" and key: "key \<in> K"
    and sha: "sha_ok (cs_sha C)"
  shows "inv (st_up st') \<and> (\<forall>j \<in> K. j \<noteq> key \<longrightarrow> latest (st_up st') j = latest (st_up st) j \<and> unused (st_up st') j = unused (st_up st) j) \<and>
    (unused (st_up st) key \<longrightarrow>
       (\<exists>m. latest (st_up st') key = Some m \<and> describes C m (reader_bytes r) \<and> cm_Format m = manifestFormatV2) \<or>
       (\<exists>e. q = Inl e) \<and> latest (st_up st') key = None)"
proof -
  let ?d = "domainFor C key" and ?a = "codecFor C meta"
  obtain sess st0 where ns: "Chunked_Store.NewSession C ?d key st = (sess, st0)" by (rule prod.exhaust)
  note fr = NewSession_frame [OF ns U inv key]
  let ?x0 = "\<lparr>v2_chunks = [], v2_total = 0, v2_buf = [], v2_entries = [], v2_sess = sess, v2_st = st0\<rparr>"
  obtain e x where sp: "split_stream (cs_splitter C) (emitChunk C ?d ?a) r ?x0 = (e, x)" by (rule prod.exhaust)
  have s: "(st_up (v2_st ?x0) = st_up st0 \<longrightarrow> (\<exists>k \<le> length (reader_bytes r). st_up (v2_st x) = st_up st0)) \<and> (e = None \<longrightarrow> v2_ok C [] ?x0 \<longrightarrow> (\<exists>ps. v2_ok C ps x \<and> concat ps = reader_bytes r))"
    by (rule split_stream_inv [OF _ _ sp]) (use emitChunk_ok [OF sha] emitChunk_up in \<open>blast, metis\<close>)
  have x0: "v2_ok C [] ?x0" by (simp add: v2_ok_def)
  obtain e1 x1 where fl: "flushPack C ?d ?a x = (e1, x1)" by (rule prod.exhaust)
  let ?st1 = "(v2_st x1)\<lparr>st_dedup := sess_Commit (v2_sess x1) (st_dedup (v2_st x1))\<rparr>"
  obtain e2 D where as: "associatePacks C ?d (contextFor key meta) (v2_chunks x1) (st_dedup ?st1) = (e2, D)" by (rule prod.exhaust)
  let ?m = "\<lparr>cm_Format = manifestFormatV2, cm_TotalSize = v2_total x1, cm_Tenant = ?d, cm_Chunks = v2_chunks x1\<rparr>"
  have up: "st_up (v2_st x) = st_up st0" "st_up (v2_st x1) = st_up st0" using s flushPack_up [OF fl] by simp_all
  show ?thesis
  proof (cases "e = None \<and> e1 = None \<and> e2 = None")
    case False
    then have "(\<exists>er. q = Inl er) \<and> st_up st' = st_up st0"
      using run ns sp fl as up by (cases e; cases e1; cases e2) (auto simp: putV2_def Let_def)
    then show ?thesis using fr unused_none [OF inv key] key by auto
  next
    case True
    then have w: "writeManifest C key meta ?m manifestFormatV2 (?st1\<lparr>st_dedup := D\<rparr>) = (q, st')"
      using run ns sp fl as by (simp add: putV2_def Let_def)
    obtain ps where ps: "v2_ok C ps x" "concat ps = reader_bytes r" using s x0 True by blast
    have "describes C ?m (reader_bytes r)"
      using v2_done_describes [OF flushPack_ok [OF sha ps(1)]] fl True ps(2) by simp
    then show ?thesis using writeManifest_effect [OF w U] key fr up by auto
  qed
qed

end

end
