(* ===== verification/Local_Store.thy ===== *)
theory Local_Store
  imports Snapshot_Store "HOL-Library.AList"
begin

text \<open>
  The snapshot store on a local file system: casstore/snapshot/store_local.go.  A version is a directory with a
  blob, its metadata and possibly left-over temporary files; each operation is given which of its system calls
  succeed.  A blob is of type \<open>'p\<close>, and \<open>blen\<close> is its length in bytes.
\<close>

section \<open>Definitions\<close>

subsection \<open>Paths\<close>

definition b64_digit :: "nat \<Rightarrow> char" where
  "b64_digit n = ''ABCDEFGHIJKLMNOPQRSTUVWXYZabcdefghijklmnopqrstuvwxyz0123456789-_'' ! n"

definition b64_index :: "char \<Rightarrow> nat option" where
  "b64_index c = find (\<lambda>n. b64_digit n = c) [0..<64]"

text \<open>\<open>base64.RawURLEncoding\<close>: encoding, and decoding that skips line ends.\<close>

fun b64enc :: "nat list \<Rightarrow> string" where
  "b64enc [] = []"
| "b64enc [a] = [b64_digit (a div 4), b64_digit (a mod 4 * 16)]"
| "b64enc [a, b] = [b64_digit (a div 4), b64_digit (a mod 4 * 16 + b div 16), b64_digit (b mod 16 * 4)]"
| "b64enc (a # b # c # r) = [b64_digit (a div 4), b64_digit (a mod 4 * 16 + b div 16), b64_digit (b mod 16 * 4 + c div 64),
     b64_digit (c mod 64)] @ b64enc r"

fun b64dec :: "nat list \<Rightarrow> nat list option" where
  "b64dec [] = Some []"
| "b64dec [w] = None"
| "b64dec [w, x] = Some [w * 4 + x div 16]"
| "b64dec [w, x, y] = Some [w * 4 + x div 16, x mod 16 * 16 + y div 4]"
| "b64dec (w # x # y # z # r) = map_option (\<lambda>ds. (w * 4 + x div 16) # (x mod 16 * 16 + y div 4) # (y mod 4 * 64 + z) # ds) (b64dec r)"

definition RawURL_encode :: "string \<Rightarrow> string" where
  "RawURL_encode s = b64enc (map of_char s)"

definition RawURL_decode :: "string \<Rightarrow> string option" where
  "RawURL_decode s = Option.bind (those (map b64_index (filter (\<lambda>c. c \<noteq> CHR 0x0D \<and> c \<noteq> CHR 0x0A) s)))
     (\<lambda>ns. map_option (map char_of) (b64dec ns))"

definition unsafe_path :: "string \<Rightarrow> bool" where
  "unsafe_path s \<longleftrightarrow> list_ex (\<lambda>c. c \<in> set (''/'' @ [CHR 0x5C] @ '':*?'' @ [CHR 0x22] @ ''<>|'' @ [CHR 0x00])) s"

definition sanitize :: "string \<Rightarrow> string" where
  "sanitize s = (if s = [] then ''_'' else if unsafe_path s then RawURL_encode s else s)"

definition unsanitize :: "string \<Rightarrow> string" where
  "unsanitize s =
    (if s = ''_'' then []
     else case RawURL_decode s of
         Some d \<Rightarrow> if unsafe_path d then d else s
       | None \<Rightarrow> s)"

text \<open>The directory of a key below the root; a version is a directory in it.\<close>

definition keyPath :: "SnapshotKey \<Rightarrow> string list" where
  "keyPath key = [sanitize (k_Tenant key), sanitize (k_Workspace key), sanitize (k_User key), sanitize (k_OwnerKey key)]"

subsection \<open>State\<close>

datatype metafile = NoMeta | BadMeta | Meta SnapshotMetadata

record 'p vdir =
  vd_blob :: "'p option"
  vd_tmp :: nat
  vd_meta :: metafile

record local_os =
  lo_mkdir :: bool
  lo_create :: bool
  lo_copy :: bool
  lo_close :: bool
  lo_rename :: bool
  lo_meta :: bool
  lo_partial :: bool
  lo_rmtmp :: bool
  lo_rmblob :: bool
  lo_rmdir :: bool
  lo_readdir :: bool
  lo_readmeta :: bool
  lo_open :: bool

definition os_fine :: local_os where
  "os_fine = \<lparr>lo_mkdir = True, lo_create = True, lo_copy = True, lo_close = True, lo_rename = True, lo_meta = True, lo_partial = False,
     lo_rmtmp = True, lo_rmblob = True, lo_rmdir = True, lo_readdir = True, lo_readmeta = True, lo_open = True\<rparr>"

text \<open>The clock gives, per call of \<open>NewVersion\<close>, the time to the second, the nanoseconds and random bytes.\<close>

record 'p local_state =
  ls_dirs :: "((string list \<times> string) \<times> 'p vdir) list"
  ls_clock :: "nat \<Rightarrow> string \<times> nat \<times> bytes"
  ls_tick :: nat
  ls_now :: int
  ls_os :: "local_os list"

definition next_os :: "'p local_state \<Rightarrow> local_os \<times> 'p local_state" where
  "next_os s = (case ls_os s of [] \<Rightarrow> (os_fine, s) | os # rest \<Rightarrow> (os, s\<lparr>ls_os := rest\<rparr>))"

definition set_dir :: "string list \<times> string \<Rightarrow> 'p vdir \<Rightarrow> 'p local_state \<Rightarrow> 'p local_state" where
  "set_dir pv d s = s\<lparr>ls_dirs := AList.update pv d (ls_dirs s)\<rparr>"

definition del_dir :: "string list \<times> string \<Rightarrow> 'p local_state \<Rightarrow> 'p local_state" where
  "del_dir pv s = s\<lparr>ls_dirs := AList.delete pv (ls_dirs s)\<rparr>"

definition empty_dir :: "'p vdir" where
  "empty_dir = \<lparr>vd_blob = None, vd_tmp = 0, vd_meta = NoMeta\<rparr>"

text \<open>\<open>os.Remove\<close> of a version directory fails when it is not empty; the code ignores the failure.\<close>

definition is_empty_dir :: "'p vdir \<Rightarrow> bool" where
  "is_empty_dir d = (case (vd_blob d, vd_meta d) of (None, NoMeta) \<Rightarrow> vd_tmp d = 0 | _ \<Rightarrow> False)"

definition remove_dir :: "local_os \<Rightarrow> string list \<times> string \<Rightarrow> 'p vdir \<Rightarrow> 'p local_state \<Rightarrow> 'p local_state" where
  "remove_dir os pv d s = (if lo_rmdir os \<and> is_empty_dir d then del_dir pv s else set_dir pv d s)"

subsection \<open>Operations\<close>

definition LocalStore_Put ::
  "('p \<Rightarrow> int) \<Rightarrow> SnapshotKey \<Rightarrow> SnapshotMetadata \<Rightarrow> 'p \<Rightarrow> 'p local_state \<Rightarrow> (serr + SnapshotMetadata) \<times> 'p local_state" where
  "LocalStore_Put blen key m p s0 =
    (case next_os (s0\<lparr>ls_tick := Suc (ls_tick s0)\<rparr>) of (os, s) \<Rightarrow>
     case ls_clock s0 (ls_tick s0) of (sec, ns, rnd) \<Rightarrow>
     let version = NewVersion sec ns rnd;
         pv = (keyPath key, version);
         d0 = (case map_of (ls_dirs s) pv of None \<Rightarrow> empty_dir | Some d \<Rightarrow> d);
         dtmp = (if lo_rmtmp os then d0 else d0\<lparr>vd_tmp := Suc (vd_tmp d0)\<rparr>);
         d2 = d0\<lparr>vd_blob := Some p\<rparr>;
         dbad = d2\<lparr>vd_meta := if lo_partial os then BadMeta else vd_meta d2, vd_blob := if lo_rmblob os then None else Some p\<rparr>;
         m' = m\<lparr>m_Key := key, m_Version := version, m_SizeBytes := blen p,
           m_CreatedAt := if m_CreatedAt m = 0 then ls_now s else m_CreatedAt m\<rparr>
     in if \<not> lo_mkdir os then (Inl ErrOther, s)
        else if \<not> lo_create os then (Inl ErrOther, set_dir pv d0 s)
        else if \<not> lo_copy os \<or> \<not> lo_close os \<or> \<not> lo_rename os then (Inl ErrOther, remove_dir os pv dtmp s)
        else if \<not> lo_meta os then (Inl ErrOther, remove_dir os pv dbad s)
        else (Inr m', set_dir pv (d2\<lparr>vd_meta := Meta m'\<rparr>) s))"

definition read_version :: "local_os \<Rightarrow> string list \<Rightarrow> string \<Rightarrow> 'p local_state \<Rightarrow> serr + 'p \<times> SnapshotMetadata" where
  "read_version os path version s = (case map_of (ls_dirs s) (path, version) of
      None \<Rightarrow> Inl ErrNoSnapshot
    | Some d \<Rightarrow>
        (case vd_meta d of
           NoMeta \<Rightarrow> Inl ErrNoSnapshot
         | BadMeta \<Rightarrow> Inl ErrOther
         | Meta m \<Rightarrow>
             if \<not> lo_readmeta os then Inl ErrOther
             else case vd_blob d of
                 None \<Rightarrow> Inl ErrNoSnapshot
               | Some p \<Rightarrow> if lo_open os then Inr (p, m) else Inl ErrOther))"

definition LocalStore_Get :: "SnapshotKey \<Rightarrow> string \<Rightarrow> 'p local_state \<Rightarrow> (serr + 'p \<times> SnapshotMetadata) \<times> 'p local_state" where
  "LocalStore_Get key version s0 = (case next_os s0 of (os, s) \<Rightarrow> (read_version os (keyPath key) version s, s))"

definition version_dirs :: "string list \<Rightarrow> 'p local_state \<Rightarrow> string list" where
  "version_dirs path s = rev (sort (map (snd \<circ> fst) (filter (\<lambda>e. fst (fst e) = path) (ls_dirs s))))"

definition listVersionDirs :: "local_os \<Rightarrow> SnapshotKey \<Rightarrow> 'p local_state \<Rightarrow> string list option" where
  "listVersionDirs os key s = (if lo_readdir os then Some (version_dirs (keyPath key) s) else None)"

definition LocalStore_GetLatest :: "SnapshotKey \<Rightarrow> 'p local_state \<Rightarrow> (serr + 'p \<times> SnapshotMetadata) \<times> 'p local_state" where
  "LocalStore_GetLatest key s0 = (case next_os s0 of (os, s) \<Rightarrow>
     (case listVersionDirs os key s of
        None \<Rightarrow> (Inl ErrOther, s)
      | Some [] \<Rightarrow> (Inl ErrNoSnapshot, s)
      | Some (v # _) \<Rightarrow> (read_version os (keyPath key) v s, s)))"

definition read_meta :: "local_os \<Rightarrow> string list \<Rightarrow> string \<Rightarrow> 'p local_state \<Rightarrow> serr + SnapshotMetadata" where
  "read_meta os path version s = (case map_of (ls_dirs s) (path, version) of
      None \<Rightarrow> Inl ErrNoSnapshot
    | Some d \<Rightarrow>
        (case vd_meta d of
           NoMeta \<Rightarrow> Inl ErrNoSnapshot
         | BadMeta \<Rightarrow> Inl ErrOther
         | Meta m \<Rightarrow> if lo_readmeta os then Inr m else Inl ErrOther))"

definition LocalStore_GetLatestMetadata :: "SnapshotKey \<Rightarrow> 'p local_state \<Rightarrow> (serr + SnapshotMetadata) \<times> 'p local_state" where
  "LocalStore_GetLatestMetadata key s0 = (case next_os s0 of (os, s) \<Rightarrow>
     (case listVersionDirs os key s of
        None \<Rightarrow> (Inl ErrOther, s)
      | Some [] \<Rightarrow> (Inl ErrNoSnapshot, s)
      | Some (v # _) \<Rightarrow> (read_meta os (keyPath key) v s, s)))"

definition LocalStore_List :: "SnapshotKey \<Rightarrow> 'p local_state \<Rightarrow> (serr + SnapshotMetadata list) \<times> 'p local_state" where
  "LocalStore_List key s0 = (case next_os s0 of (os, s) \<Rightarrow>
     (case listVersionDirs os key s of
        None \<Rightarrow> (Inl ErrOther, s)
      | Some vs \<Rightarrow> (Inr (List.map_filter (\<lambda>v. case read_meta os (keyPath key) v s of Inl _ \<Rightarrow> None | Inr m \<Rightarrow> Some m) vs), s)))"

text \<open>\<open>Walk\<close> visits the directories in lexical order and skips what it cannot read.\<close>

definition key_of_path :: "string list \<Rightarrow> SnapshotKey" where
  "key_of_path path = \<lparr>k_Tenant = unsanitize (path ! 0), k_Workspace = unsanitize (path ! 1), k_User = unsanitize (path ! 2),
     k_OwnerKey = unsanitize (path ! 3)\<rparr>"

definition LocalStore_Walk :: "'p local_state \<Rightarrow> (serr + (SnapshotKey \<times> string \<times> SnapshotMetadata) list) \<times> 'p local_state" where
  "LocalStore_Walk s0 = (case next_os s0 of (os, s) \<Rightarrow>
     (Inr (List.map_filter (\<lambda>pv. case read_meta os (fst pv) (snd pv) s of
         Inl _ \<Rightarrow> None | Inr m \<Rightarrow> Some (key_of_path (fst pv), snd pv, m))
       (sort_key (\<lambda>pv. fst pv @ [snd pv]) (map fst (ls_dirs s)))), s))"

text \<open>An empty version names the directory of the key itself.\<close>

definition LocalStore_Delete :: "SnapshotKey \<Rightarrow> string \<Rightarrow> 'p local_state \<Rightarrow> serr option \<times> 'p local_state" where
  "LocalStore_Delete key version s0 = (case next_os s0 of (os, s) \<Rightarrow>
     let hit = (\<lambda>pv. fst pv = keyPath key \<and> (version = [] \<or> snd pv = version))
     in if lo_rmdir os then (None, s\<lparr>ls_dirs := filter (\<lambda>e. \<not> hit (fst e)) (ls_dirs s)\<rparr>)
        else (Some ErrOther, if lo_partial os
          then s\<lparr>ls_dirs := map (\<lambda>e. if hit (fst e) then (fst e, (snd e)\<lparr>vd_blob := None\<rparr>) else e) (ls_dirs s)\<rparr> else s))"

definition LocalStore :: "('p \<Rightarrow> int) \<Rightarrow> ('p, 'p local_state) SnapshotStore" where
  "LocalStore blen = \<lparr>ss_Put = LocalStore_Put blen, ss_Get = LocalStore_Get, ss_GetLatest = LocalStore_GetLatest,
     ss_GetLatestMetadata = LocalStore_GetLatestMetadata, ss_List = LocalStore_List, ss_Delete = LocalStore_Delete,
     ss_Walk = LocalStore_Walk\<rparr>"

section \<open>Encoded names\<close>

lemma is_empty_dir_iff [simp]: "is_empty_dir d \<longleftrightarrow> d = empty_dir"
  by (cases d) (auto simp: is_empty_dir_def empty_dir_def split: option.splits metafile.splits)

lemma b64_index_digit: "n < 64 \<Longrightarrow> b64_index (b64_digit n) = Some n"
proof -
  have "list_all (\<lambda>n. b64_index (b64_digit n) = Some n) [0..<64]" by code_simp
  then show "n < 64 \<Longrightarrow> b64_index (b64_digit n) = Some n" by (simp add: list_all_iff)
qed

lemma b64_digit_line: "n < 64 \<Longrightarrow> b64_digit n \<noteq> CHR 0x0D \<and> b64_digit n \<noteq> CHR 0x0A"
proof -
  have "list_all (\<lambda>n. b64_digit n \<noteq> CHR 0x0D \<and> b64_digit n \<noteq> CHR 0x0A) [0..<64]" by code_simp
  then show "n < 64 \<Longrightarrow> b64_digit n \<noteq> CHR 0x0D \<and> b64_digit n \<noteq> CHR 0x0A" by (simp add: list_all_iff)
qed

lemma b64_round:
  "\<forall>x \<in> set xs. x < 256 \<Longrightarrow> \<exists>ns. (\<forall>n \<in> set ns. n < 64) \<and> b64enc xs = map b64_digit ns \<and> b64dec ns = Some xs"
proof (induction xs rule: b64enc.induct)
  case 1
  then show ?case by (intro exI [of _ "[]"]) simp
next
  case (2 a)
  then show ?case by (intro exI [of _ "[a div 4, a mod 4 * 16]"]) auto
next
  case (3 a b)
  then show ?case by (intro exI [of _ "[a div 4, a mod 4 * 16 + b div 16, b mod 16 * 4]"]) auto
next
  case (4 a b c r)
  then obtain ns where "\<forall>n \<in> set ns. n < 64" "b64enc r = map b64_digit ns" "b64dec ns = Some r" by auto
  with 4 show ?case
    by (intro exI [of _ "[a div 4, a mod 4 * 16 + b div 16, b mod 16 * 4 + c div 64, c mod 64] @ ns"]) auto
qed

lemma those_map_Some: "those (map Some xs) = Some xs"
  by (induction xs) simp_all

lemma RawURL_round: "RawURL_decode (RawURL_encode s) = Some s"
proof -
  have "\<forall>x \<in> set (map of_char s). (x :: nat) < 256" by auto
  from b64_round [OF this] obtain ns where ns: "\<forall>n \<in> set ns. n < 64" "b64enc (map of_char s) = map b64_digit ns"
    "b64dec ns = Some (map of_char s)" by blast
  have f: "filter (\<lambda>c. c \<noteq> CHR 0x0D \<and> c \<noteq> CHR 0x0A) (map b64_digit ns) = map b64_digit ns"
    using ns(1) b64_digit_line by (intro filter_True) auto
  have "map b64_index (map b64_digit ns) = map Some ns" using ns(1) b64_index_digit by simp
  then show ?thesis
    unfolding RawURL_decode_def RawURL_encode_def ns(2) f by (simp only: those_map_Some) (simp add: ns(3) o_def)
qed

lemma RawURL_not_underscore: "RawURL_encode s \<noteq> ''_''"
proof
  assume "RawURL_encode s = ''_''"
  moreover have "RawURL_decode ''_'' = None" by code_simp
  ultimately show False using RawURL_round [of s] by simp
qed

lemma sanitize_round: "s = [] \<or> unsafe_path s \<Longrightarrow> unsanitize (sanitize s) = s"
  using RawURL_not_underscore by (auto simp: unsanitize_def sanitize_def RawURL_round)

text \<open>A name that is the encoding of another name shares its directory; and dots pass unencoded.\<close>

lemma sanitize_collision: "sanitize ''YS9i'' = sanitize ''a/b''" and sanitize_dots: "sanitize ''..'' = ''..''"
  by code_simp+

section \<open>The contract\<close>

text \<open>Keys that the store tells apart: the three outer segments empty, the owner key encoded.\<close>

definition encoded_keys :: "SnapshotKey set" where
  "encoded_keys = {k. k_Tenant k = [] \<and> k_Workspace k = [] \<and> k_User k = [] \<and> unsafe_path (k_OwnerKey k)}"

definition local_unused :: "'p local_state \<Rightarrow> SnapshotKey \<Rightarrow> bool" where
  "local_unused s k \<longleftrightarrow> version_dirs (keyPath k) s = []"

definition local_latest :: "'p local_state \<Rightarrow> SnapshotKey \<Rightarrow> 'p option" where
  "local_latest s k = (case version_dirs (keyPath k) s of
      [] \<Rightarrow> None
    | v # _ \<Rightarrow> (case read_version os_fine (keyPath k) v s of Inl _ \<Rightarrow> None | Inr (p, _) \<Rightarrow> Some p))"

lemma keyPath_inj: "j \<in> encoded_keys \<Longrightarrow> k \<in> encoded_keys \<Longrightarrow> keyPath j = keyPath k \<longleftrightarrow> j = k"
proof
  assume jk: "j \<in> encoded_keys" "k \<in> encoded_keys" "keyPath j = keyPath k"
  then have "sanitize (k_OwnerKey j) = sanitize (k_OwnerKey k)" by (simp add: keyPath_def)
  moreover have "unsanitize (sanitize (k_OwnerKey j)) = k_OwnerKey j" "unsanitize (sanitize (k_OwnerKey k)) = k_OwnerKey k"
    using jk(1,2) unfolding encoded_keys_def by (blast intro: sanitize_round)+
  ultimately have "k_OwnerKey j = k_OwnerKey k" by metis
  then show "j = k" using jk(1,2) by (cases j, cases k) (simp add: encoded_keys_def)
qed simp

lemma version_dirs_empty: "version_dirs path s = [] \<longleftrightarrow> filter (\<lambda>e. fst (fst e) = path) (ls_dirs s) = []"
proof -
  have "length (version_dirs path s) = length (filter (\<lambda>e. fst (fst e) = path) (ls_dirs s))" by (simp add: version_dirs_def)
  then show ?thesis by (metis length_0_conv)
qed

lemma version_dirs_set: "set (version_dirs path s) = {v. (path, v) \<in> fst ` set (ls_dirs s)}"
  by (force simp: version_dirs_def)

text \<open>The directories of other paths stay.\<close>

definition same_path :: "string list \<Rightarrow> 'p local_state \<Rightarrow> 'p local_state \<Rightarrow> bool" where
  "same_path path s s' \<longleftrightarrow> filter (\<lambda>e. fst (fst e) = path) (ls_dirs s') = filter (\<lambda>e. fst (fst e) = path) (ls_dirs s)"

lemma filter_update_other: "\<not> P (k, d) \<Longrightarrow> (\<And>d. \<not> P (k, d)) \<Longrightarrow> filter P (AList.update k d xs) = filter P xs"
  by (induction xs) auto

lemma update_append_new: "k \<notin> fst ` set xs \<Longrightarrow> AList.update k d xs = xs @ [(k, d)]"
  by (induction xs) auto

lemma filter_delete_other: "(\<And>d. \<not> P (k, d)) \<Longrightarrow> filter P (AList.delete k xs) = filter P xs"
  by (induction xs) auto

lemma same_path_dirs:
  "fst pv \<noteq> path \<Longrightarrow> same_path path s (set_dir pv d s)" "fst pv \<noteq> path \<Longrightarrow> same_path path s (del_dir pv s)"
  "fst pv \<noteq> path \<Longrightarrow> same_path path s (remove_dir os pv d s)"
  by (auto simp: same_path_def set_dir_def del_dir_def remove_dir_def filter_update_other filter_delete_other)

lemma map_of_filter_path: "map_of (filter (\<lambda>e. fst (fst e) = path) xs) (path, v) = map_of xs (path, v)"
  by (induction xs) auto

lemma same_path_views:
  assumes "same_path (keyPath k) s s'"
  shows "version_dirs (keyPath k) s' = version_dirs (keyPath k) s"
    "read_version os (keyPath k) v s' = read_version os (keyPath k) v s"
    "local_latest s' k = local_latest s k" "local_unused s' k = local_unused s k"
proof -
  show v: "version_dirs (keyPath k) s' = version_dirs (keyPath k) s"
    using assms by (simp add: version_dirs_def same_path_def)
  have "map_of (ls_dirs s') (keyPath k, v) = map_of (ls_dirs s) (keyPath k, v)" for v
    using assms map_of_filter_path [of "keyPath k" "ls_dirs s'" v] map_of_filter_path [of "keyPath k" "ls_dirs s" v]
    by (simp add: same_path_def)
  then have r: "read_version os (keyPath k) v s' = read_version os (keyPath k) v s" for os v by (simp add: read_version_def)
  then show "read_version os (keyPath k) v s' = read_version os (keyPath k) v s" by simp
  show "local_latest s' k = local_latest s k" "local_unused s' k = local_unused s k"
    by (simp_all add: local_latest_def local_unused_def v r split: list.splits)
qed

lemma next_os_dirs: "next_os s = (os, s') \<Longrightarrow> ls_dirs s' = ls_dirs s"
  by (auto simp: next_os_def split: list.splits)

lemma LocalStore_Put_path:
  assumes "LocalStore_Put blen key m p s = (r, s')" and "path \<noteq> keyPath key"
  shows "same_path path s s'"
proof -
  obtain os s1 where os: "next_os (s\<lparr>ls_tick := Suc (ls_tick s)\<rparr>) = (os, s1)" by (rule prod.exhaust)
  obtain sec ns rnd where c: "ls_clock s (ls_tick s) = (sec, ns, rnd)" by (rule prod_cases3)
  have d: "ls_dirs s1 = ls_dirs s" using next_os_dirs [OF os] by simp
  have "same_path path s1 s'"
    using assms os c by (auto simp: LocalStore_Put_def Let_def intro!: same_path_dirs split: if_splits) (simp_all add: same_path_def)
  then show ?thesis using d by (simp add: same_path_def)
qed

lemma LocalStore_Put_ok:
  assumes "LocalStore_Put blen key m p s = (Inr m', s')" and "local_unused s key"
  shows "local_latest s' key = Some p"
proof -
  obtain os s1 where os: "next_os (s\<lparr>ls_tick := Suc (ls_tick s)\<rparr>) = (os, s1)" by (rule prod.exhaust)
  obtain sec ns rnd where c: "ls_clock s (ls_tick s) = (sec, ns, rnd)" by (rule prod_cases3)
  have d: "ls_dirs s1 = ls_dirs s" using next_os_dirs [OF os] by simp
  define v where "v = NewVersion sec ns rnd"
  have none: "filter (\<lambda>e. fst (fst e) = keyPath key) (ls_dirs s1) = []"
    using assms(2) d by (simp add: local_unused_def version_dirs_empty)
  obtain dir where dir: "s' = set_dir (keyPath key, v) dir s1" "vd_blob dir = Some p" "vd_meta dir = Meta m'"
    using assms(1) os c by (auto simp: LocalStore_Put_def Let_def v_def split: if_splits)
  have upd: "AList.update (keyPath key, v) dir (ls_dirs s1) = ls_dirs s1 @ [((keyPath key, v), dir)]"
    using none by (intro update_append_new) (auto simp: filter_empty_conv)
  then have "version_dirs (keyPath key) s' = [v]" using none by (simp add: version_dirs_def dir(1) set_dir_def)
  moreover have "map_of (ls_dirs s') (keyPath key, v) = Some dir" by (simp add: dir(1) set_dir_def update_Some_unfold)
  ultimately show ?thesis by (simp add: local_latest_def read_version_def dir(2,3) os_fine_def)
qed

lemma LocalStore_Put_err:
  assumes "LocalStore_Put blen key m p s = (Inl e, s')" and "local_unused s key"
  shows "local_latest s' key = None"
proof -
  obtain os s1 where os: "next_os (s\<lparr>ls_tick := Suc (ls_tick s)\<rparr>) = (os, s1)" by (rule prod.exhaust)
  obtain sec ns rnd where c: "ls_clock s (ls_tick s) = (sec, ns, rnd)" by (rule prod_cases3)
  have d: "ls_dirs s1 = ls_dirs s" using next_os_dirs [OF os] by simp
  define v where "v = NewVersion sec ns rnd"
  have none: "filter (\<lambda>e. fst (fst e) = keyPath key) (ls_dirs s1) = []"
    using assms(2) d by (simp add: local_unused_def version_dirs_empty)
  then have new: "(keyPath key, v) \<notin> fst ` set (ls_dirs s1)" by (auto simp: filter_empty_conv)
  then have m0: "map_of (ls_dirs s1) (keyPath key, v) = None" by (simp add: map_of_eq_None_iff)
  consider (same) "s' = s1" | (gone) "s' = del_dir (keyPath key, v) s1"
    | (dir) dir where "s' = set_dir (keyPath key, v) dir s1" "\<nexists>x. vd_meta dir = Meta x"
    using assms(1) os c m0 by (auto simp: LocalStore_Put_def Let_def v_def remove_dir_def empty_dir_def split: if_splits)
  then show ?thesis
  proof cases
    case same
    then show ?thesis using none by (simp add: local_latest_def iffD2 [OF version_dirs_empty])
  next
    case gone
    have "AList.delete (keyPath key, v) (ls_dirs s1) = ls_dirs s1" using new by (rule delete_id)
    then show ?thesis using none gone by (simp add: local_latest_def iffD2 [OF version_dirs_empty] del_dir_def)
  next
    case dir
    have "version_dirs (keyPath key) s' = [v]" using none by (simp add: version_dirs_def dir(1) set_dir_def update_append_new [OF new])
    moreover have "map_of (ls_dirs s') (keyPath key, v) = Some dir" by (simp add: dir(1) set_dir_def update_Some_unfold)
    ultimately show ?thesis using dir(2) by (auto simp: local_latest_def read_version_def split: metafile.splits)
  qed
qed

lemma LocalStore_GetLatest_ok:
  assumes "LocalStore_GetLatest key s = (r, s')"
  shows "ls_dirs s' = ls_dirs s" and "r = Inr (p, m) \<Longrightarrow> local_latest s key = Some p"
proof -
  obtain os s1 where os: "next_os s = (os, s1)" by (rule prod.exhaust)
  have d: "ls_dirs s1 = ls_dirs s" by (rule next_os_dirs [OF os])
  have s': "s' = s1" using assms os by (auto simp: LocalStore_GetLatest_def split: option.splits list.splits)
  then show "ls_dirs s' = ls_dirs s" using d by simp
  assume "r = Inr (p, m)"
  with assms os obtain v vs where v: "version_dirs (keyPath key) s1 = v # vs" "read_version os (keyPath key) v s1 = Inr (p, m)"
    by (auto simp: LocalStore_GetLatest_def listVersionDirs_def split: option.splits list.splits if_splits)
  have "same_path (keyPath key) s s1" using d by (simp add: same_path_def)
  note views = same_path_views [OF this]
  have "read_version os_fine (keyPath key) v s1 = Inr (p, m)"
    using v(2) by (auto simp: read_version_def os_fine_def split: option.splits metafile.splits if_splits)
  then show "local_latest s key = Some p" using v(1) by (simp add: local_latest_def views(1) [symmetric] views(2) [symmetric])
qed

interpretation local_snaps: snapshot_store "LocalStore blen" "\<lambda>_. True" encoded_keys local_latest local_unused for blen :: "'p \<Rightarrow> int"
proof (unfold_locales, goal_cases)
  case (1 u k m p m' u')
  then show ?case using LocalStore_Put_ok by (simp add: LocalStore_def)
next
  case (2 u k m p e u')
  then show ?case using LocalStore_Put_err [of blen k m p u e u'] by (simp add: LocalStore_def)
next
  case (3 u k m p r u')
  have "same_path (keyPath j) u u'" if "j \<in> encoded_keys" "j \<noteq> k" for j
    using 3 that keyPath_inj LocalStore_Put_path [of blen k m p u r u' "keyPath j"] by (auto simp: LocalStore_def)
  then show ?case using same_path_views(3,4) by blast
next
  case (4 u k p m u')
  then show ?case using LocalStore_GetLatest_ok(2) [of k u "Inr (p, m)" u' p m] by (simp add: LocalStore_def)
next
  case (5 u k q u')
  then have "same_path (keyPath j) u u'" for j using LocalStore_GetLatest_ok(1) [of k u q u'] by (simp add: LocalStore_def same_path_def)
  then show ?case using same_path_views(3,4) by blast
next
  case (6 u k)
  then show ?case by (simp add: local_unused_def local_latest_def)
qed

lemma insort_snoc_max: "x \<le> (v :: 'a::linorder) \<Longrightarrow> insort x (ys @ [v]) = insort x ys @ [v]"
  by (induction ys) simp_all

lemma sort_snoc_max: "\<forall>x \<in> set xs. x \<le> (v :: 'a::linorder) \<Longrightarrow> sort (xs @ [v]) = sort xs @ [v]"
  by (induction xs) (simp_all add: insort_snoc_max)

text \<open>
  A put that cannot create its temporary file leaves an empty directory behind.  With the highest version it
  hides every earlier snapshot of the key from \<open>GetLatest\<close>.
\<close>

lemma failed_put_hides_latest:
  assumes "LocalStore_Put blen key m p s = (Inl e, s')" and "ls_os s = [os]" and "lo_mkdir os" and "\<not> lo_create os"
    and "ls_clock s (ls_tick s) = (sec, ns, rnd)" and "\<forall>v \<in> set (version_dirs (keyPath key) s). v < NewVersion sec ns rnd"
  shows "fst (LocalStore_GetLatest key s') = Inl ErrNoSnapshot"
proof -
  define v where "v = NewVersion sec ns rnd"
  let ?vs = "map (snd \<circ> fst) (filter (\<lambda>e. fst (fst e) = keyPath key) (ls_dirs s))"
  have new: "(keyPath key, v) \<notin> fst ` set (ls_dirs s)" using assms(6) version_dirs_set [of "keyPath key" s] by (auto simp: v_def)
  then have "map_of (ls_dirs s) (keyPath key, v) = None" by (simp add: map_of_eq_None_iff)
  then have s': "s' = set_dir (keyPath key, v) empty_dir (s\<lparr>ls_tick := Suc (ls_tick s), ls_os := []\<rparr>)"
    using assms by (auto simp: LocalStore_Put_def next_os_def Let_def v_def)
  have "sort (?vs @ [v]) = sort ?vs @ [v]"
    using assms(6) by (intro sort_snoc_max) (auto simp: version_dirs_def v_def less_imp_le)
  then have "version_dirs (keyPath key) s' = v # version_dirs (keyPath key) s"
    using new by (simp add: version_dirs_def s' set_dir_def update_append_new)
  moreover have "map_of (ls_dirs s') (keyPath key, v) = Some empty_dir" by (simp add: s' set_dir_def update_Some_unfold)
  ultimately show ?thesis
    by (simp add: LocalStore_GetLatest_def next_os_def s' set_dir_def listVersionDirs_def os_fine_def)
      (simp add: read_version_def empty_dir_def)
qed

end
