(* ===== verification/Slice_Store.thy ===== *)
theory Slice_Store
  imports Prelude
begin

text \<open>
  The interface \<open>Store\<close> of mlfs/internal/chunkstore/chunkstore.go: a record of functions over the state of an
  implementation, as a Go interface value is, and the contract that the data path relies on as the locale
  \<open>slice_store\<close>.
\<close>

datatype StoreClass = ClassDefault | ClassUncompressed

text \<open>A false or missing result is an error; \<open>ReadAt\<close> gives the bytes it copied into the caller's buffer.\<close>

record 'c Store =
  st_Write :: "u64 \<Rightarrow> bytes \<Rightarrow> StoreClass \<Rightarrow> 'c \<Rightarrow> bool \<times> 'c"
  st_Read :: "u64 \<Rightarrow> 'c \<Rightarrow> bytes option \<times> 'c"
  st_ReadAt :: "u64 \<Rightarrow> int \<Rightarrow> nat \<Rightarrow> 'c \<Rightarrow> bytes option \<times> 'c"
  st_Exists :: "u64 \<Rightarrow> 'c \<Rightarrow> bool option \<times> 'c"
  st_Remove :: "u64 \<Rightarrow> 'c \<Rightarrow> bool \<times> 'c"

text \<open>
  What an implementation promises about the slices it holds: a successful read returns the window of the stored
  bytes, and reading changes nothing.
\<close>

locale slice_reader =
  fixes S :: "'c Store" and inv :: "'c \<Rightarrow> bool" and view :: "'c \<Rightarrow> u64 \<Rightarrow> bytes option"
  assumes readat_ok: "inv c \<Longrightarrow> st_ReadAt S i off n c = (Some bs, c') \<Longrightarrow> 0 \<le> off \<Longrightarrow>
      \<exists>data. view c i = Some data \<and> bs = take n (drop (nat off) data)"
    and readat_frame: "inv c \<Longrightarrow> st_ReadAt S i off n c = (r, c') \<Longrightarrow> 0 \<le> off \<Longrightarrow> inv c' \<and> view c' = view c"

text \<open>
  Slices are written once, under an id that was never used, and are at most one chunk of 64 MiB long: a successful write
  stores the bytes, and a write, failed or not, leaves the other ids alone.
\<close>

locale slice_store = slice_reader S inv view
  for S :: "'c Store" and inv :: "'c \<Rightarrow> bool" and view :: "'c \<Rightarrow> u64 \<Rightarrow> bytes option" +
  fixes fresh :: "'c \<Rightarrow> u64 \<Rightarrow> bool"
  assumes write_ok: "inv c \<Longrightarrow> fresh c i \<Longrightarrow> length data \<le> 2 ^ 26 \<Longrightarrow> st_Write S i data cl c = (True, c') \<Longrightarrow> view c' i = Some data"
    and write_frame: "inv c \<Longrightarrow> fresh c i \<Longrightarrow> length data \<le> 2 ^ 26 \<Longrightarrow> st_Write S i data cl c = (ok, c') \<Longrightarrow>
      inv c' \<and> (\<forall>j. j \<noteq> i \<longrightarrow> view c' j = view c j \<and> fresh c' j = fresh c j)"
    and readat_fresh: "inv c \<Longrightarrow> st_ReadAt S i off n c = (r, c') \<Longrightarrow> 0 \<le> off \<Longrightarrow> fresh c' = fresh c"
begin

text \<open>As far as reading goes, the ids that are fresh are part of the invariant.\<close>

lemma frozen_reader: "slice_reader S (\<lambda>c. inv c \<and> fresh c = F) view"
  using readat_ok readat_frame readat_fresh by unfold_locales blast+

end

end
