(* ===== verification/File_Io.thy ===== *)
theory File_Io
  imports Slice_Store Meta_Fs Wal_Recovery "HOL-Library.Signed_Division"
begin

text \<open>
  The data path: mlfs/internal/fileio/fileio.go (\<open>Write\<close>, \<open>Read\<close>, \<open>HashFile\<close>, \<open>Truncate\<close>, \<open>Clone\<close>,
  \<open>CopyFileRange\<close>) over the metadata engine, a slice store and an optional write-ahead log.

  The state of a \<open>Files\<close> value is that of its three parts, with the system calls of the coming log appends.
  Tracing and the read-ahead prefetcher do not change what a call returns and are left out.
\<close>

unbundle bit_operations_syntax

section \<open>Definitions\<close>

record 'c Files =
  io_sys :: sys
  io_chunks :: 'c
  io_wal :: "WAL option"
  io_disk :: disk
  io_os :: "os_calls list"

datatype ioerr = ErrNewSlice | ErrChunk | ErrWal | ErrMeta errno | ErrPanic

definition log_rec :: "Record \<Rightarrow> 'c Files \<Rightarrow> bool \<times> 'c Files" where
  "log_rec rec f = (case io_wal f of
      None \<Rightarrow> (True, f)
    | Some w \<Rightarrow>
        (case Append rec (case io_os f of [] \<Rightarrow> all_ok | os # _ \<Rightarrow> os) w (io_disk f) of
           (r, w', d') \<Rightarrow> (r \<noteq> None, f\<lparr>io_wal := Some w', io_disk := d', io_os := tl (io_os f)\<rparr>)))"

definition lift_meta :: "(sys \<Rightarrow> 'a \<times> sys) \<Rightarrow> 'c Files \<Rightarrow> 'a \<times> 'c Files" where
  "lift_meta op f = (case op (io_sys f) of (r, s) \<Rightarrow> (r, f\<lparr>io_sys := s\<rparr>))"

text \<open>Arithmetic on offsets is that of \<open>int64\<close>.\<close>

definition int64 :: "int \<Rightarrow> int" where
  "int64 x = sint (word_of_int x :: u64)"

subsection \<open>Write\<close>

text \<open>
  One round of the loop: \<open>n\<close> bytes into one chunk.  A negative offset inside a chunk makes the room negative;
  slicing the data with it panics, after the slice id was taken.
\<close>

definition write_piece :: "'c Store \<Rightarrow> Ino \<Rightarrow> u32 \<Rightarrow> u32 \<Rightarrow> int \<Rightarrow> bytes \<Rightarrow> StoreClass \<Rightarrow> 'c Files \<Rightarrow> ioerr option \<times> 'c Files" where
  "write_piece S ino indx pos n data class f =
    (case lift_meta NewSlice f of
       (None, f1) \<Rightarrow> (Some ErrNewSlice, f1)
     | (Some d, f1) \<Rightarrow>
         if n < 0 then (Some ErrPanic, f1)
         else (case st_Write S d (take (nat n) data) class (io_chunks f1) of
            (False, c) \<Rightarrow> (Some ErrChunk, f1\<lparr>io_chunks := c\<rparr>)
          | (True, c) \<Rightarrow>
              (case log_rec \<lparr>r_Seq = 0, r_Op = Wal.OpWrite, r_Ino = ino, r_Indx = indx, r_Off = pos, r_SliceID = d,
                     r_Size = word_of_int n, r_SliceOff = 0, r_SliceLen = word_of_int n\<rparr> (f1\<lparr>io_chunks := c\<rparr>) of
                 (False, f2) \<Rightarrow> (Some ErrWal, f2)
               | (True, f2) \<Rightarrow>
                   (case lift_meta (Meta_Slices.Write ino indx pos \<lparr>sl_id = d, sl_size = word_of_int n,
                        sl_off = 0, sl_len = word_of_int n\<rparr>) f2 of
                      (Inl e, f3) \<Rightarrow> (Some (ErrMeta e), f3)
                    | (Inr _, f3) \<Rightarrow> (None, f3)))))"

lemma write_piece_nonneg: "write_piece S ino indx pos n data class f = (None, f') \<Longrightarrow> 0 \<le> n"
  by (auto simp: write_piece_def split: prod.splits option.splits if_splits)

text \<open>The position inside a chunk is never the chunk size, so a round makes progress.\<close>

lemma pos_not_size: "uint (word_of_int (offset smod ChunkSize) :: u32) \<noteq> ChunkSize"
proof -
  define q where "q = offset smod ChunkSize"
  have q: "- 67108864 < q" "q < 67108864"
    using smod_int_range [where a = offset and b = ChunkSize] by (auto simp: ChunkSize_def q_def)
  have "q mod 4294967296 = (if 0 \<le> q then q else q + 4294967296)"
    using q mod_pos_pos_trivial [of "q + 4294967296" 4294967296] by simp
  then have "uint (word_of_int q :: u32) \<noteq> 67108864" using q by (simp add: uint_word_of_int)
  then show ?thesis by (simp add: q_def ChunkSize_def)
qed

function Write_loop ::
  "'c Store \<Rightarrow> Ino \<Rightarrow> int \<Rightarrow> bytes \<Rightarrow> StoreClass \<Rightarrow> nat \<Rightarrow> 'c Files \<Rightarrow> (nat \<times> ioerr option) \<times> 'c Files" where
  "Write_loop S ino offset data class written f =
    (if data = [] then ((written, None), f)
     else
       (let indx = word_of_int (offset sdiv ChunkSize);
            pos = word_of_int (offset smod ChunkSize);
            room = ChunkSize - uint pos;
            n = (if room < int (length data) then room else int (length data))
        in case write_piece S ino indx pos n data class f of
             (Some e, f1) \<Rightarrow> ((written, Some e), f1)
           | (None, f1) \<Rightarrow> Write_loop S ino (int64 (offset + n)) (drop (nat n) data) class (written + nat n) f1))"
  by pat_completeness auto
termination
proof (relation "measure (\<lambda>(S, ino, offset, data, class, written, f). length data)", goal_cases)
  case 1
  then show ?case by simp
next
  case (2 S ino offset data cl written f indx pos room n r f1)
  have "0 \<le> n" using 2(6,7) by (metis write_piece_nonneg)
  moreover have "n \<noteq> 0" using 2(1-5) pos_not_size [of offset] by (auto split: if_splits)
  ultimately show ?case using 2(1) by simp
qed

declare Write_loop.simps [simp del]

definition Files_Write ::
  "'c Store \<Rightarrow> Ino \<Rightarrow> int \<Rightarrow> bytes \<Rightarrow> StoreClass \<Rightarrow> 'c Files \<Rightarrow> (nat \<times> ioerr option) \<times> 'c Files" where
  "Files_Write S ino offset data class f = Write_loop S ino offset data class 0 f"

subsection \<open>Read\<close>

text \<open>
  Copy the segments of one chunk into the part of the buffer that is to be filled; a destination outside it
  panics.  The count that \<open>ReadAt\<close> returns is ignored.
\<close>

fun copy_segs :: "'c Store \<Rightarrow> int \<Rightarrow> seg list \<Rightarrow> bytes \<Rightarrow> 'c Files \<Rightarrow> (ioerr + bytes) \<times> 'c Files" where
  "copy_segs S base [] buf f = (Inr buf, f)"
| "copy_segs S base (g # gs) buf f =
    (if sg_id g = 0 then copy_segs S base gs buf f
     else
       (let dst = base + uint (sg_start g);
            len = uint (sg_end g - sg_start g)
        in if dst < 0 \<or> int (length buf) < dst + len then (Inl ErrPanic, f)
           else (case st_ReadAt S (sg_id g) (uint (sg_srcOff g)) (nat len) (io_chunks f) of
               (None, c) \<Rightarrow> (Inl ErrChunk, f\<lparr>io_chunks := c\<rparr>)
             | (Some bs, c) \<Rightarrow>
                 copy_segs S base gs (take (nat dst) buf @ bs @ drop (nat dst + length bs) buf) (f\<lparr>io_chunks := c\<rparr>))))"

text \<open>
  The loop over the chunks.  The chunk index is 32 bits wide; behind 2^58 it wraps and the loop steps back,
  so the loop is a partial function.
\<close>

partial_function (option) Read_loop ::
  "'c Store \<Rightarrow> Ino \<Rightarrow> int \<Rightarrow> int \<Rightarrow> int \<Rightarrow> bytes \<Rightarrow> 'c Files \<Rightarrow> ((ioerr + bytes) \<times> 'c Files) option" where
  "Read_loop S ino offset fin cur buf f =
    (if \<not> cur < fin then Some (Inr buf, f)
     else
       (let indx = word_of_int (cur sdiv ChunkSize) :: u32;
            chunkBase = uint indx * ChunkSize;
            lo = word_of_int (cur - chunkBase) :: u32;
            hiByte = (if fin < chunkBase + ChunkSize then fin else chunkBase + ChunkSize);
            hi = word_of_int (hiByte - chunkBase) :: u32
        in case lift_meta (ReadSlices ino indx) f of
             (Inl e, f1) \<Rightarrow> Some (Inl (ErrMeta e), f1)
           | (Inr slices, f1) \<Rightarrow>
               (case copy_segs S (chunkBase - offset) (resolve slices lo hi) buf f1 of
                  (Inl e, f2) \<Rightarrow> Some (Inl e, f2)
                | (Inr buf', f2) \<Rightarrow> Read_loop S ino offset fin hiByte buf' f2)))"

text \<open>\<open>Read\<close> into a buffer of \<open>n\<close> bytes: the bytes it filled.\<close>

definition Files_Read :: "'c Store \<Rightarrow> Ino \<Rightarrow> int \<Rightarrow> nat \<Rightarrow> 'c Files \<Rightarrow> ((ioerr + bytes) \<times> 'c Files) option" where
  "Files_Read S ino offset n f =
    (case lift_meta (GetAttr ino) f of
       (Inl e, f1) \<Rightarrow> Some (Inl (ErrMeta e), f1)
     | (Inr attr, f1) \<Rightarrow>
         (let fileLen = sint (a_length attr)
          in if fileLen \<le> offset \<or> n = 0 then Some (Inr [], f1)
             else
               (let fin = (if fileLen < int64 (offset + int n) then fileLen else int64 (offset + int n))
                in Read_loop S ino offset fin offset (replicate (nat (fin - offset)) 0) f1)))"

subsection \<open>HashFile, Truncate, Clone\<close>

definition hashStreamSize :: int where
  "hashStreamSize = 2 ^ 20"

text \<open>The digest is fed through \<open>acc\<close>; \<open>sha256\<close> and its hex encoding are the library function \<open>sha\<close>.\<close>

partial_function (option) Hash_loop ::
  "'c Store \<Rightarrow> Ino \<Rightarrow> int \<Rightarrow> int \<Rightarrow> bytes \<Rightarrow> 'c Files \<Rightarrow> ((ioerr + bytes) \<times> 'c Files) option" where
  "Hash_loop S ino fileLen off acc f =
    (if \<not> off < fileLen then Some (Inr acc, f)
     else
       (let want = (if hashStreamSize < fileLen - off then hashStreamSize else fileLen - off)
        in Option.bind (Files_Read S ino off (nat want) f) (\<lambda>(r, f1).
             case r of
               Inl e \<Rightarrow> Some (Inl e, f1)
             | Inr bs \<Rightarrow>
                 if bs = [] then Some (Inr acc, f1)
                 else Hash_loop S ino fileLen (off + int (length bs)) (acc @ bs) f1)))"

definition HashFile ::
  "(bytes \<Rightarrow> string) \<Rightarrow> 'c Store \<Rightarrow> Ino \<Rightarrow> 'c Files \<Rightarrow> ((ioerr + string) \<times> 'c Files) option" where
  "HashFile sha S ino f =
    (case lift_meta (GetAttr ino) f of
       (Inl e, f1) \<Rightarrow> Some (Inl (ErrMeta e), f1)
     | (Inr attr, f1) \<Rightarrow>
         map_option (apfst (map_sum id sha)) (Hash_loop S ino (sint (a_length attr)) 0 [] f1))"

text \<open>The length of a truncate travels in two fields of the log record.\<close>

definition truncate_rec :: "Ino \<Rightarrow> int \<Rightarrow> Record" where
  "truncate_rec ino sz = \<lparr>r_Seq = 0, r_Op = OpTruncate, r_Ino = ino, r_Indx = ucast (drop_bit 32 (word_of_int sz :: u64)),
     r_Off = ucast (word_of_int sz :: u64), r_SliceID = 0, r_Size = 0, r_SliceOff = 0, r_SliceLen = 0\<rparr>"

definition Files_Truncate :: "Ino \<Rightarrow> int \<Rightarrow> 'c Files \<Rightarrow> ioerr option \<times> 'c Files" where
  "Files_Truncate ino sz f =
    (case log_rec (truncate_rec ino sz) f of
       (False, f1) \<Rightarrow> (Some ErrWal, f1)
     | (True, f1) \<Rightarrow>
         (case lift_meta (Truncate ino sz) f1 of
            (Inl e, f2) \<Rightarrow> (Some (ErrMeta e), f2)
          | (Inr _, f2) \<Rightarrow> (None, f2)))"

definition Files_Clone :: "(slice_row list \<Rightarrow> slice_row list) \<Rightarrow> Ino \<Rightarrow> Ino \<Rightarrow> 'c Files \<Rightarrow> ioerr option \<times> 'c Files" where
  "Files_Clone scan src dst f =
    (case lift_meta (Clone scan src dst) f of
       (Inl e, f1) \<Rightarrow> (Some (ErrMeta e), f1)
     | (Inr _, f1) \<Rightarrow> (None, f1))"

subsection \<open>CopyFileRange\<close>

definition copy_step :: "int \<Rightarrow> int \<Rightarrow> int \<Rightarrow> int" where
  "copy_step remaining cur dcur =
    (let step = (if ChunkSize - cur smod ChunkSize < remaining then ChunkSize - cur smod ChunkSize else remaining)
     in if ChunkSize - dcur smod ChunkSize < step then ChunkSize - dcur smod ChunkSize else step)"

partial_function (option) Copy_loop ::
  "'c Store \<Rightarrow> (slice_row list \<Rightarrow> slice_row list) \<Rightarrow> Ino \<Rightarrow> Ino \<Rightarrow> int \<Rightarrow> int \<Rightarrow> int \<Rightarrow> int \<Rightarrow> 'c Files
    \<Rightarrow> ((int \<times> ioerr option) \<times> 'c Files) option" where
  "Copy_loop S scan src dst fin cur dcur copied f =
    (if \<not> cur < fin then Some ((copied, None), f)
     else if cur smod ChunkSize = 0 \<and> dcur smod ChunkSize = 0 \<and> ChunkSize \<le> fin - cur
     then
       (let nChunks = (fin - cur) sdiv ChunkSize; width = nChunks * ChunkSize
        in case lift_meta (CloneRange scan src dst (word_of_int (cur sdiv ChunkSize)) (word_of_int (dcur sdiv ChunkSize))
              (word_of_int nChunks)) f of
             (Inl e, f1) \<Rightarrow> Some ((copied, Some (ErrMeta e)), f1)
           | (Inr _, f1) \<Rightarrow> Copy_loop S scan src dst fin (cur + width) (int64 (dcur + width)) (copied + width) f1)
     else
       (let step = copy_step (fin - cur) cur dcur
        in Option.bind (Files_Read S src cur (nat step) f) (\<lambda>(r, f1).
             case r of
               Inl e \<Rightarrow> Some ((copied, Some e), f1)
             | Inr bs \<Rightarrow>
                 if bs = [] then Some ((copied, None), f1)
                 else
                   (case Files_Write S dst dcur bs ClassDefault f1 of
                      ((wn, Some e), f2) \<Rightarrow> Some ((copied, Some e), f2)
                    | ((wn, None), f2) \<Rightarrow>
                        if int (length bs) < step then Some ((copied + int wn, None), f2)
                        else Copy_loop S scan src dst fin (cur + int wn) (int64 (dcur + int wn)) (copied + int wn) f2))))"

text \<open>The destination is extended, outside the log, when the copy ends past its length.\<close>

definition extend_dst :: "Ino \<Rightarrow> int \<Rightarrow> int \<Rightarrow> 'c Files \<Rightarrow> (int \<times> ioerr option) \<times> 'c Files" where
  "extend_dst dst dstOff copied f =
    (if copied \<le> 0 then ((copied, None), f)
     else case lift_meta (GetAttr dst) f of
         (Inl e, f1) \<Rightarrow> ((copied, None), f1)
       | (Inr da, f1) \<Rightarrow>
           if sint (a_length da) < int64 (dstOff + copied)
           then (case lift_meta (Truncate dst (int64 (dstOff + copied))) f1 of
               (Inl e, f2) \<Rightarrow> ((copied, Some (ErrMeta e)), f2)
             | (Inr _, f2) \<Rightarrow> ((copied, None), f2))
           else ((copied, None), f1))"

definition CopyFileRange ::
  "'c Store \<Rightarrow> (slice_row list \<Rightarrow> slice_row list) \<Rightarrow> Ino \<Rightarrow> Ino \<Rightarrow> int \<Rightarrow> int \<Rightarrow> int \<Rightarrow> 'c Files
    \<Rightarrow> ((int \<times> ioerr option) \<times> 'c Files) option" where
  "CopyFileRange S scan src dst srcOff dstOff len f =
    (if len \<le> 0 then Some ((0, None), f)
     else case lift_meta (GetAttr src) f of
         (Inl e, f1) \<Rightarrow> Some ((0, Some (ErrMeta e)), f1)
       | (Inr sa, f1) \<Rightarrow>
           if sint (a_length sa) \<le> srcOff then Some ((0, None), f1)
           else
             (let len' = (if sint (a_length sa) < int64 (srcOff + len) then int64 (sint (a_length sa) - srcOff) else len)
              in Option.bind (Copy_loop S scan src dst (int64 (srcOff + len')) srcOff dstOff 0 f1) (\<lambda>(r, f2).
                   case r of
                     (copied, Some e) \<Rightarrow> Some ((copied, Some e), f2)
                   | (copied, None) \<Rightarrow> Some (extend_dst dst dstOff copied f2))))"

subsection \<open>ReplayWAL\<close>

datatype replay_err = ErrUnknownOp | ErrErrno errno

definition replay_rec :: "Record \<Rightarrow> (nat \<times> nat) \<times> sys \<Rightarrow> replay_err option \<times> (nat \<times> nat) \<times> sys" where
  "replay_rec rec st = (case st of ((applied, skipped), s) \<Rightarrow>
    (if r_Op rec \<noteq> Wal.OpWrite \<and> r_Op rec \<noteq> OpTruncate then (Some ErrUnknownOp, st)
     else case (if r_Op rec = Wal.OpWrite
          then Meta_Slices.Write (r_Ino rec) (r_Indx rec) (r_Off rec)
            \<lparr>sl_id = r_SliceID rec, sl_size = r_Size rec, sl_off = r_SliceOff rec, sl_len = r_SliceLen rec\<rparr> s
          else Truncate (r_Ino rec) (sint (push_bit 32 (ucast (r_Indx rec)) OR ucast (r_Off rec) :: u64)) s) of
         (Inr _, s') \<Rightarrow> (None, (applied + 1, skipped), s')
       | (Inl e, s') \<Rightarrow>
           if e \<in> {ENOENT, EINVAL, ESTALE} then (None, (applied, skipped + 1), s')
           else (Some (ErrErrno e), (applied, skipped), s')))"

text \<open>The system calls of the replay and those of the checkpoint behind it.\<close>

definition ReplayWAL ::
  "os_calls \<Rightarrow> os_calls \<Rightarrow> WAL \<Rightarrow> disk \<Rightarrow> sys \<Rightarrow> (bool \<times> (nat \<times> nat)) \<times> WAL \<times> disk \<times> sys" where
  "ReplayWAL os os' w d s =
    (case Replay replay_rec os w d ((0, 0), s) of
       (Some e, (res, s')) \<Rightarrow> ((False, res), w, d, s')
     | (None, (res, s')) \<Rightarrow>
         (case Checkpoint (LastSeq w) os' w d of (ok, w', d') \<Rightarrow> ((ok, res), w', d', s')))"

end
