(* ===== verification/File_Props.thy ===== *)
theory File_Props
  imports File_Io
begin

text \<open>
  Correctness of the data path.  \<open>file_data\<close> is the contents of a file as the slice table and the slice store
  give them; a read returns a window of it and a write overwrites a part of it.
\<close>

section \<open>The contents of a file\<close>

definition byte_at :: "(u64 \<Rightarrow> bytes option) \<Rightarrow> db \<Rightarrow> Ino \<Rightarrow> int \<Rightarrow> u8" where
  "byte_at v db i o' = (case file_src db i o' of
      None \<Rightarrow> 0
    | Some (d, k) \<Rightarrow> (case v d of Some data \<Rightarrow> if nat k < length data then data ! nat k else 0 | None \<Rightarrow> 0))"

definition file_data :: "(u64 \<Rightarrow> bytes option) \<Rightarrow> db \<Rightarrow> Ino \<Rightarrow> bytes" where
  "file_data v db i = map (\<lambda>o'. byte_at v db i (int o')) [0..<nat (file_len db i)]"

text \<open>Slice id 0 stands for a hole in the overlay, so no row may carry it.\<close>

definition ids_nonzero :: "db \<Rightarrow> bool" where
  "ids_nonzero db \<longleftrightarrow> (\<forall>r \<in> set (t_slice_ref db). sr_slice_id r \<noteq> 0)"

lemma sdiv_chunk: "0 \<le> x \<Longrightarrow> x sdiv ChunkSize = x div ChunkSize"
  by (simp add: signed_divide_int_def sgn_if ChunkSize_def)

lemma smod_chunk: "0 \<le> x \<Longrightarrow> x smod ChunkSize = x mod ChunkSize"
  by (simp add: smod_mod_positive ChunkSize_def)

lemma row_ok_no_wrap: "row_ok r \<Longrightarrow> no_wrap (row_ref r)"
  using row_ok_ref(1,2) [of r] by (simp add: no_wrap_def row_ok_def ChunkSize_def)

lemma file_src_bound:
  assumes "slices_ok db" and "file_src db i o' = Some (d, k)"
  shows "0 \<le> k \<and> k < 2 ^ 31" and "ids_nonzero db \<Longrightarrow> d \<noteq> 0"
proof -
  obtain r where r: "r \<in> set (t_slice_ref db)" "row_covers i o' r" "d = sr_slice_id r" "k = sr_soff r + (o' - row_start r)"
    using row_src_Some_in assms(2) unfolding file_src_def by blast
  have "row_ok r" using assms(1) r(1) by (simp add: slices_ok_def)
  then show "0 \<le> k \<and> k < 2 ^ 31" using r(2,4) by (auto simp: row_ok_def row_covers_def)
  show "ids_nonzero db \<Longrightarrow> d \<noteq> 0" using r(1,3) by (simp add: ids_nonzero_def)
qed

text \<open>A segment of the overlay of a chunk names the source of each of its bytes.\<close>

lemma resolve_file_src:
  assumes ok: "slices_ok db" and nz: "ids_nonzero db" and c: "0 \<le> c" and lh: "lo < hi" "uint hi \<le> ChunkSize"
    and g: "g \<in> set (resolve (map row_ref (chunk_rows i c db)) lo hi)" and p: "p \<in> seg_set g"
  shows "case file_src db i (c * ChunkSize + uint p) of
      None \<Rightarrow> sg_id g = 0
    | Some (d, k) \<Rightarrow> d = sg_id g \<and> k = uint (sg_srcOff g) + (uint p - uint (sg_start g))"
proof -
  let ?rs = "map row_ref (chunk_rows i c db)"
  have nw: "\<forall>s \<in> set ?rs. no_wrap s"
    using ok by (auto simp: chunk_rows_ok [OF ok] slices_ok_def row_ok_no_wrap)
  note parts = resolve_parts [OF nw lh(1)]
  have src: "newest ?rs q = map_option (\<lambda>(d, k). (d, word_of_int k)) (file_src db i (c * ChunkSize + uint q))"
    if "q \<in> seg_set g" for q
  proof -
    have "q < hi" using parts(2) g that by auto
    then have "uint q < ChunkSize" using lh(2) by (simp add: word_less_def)
    then have "(c * ChunkSize + uint q) div ChunkSize = c" "(c * ChunkSize + uint q) mod ChunkSize = uint q"
      by (simp_all add: ChunkSize_def)
    then show ?thesis
      using newest_file_src [OF ok, of "c * ChunkSize + uint q" i] c by (simp add: ChunkSize_def)
  qed
  have st: "sg_start g \<in> seg_set g" "sg_start g \<le> p" using p by (auto simp: seg_set_def)
  show ?thesis
  proof (cases "file_src db i (c * ChunkSize + uint p)")
    case None
    then show ?thesis using parts(3) [OF g p] src [OF p] by simp
  next
    case (Some x)
    obtain d k where x: "x = (d, k)" by (rule prod.exhaust)
    have shows_p: "sg_id g = d" "word_of_int k = sg_srcOff g + (p - sg_start g)"
      using parts(3) [OF g p] src [OF p] Some x by (auto simp: seg_shows_def)
    show ?thesis
    proof (cases "file_src db i (c * ChunkSize + uint (sg_start g))")
      case None
      then have "sg_id g = 0" using parts(3) [OF g st(1)] src [OF st(1)] by simp
      then show ?thesis using file_src_bound(2) [OF ok Some [unfolded x] nz] shows_p(1) by simp
    next
      case (Some y)
      obtain d' k' where y: "y = (d', k')" by (rule prod.exhaust)
      have "word_of_int k' = sg_srcOff g"
        using parts(3) [OF g st(1)] src [OF st(1)] Some y by (auto simp: seg_shows_def)
      then have so: "uint (sg_srcOff g) < 2 ^ 31"
        using file_src_bound(1) [OF ok Some [unfolded y]] uint_word_of_int_32 [of k'] by simp
      have "p < hi" using parts(2) g p by auto
      then have "uint p < 67108864" using lh(2) by (simp add: ChunkSize_def word_less_def)
      then have "uint p - uint (sg_start g) < 2147483648" using uint_ge_0 [of "sg_start g"] by linarith
      then have "uint (sg_srcOff g + (p - sg_start g)) = uint (sg_srcOff g) + (uint p - uint (sg_start g))"
        using so uint_sub_nowrap [OF st(2)] by (subst uint_add_nowrap) simp_all
      moreover have "uint (word_of_int k :: u32) = k"
        using file_src_bound(1) [OF ok \<open>file_src db i (c * ChunkSize + uint p) = Some x\<close> [unfolded x]]
        by (intro uint_word_of_int_32) simp_all
      ultimately show ?thesis using \<open>file_src db i (c * ChunkSize + uint p) = Some x\<close> x shows_p by simp
    qed
  qed
qed


section \<open>Read\<close>

text \<open>The positions of the buffer that a segment fills.\<close>

definition seg_at :: "int \<Rightarrow> nat \<Rightarrow> seg \<Rightarrow> bool" where
  "seg_at base j g \<longleftrightarrow> base + uint (sg_start g) \<le> int j \<and> int j < base + uint (sg_end g)"

definition slice_byte :: "(u64 \<Rightarrow> bytes option) \<Rightarrow> u64 \<Rightarrow> int \<Rightarrow> u8" where
  "slice_byte v d k = (case v d of Some data \<Rightarrow> if nat k < length data then data ! nat k else 0 | None \<Rightarrow> 0)"

lemma byte_at_slice: "byte_at v db i o' = (case file_src db i o' of None \<Rightarrow> 0 | Some (d, k) \<Rightarrow> slice_byte v d k)"
  by (simp add: byte_at_def slice_byte_def split: option.splits)

text \<open>A segment lies in the buffer, and its bytes are those that \<open>val\<close> wants; the buffer holds zeros or these bytes there.\<close>

definition seg_ready :: "(u64 \<Rightarrow> bytes option) \<Rightarrow> int \<Rightarrow> bytes \<Rightarrow> (nat \<Rightarrow> u8) \<Rightarrow> seg \<Rightarrow> bool" where
  "seg_ready v base buf val g \<longleftrightarrow> sg_start g < sg_end g \<and> 0 \<le> base + uint (sg_start g) \<and> base + uint (sg_end g) \<le> int (length buf) \<and>
    (\<forall>j. sg_id g \<noteq> 0 \<and> seg_at base j g \<longrightarrow>
      val j = slice_byte v (sg_id g) (uint (sg_srcOff g) + (int j - base - uint (sg_start g))) \<and> buf ! j \<in> {0, val j})"

lemma nth_patch:
  assumes "dst + length bs \<le> length buf" "j < length buf"
  shows "(take dst buf @ bs @ drop (dst + length bs) buf) ! j = (if dst \<le> j \<and> j < dst + length bs then bs ! (j - dst) else buf ! j)"
  using assms by (auto simp: nth_append min_def)

text \<open>The buffer of a read that has got to \<open>cur\<close>.\<close>

definition read_upto :: "(u64 \<Rightarrow> bytes option) \<Rightarrow> db \<Rightarrow> Ino \<Rightarrow> int \<Rightarrow> int \<Rightarrow> bytes \<Rightarrow> bool" where
  "read_upto v db i offset cur buf \<longleftrightarrow>
    (\<forall>j < length buf. buf ! j = (if offset + int j < cur then byte_at v db i (offset + int j) else 0))"

lemma seg_within:
  assumes "sg_start g < sg_end g" and "seg_set g \<subseteq> {p. lo \<le> p \<and> p < hi}"
  shows "lo \<le> sg_start g \<and> sg_end g \<le> hi"
proof -
  have "sg_start g \<in> seg_set g" using assms(1) by (simp add: seg_set_def)
  moreover have "1 \<le> uint (sg_end g)" using assms(1) uint_ge_0 [of "sg_start g"] unfolding word_less_def by linarith
  then have e: "uint (sg_end g - 1) = uint (sg_end g) - 1" by (subst uint_sub_nowrap) (simp_all add: word_le_def)
  have "sg_end g - 1 \<in> seg_set g" using assms(1) e by (simp add: seg_set_def word_le_def word_less_def)
  ultimately show ?thesis using assms(2) e by (auto simp: word_le_def word_less_def)
qed

text \<open>The overlay of one chunk gives exactly the bytes of the window.\<close>

definition chunk_segs :: "db \<Rightarrow> Ino \<Rightarrow> int \<Rightarrow> u32 \<Rightarrow> u32 \<Rightarrow> seg list" where
  "chunk_segs db i c lo hi = resolve (map row_ref (chunk_rows i c db)) lo hi"

lemma resolve_window:
  assumes ok: "slices_ok db" and nz: "ids_nonzero db" and c: "0 \<le> c" and lh: "lo < hi" "uint hi \<le> ChunkSize"
    and buf: "read_upto v db i offset (c * ChunkSize + uint lo) buf"
    and rng: "offset \<le> c * ChunkSize + uint lo" "c * ChunkSize + uint hi - offset \<le> int (length buf)"
  shows "g \<in> set (chunk_segs db i c lo hi) \<Longrightarrow> seg_ready v (c * ChunkSize - offset) buf (\<lambda>j. byte_at v db i (offset + int j)) g"
    and "length buf' = length buf \<Longrightarrow> (\<forall>j < length buf. buf' ! j =
        (if \<exists>g \<in> set (chunk_segs db i c lo hi). sg_id g \<noteq> 0 \<and> seg_at (c * ChunkSize - offset) j g
         then byte_at v db i (offset + int j) else buf ! j)) \<Longrightarrow>
      read_upto v db i offset (c * ChunkSize + uint hi) buf'"
proof -
  let ?gs = "chunk_segs db i c lo hi" and ?base = "c * ChunkSize - offset"
  have nw: "\<forall>s \<in> set (map row_ref (chunk_rows i c db)). no_wrap s"
    using ok by (auto simp: chunk_rows_ok [OF ok] slices_ok_def row_ok_no_wrap)
  note parts = resolve_parts [OF nw lh(1), folded chunk_segs_def]
  have bounds: "sg_start g < sg_end g" "lo \<le> sg_start g" "sg_end g \<le> hi" if "g \<in> set ?gs" for g
  proof -
    show "sg_start g < sg_end g" using parts(1) that by (simp add: segs_disjoint_def)
    moreover have "seg_set g \<subseteq> {p. lo \<le> p \<and> p < hi}" using parts(2) that by auto
    ultimately show "lo \<le> sg_start g" "sg_end g \<le> hi" using seg_within by blast+
  qed
  have pos: "uint (word_of_int (int j - ?base) :: u32) = int j - ?base"
    if "uint lo \<le> int j - ?base" "int j - ?base < uint hi" for j
  proof (rule uint_word_of_int_32)
    show "0 \<le> int j - ?base" using that(1) uint_ge_0 [of lo] by linarith
    show "int j - ?base < 2 ^ 32" using that(2) uint_lt2p [of hi] by simp
  qed
  have at_pos: "seg_at ?base j g \<longleftrightarrow> word_of_int (int j - ?base) \<in> seg_set g"
    if "g \<in> set ?gs" "uint lo \<le> int j - ?base" "int j - ?base < uint hi" for g j
    using pos [OF that(2,3)] by (auto simp: seg_at_def seg_set_def word_le_def word_less_def)
  have src: "byte_at v db i (offset + int j) =
      (if sg_id g = 0 then 0 else slice_byte v (sg_id g) (uint (sg_srcOff g) + (int j - ?base - uint (sg_start g))))"
    if "g \<in> set ?gs" "seg_at ?base j g" for g j
  proof -
    have "uint lo \<le> int j - ?base" "int j - ?base < uint hi"
      using bounds [OF that(1)] that(2) by (auto simp: seg_at_def word_le_def)
    note p = pos [OF this] and q = at_pos [OF that(1) this]
    have o': "c * ChunkSize + uint (word_of_int (int j - ?base) :: u32) = offset + int j" unfolding p by simp
    have "word_of_int (int j - ?base) \<in> seg_set g" using q that(2) by simp
    from resolve_file_src [OF ok nz c lh that(1) [unfolded chunk_segs_def] this]
    have src: "case file_src db i (offset + int j) of None \<Rightarrow> sg_id g = 0
      | Some (d, k) \<Rightarrow> d = sg_id g \<and> k = uint (sg_srcOff g) + (int j - ?base - uint (sg_start g))"
      unfolding o' unfolding p .
    show ?thesis
    proof (cases "file_src db i (offset + int j)")
      case None
      then show ?thesis using src by (simp add: byte_at_slice)
    next
      case (Some x)
      obtain d k where x: "x = (d, k)" by (rule prod.exhaust)
      with Some src have "d = sg_id g" "k = uint (sg_srcOff g) + (int j - ?base - uint (sg_start g))" by simp_all
      then show ?thesis using Some x file_src_bound(2) [OF ok Some [unfolded x] nz] by (simp add: byte_at_slice)
    qed
  qed
  show "seg_ready v ?base buf (\<lambda>j. byte_at v db i (offset + int j)) g" if g: "g \<in> set ?gs" for g
  proof -
    have "buf ! j = 0" if j: "seg_at ?base j g" for j
    proof -
      have "j < length buf" "\<not> offset + int j < c * ChunkSize + uint lo"
        using bounds [OF g] j rng by (auto simp: seg_at_def word_le_def)
      then show ?thesis using buf by (simp add: read_upto_def)
    qed
    then show ?thesis using bounds [OF g] src [OF g] rng by (auto simp: seg_ready_def word_le_def)
  qed
  show "read_upto v db i offset (c * ChunkSize + uint hi) buf'" if l: "length buf' = length buf"
    and b: "\<forall>j < length buf. buf' ! j = (if \<exists>g \<in> set ?gs. sg_id g \<noteq> 0 \<and> seg_at ?base j g
         then byte_at v db i (offset + int j) else buf ! j)"
    unfolding read_upto_def
  proof (intro allI impI)
    fix j
    assume j: "j < length buf'"
    consider "uint lo \<le> int j - ?base" "int j - ?base < uint hi" | "int j - ?base < uint lo" | "uint hi \<le> int j - ?base" by linarith
    then show "buf' ! j = (if offset + int j < c * ChunkSize + uint hi then byte_at v db i (offset + int j) else 0)"
    proof cases
      case 1
      then have "word_of_int (int j - ?base) \<in> {p. lo \<le> p \<and> p < hi}"
        unfolding mem_Collect_eq word_le_def word_less_def pos [OF 1] by simp
      then obtain g where g: "g \<in> set ?gs" "seg_at ?base j g" using parts(2) at_pos 1 by blast
      have "buf ! j = 0" using buf j l 1 by (simp add: read_upto_def)
      then show ?thesis using b j l g src [OF g] 1 by auto
    next
      case 2
      then have "\<not> seg_at ?base j g" if "g \<in> set ?gs" for g using bounds [OF that] by (auto simp: seg_at_def word_le_def)
      then show ?thesis using b j l 2 buf lh(1) by (auto simp: read_upto_def word_less_def)
    next
      case 3
      then have "\<not> seg_at ?base j g" if "g \<in> set ?gs" for g using bounds [OF that] by (auto simp: seg_at_def word_le_def)
      then show ?thesis using b j l 3 buf lh(1) by (auto simp: read_upto_def word_less_def)
    qed
  qed
qed

text \<open>A call that only reads: the tables, the engine and the log stay.\<close>

definition quiet :: "'c Files \<Rightarrow> 'c Files \<Rightarrow> bool" where
  "quiet f f' \<longleftrightarrow> s_db (io_sys f') = s_db (io_sys f) \<and> s_eng (io_sys f') = s_eng (io_sys f) \<and>
     s_now (io_sys f') = s_now (io_sys f) \<and> io_wal f' = io_wal f \<and> io_disk f' = io_disk f \<and> io_os f' = io_os f"

lemma quiet_refl [simp]: "quiet f f"
  by (simp add: quiet_def)

lemma quiet_trans [trans]: "quiet f g \<Longrightarrow> quiet g h \<Longrightarrow> quiet f h"
  by (simp add: quiet_def)

lemma quiet_chunks: "f' = f\<lparr>io_chunks := c\<rparr> \<Longrightarrow> quiet f f'"
  by (simp add: quiet_def)

lemma lift_GetAttr:
  assumes "lift_meta (GetAttr i) f = (r, f')"
  shows "quiet f f' \<and> io_chunks f' = io_chunks f \<and> (\<forall>a. r = Inr a \<longrightarrow> getAttr (s_db (io_sys f)) i = Some a)"
proof -
  obtain q s where run: "run_stmt (\<lambda>db. Some (getAttr db i, db)) (io_sys f) = (q, s)" by (rule prod.exhaust)
  have "s_db s = s_db (io_sys f)" by (rule run_stmt_read [OF run])
  moreover have "a = getAttr (s_db (io_sys f)) i" if "q = Some a" for a
    using run_stmt_Some [OF run [unfolded that]] by auto
  ultimately show ?thesis
    using assms run run_stmt_frame [OF run] by (auto simp: lift_meta_def GetAttr_def quiet_def split: option.splits)
qed

lemma lift_ReadSlices:
  assumes "lift_meta (ReadSlices i indx) f = (r, f')"
  shows "quiet f f' \<and> io_chunks f' = io_chunks f \<and>
    (\<forall>ss. r = Inr ss \<longrightarrow> ss = map row_ref (chunk_rows i (uint indx) (s_db (io_sys f))))"
proof -
  obtain q s where run: "run_stmt (sel_chunk i indx) (io_sys f) = (q, s)" by (rule prod.exhaust)
  have rows: "s_db s = s_db (io_sys f) \<and> rows = chunk_rows i (uint indx) (s_db (io_sys f))" if "q = Some rows" for rows
    using run_stmt_Some [OF run [unfolded that]] by (auto simp: sel_chunk_def split: if_splits)
  then have "s_db s = s_db (io_sys f)" using run_stmt_None [of "sel_chunk i indx"] run by (cases q) auto
  then show ?thesis
    using assms run run_stmt_frame [OF run] rows by (auto simp: lift_meta_def ReadSlices_def quiet_def split: option.splits)
qed

lemma getAttr_len:
  assumes "getAttr db i = Some a" and "0 \<le> file_len db i" and "file_len db i < 2 ^ 63"
  shows "sint (a_length a) = file_len db i"
  using assms sint_word_of_int_64 [of "file_len db i"]
  by (auto simp: getAttr_def file_len_def scanAttr_def split: option.splits)

lemma int64_id: "- (2 ^ 63) \<le> x \<Longrightarrow> x < 2 ^ 63 \<Longrightarrow> int64 x = x"
  unfolding int64_def by (rule sint_word_of_int_64)

lemma length_file_data [simp]: "length (file_data v db i) = nat (file_len db i)"
  by (simp add: file_data_def)

lemma nth_file_data: "j < nat (file_len db i) \<Longrightarrow> file_data v db i ! j = byte_at v db i (int j)"
  by (simp add: file_data_def)

lemma read_upto_window:
  assumes "read_upto v db i offset fin buf" and "int (length buf) = fin - offset" and "0 \<le> offset"
    and "fin = min (file_len db i) (offset + int n)" and "0 \<le> fin"
  shows "buf = take n (drop (nat offset) (file_data v db i))"
proof (rule nth_equalityI)
  show l: "length buf = length (take n (drop (nat offset) (file_data v db i)))" using assms(2-5) by auto
  fix j
  assume j: "j < length buf"
  then have "nat offset + j < nat (file_len db i)" using assms(2-4) by auto
  moreover have "offset + int j < fin" using assms(2) j by linarith
  then have "buf ! j = byte_at v db i (offset + int j)" using assms(1) j by (simp add: read_upto_def)
  ultimately show "buf ! j = take n (drop (nat offset) (file_data v db i)) ! j"
    using assms(3) j l by (simp add: nth_file_data)
qed

context slice_reader
begin

lemma copy_segs_bytes:
  assumes "inv (io_chunks f)" and "copy_segs S base gs buf f = (r, f')"
    and "\<forall>g \<in> set gs. seg_ready (view (io_chunks f)) base buf val g"
  shows "f' = f\<lparr>io_chunks := io_chunks f'\<rparr> \<and> inv (io_chunks f') \<and> view (io_chunks f') = view (io_chunks f) \<and> r \<noteq> Inl ErrPanic \<and>
    (\<forall>buf'. r = Inr buf' \<longrightarrow> length buf' = length buf \<and>
      (\<forall>j < length buf. buf' ! j = (if \<exists>g \<in> set gs. sg_id g \<noteq> 0 \<and> seg_at base j g then val j else buf ! j)))"
  using assms
proof (induction gs arbitrary: buf f)
  case Nil
  then show ?case by auto
next
  case (Cons g gs)
  show ?case
  proof (cases "sg_id g = 0")
    case True
    have run: "copy_segs S base gs buf f = (r, f')" using Cons.prems(2) True by simp
    have ex: "(\<exists>h \<in> set (g # gs). sg_id h \<noteq> 0 \<and> seg_at base j h) = (\<exists>h \<in> set gs. sg_id h \<noteq> 0 \<and> seg_at base j h)" for j
      using True by simp
    show ?thesis
      unfolding ex by (rule Cons.IH [OF Cons.prems(1) run]) (use Cons.prems(3) in simp)
  next
    case False
    define dst len where "dst = nat (base + uint (sg_start g))" and "len = nat (uint (sg_end g - sg_start g))"
    have g: "sg_start g < sg_end g" "0 \<le> base + uint (sg_start g)" "base + uint (sg_end g) \<le> int (length buf)"
      using Cons.prems(3) by (simp_all add: seg_ready_def)
    have len: "uint (sg_end g - sg_start g) = uint (sg_end g) - uint (sg_start g)"
      using g(1) by (intro uint_sub_nowrap) simp
    have dl: "int dst = base + uint (sg_start g)" "int dst + int len = base + uint (sg_end g)"
      using g len by (simp_all add: dst_def len_def word_less_def)
    obtain q c where rd: "st_ReadAt S (sg_id g) (uint (sg_srcOff g)) len (io_chunks f) = (q, c)" by (rule prod.exhaust)
    note fr = readat_frame [OF Cons.prems(1) rd uint_ge_0]
    have step: "copy_segs S base (g # gs) buf f = (case q of None \<Rightarrow> (Inl ErrChunk, f\<lparr>io_chunks := c\<rparr>)
        | Some bs \<Rightarrow> copy_segs S base gs (take dst buf @ bs @ drop (dst + length bs) buf) (f\<lparr>io_chunks := c\<rparr>))"
    proof -
      have "\<not> (base + uint (sg_start g) < 0 \<or> int (length buf) < base + uint (sg_start g) + uint (sg_end g - sg_start g))"
        using g len by simp
      with False rd show ?thesis
        unfolding copy_segs.simps Let_def dst_def [symmetric] len_def [symmetric] by (simp add: dst_def)
    qed
    show ?thesis
    proof (cases q)
      case None
      then show ?thesis using step Cons.prems(2) fr by auto
    next
      case (Some bs)
      obtain data where d: "view (io_chunks f) (sg_id g) = Some data" "bs = take len (drop (unat (sg_srcOff g)) data)"
        using readat_ok [OF Cons.prems(1) _ uint_ge_0] rd Some by fastforce
      let ?buf = "take dst buf @ bs @ drop (dst + length bs) buf"
      have bl: "length bs \<le> len" by (simp add: d(2))
      have fits: "dst + length bs \<le> length buf" using bl dl g(3) by linarith
      have lb: "length ?buf = length buf" using fits by simp
      have run: "copy_segs S base gs ?buf (f\<lparr>io_chunks := c\<rparr>) = (r, f')" using step Some Cons.prems(2) by simp
      have at_g: "seg_at base j g \<longleftrightarrow> dst \<le> j \<and> j < dst + len" for j using dl by (auto simp: seg_at_def)
      have val_g: "val j = (if unat (sg_srcOff g) + (j - dst) < length data then data ! (unat (sg_srcOff g) + (j - dst)) else 0)"
        "buf ! j \<in> {0, val j}" if "seg_at base j g" for j
      proof -
        have "dst \<le> j" using at_g [of j] that by simp
        then have "int j - base - uint (sg_start g) = int (j - dst)" unfolding of_nat_diff [OF \<open>dst \<le> j\<close>] dl(1) by simp
        then have "nat (uint (sg_srcOff g) + (int j - base - uint (sg_start g))) = unat (sg_srcOff g) + (j - dst)"
          by (simp only: nat_add_distrib uint_ge_0 of_nat_0_le_iff nat_int unat_eq_nat_uint)
        then have k: "slice_byte (view (io_chunks f)) (sg_id g) (uint (sg_srcOff g) + (int j - base - uint (sg_start g))) =
            (if unat (sg_srcOff g) + (j - dst) < length data then data ! (unat (sg_srcOff g) + (j - dst)) else 0)"
          by (simp add: slice_byte_def d(1))
        have "seg_ready (view (io_chunks f)) base buf val g" using Cons.prems(3) by simp
        then show "val j = (if unat (sg_srcOff g) + (j - dst) < length data then data ! (unat (sg_srcOff g) + (j - dst)) else 0)"
          "buf ! j \<in> {0, val j}"
          using False that unfolding seg_ready_def k [symmetric] by blast+
      qed
      have here: "?buf ! j = (if seg_at base j g then val j else buf ! j)" if j: "j < length buf" for j
      proof (cases "seg_at base j g \<and> \<not> j < dst + length bs")
        case True
        then have "length data \<le> unat (sg_srcOff g) + (j - dst)" using at_g [of j] by (auto simp: d(2))
        then show ?thesis using True val_g [of j] nth_patch [OF fits j] by simp
      next
        case False
        then show ?thesis using val_g [of j] at_g [of j] nth_patch [OF fits j] bl by (auto simp: d(2))
      qed
      have ready: "seg_ready (view c) base ?buf val h" if "h \<in> set gs" for h
      proof -
        have h: "seg_ready (view c) base buf val h" using Cons.prems(3) that fr by simp
        have "?buf ! j \<in> {0, val j}" if "sg_id h \<noteq> 0" "seg_at base j h" for j
        proof -
          have "j < length buf" using h that by (auto simp: seg_at_def seg_ready_def)
          moreover have "buf ! j \<in> {0, val j}" using h that unfolding seg_ready_def by blast
          ultimately show ?thesis using here [of j] by simp
        qed
        then show ?thesis using h unfolding seg_ready_def lb by blast
      qed
      have i: "inv (io_chunks (f\<lparr>io_chunks := c\<rparr>))" and v: "view (io_chunks (f\<lparr>io_chunks := c\<rparr>)) = view (io_chunks f)"
        using fr by simp_all
      have ready': "\<forall>h \<in> set gs. seg_ready (view (io_chunks (f\<lparr>io_chunks := c\<rparr>))) base ?buf val h" using ready by simp
      note IH = Cons.IH [OF i run ready', unfolded v lb]
      have "(if \<exists>h \<in> set (g # gs). sg_id h \<noteq> 0 \<and> seg_at base j h then val j else buf ! j) =
          (if \<exists>h \<in> set gs. sg_id h \<noteq> 0 \<and> seg_at base j h then val j else ?buf ! j)" if "j < length buf" for j
        unfolding here [OF that] using False by auto
      moreover have "f' = f\<lparr>io_chunks := io_chunks f'\<rparr>" using conjunct1 [OF IH] by (cases f, cases f') simp
      ultimately show ?thesis using conjunct2 [OF IH] by presburger
    qed
  qed
qed

lemma Read_loop_bytes:
  assumes "slices_ok db" and "ids_nonzero db" and "0 \<le> offset" and "fin \<le> 2 ^ 58"
    and "s_db (io_sys f) = db" and "inv (io_chunks f)" and "view (io_chunks f) = v"
    and "offset \<le> cur" and "read_upto v db i offset cur buf" and "int (length buf) = fin - offset"
  shows "\<exists>r f'. Read_loop S i offset fin cur buf f = Some (r, f') \<and> quiet f f' \<and> inv (io_chunks f') \<and> view (io_chunks f') = v \<and>
    r \<noteq> Inl ErrPanic \<and> (\<forall>buf'. r = Inr buf' \<longrightarrow> length buf' = length buf \<and> read_upto v db i offset fin buf')"
  using assms(5-)
proof (induction "nat (fin - cur)" arbitrary: cur buf f rule: less_induct)
  case less
  show ?case
  proof (cases "cur < fin")
    case False
    have "read_upto v db i offset fin buf"
      using less.prems(5,6) False by (auto simp: read_upto_def)
    then show ?thesis using False less.prems by (subst Read_loop.simps) simp
  next
    case True
    define c lo hb hi where "c = cur div ChunkSize" and "lo = (word_of_int (cur - c * ChunkSize) :: u32)"
      and "hb = min fin (c * ChunkSize + ChunkSize)" and "hi = (word_of_int (hb - c * ChunkSize) :: u32)"
    have cur: "0 \<le> cur" "cur < 2 ^ 58" using True less.prems(4) assms(3,4) by linarith+
    have c: "0 \<le> c" "c < 2 ^ 32" "c * ChunkSize \<le> cur" "cur < c * ChunkSize + ChunkSize"
      using cur by (simp_all add: c_def ChunkSize_def)
    have ui: "uint (word_of_int (cur sdiv ChunkSize) :: u32) = c"
      using c(1,2) cur(1) uint_word_of_int_32 [of c] by (simp add: c_def sdiv_chunk)
    have hb: "cur < hb" "hb \<le> c * ChunkSize + ChunkSize" "hb \<le> fin" using c(4) True by (simp_all add: hb_def)
    have lo: "uint lo = cur - c * ChunkSize" and hi: "uint hi = hb - c * ChunkSize"
      unfolding lo_def hi_def by (rule uint_word_of_int_32; use c(3,4) hb in \<open>simp add: ChunkSize_def\<close>)+
    have lh: "lo < hi" "uint hi \<le> ChunkSize" using hb lo hi by (simp_all add: word_less_def)
    have at_cur: "c * ChunkSize + uint lo = cur" "c * ChunkSize + uint hi = hb" using lo hi by simp_all
    obtain q f1 where rs: "lift_meta (ReadSlices i (word_of_int (cur sdiv ChunkSize))) f = (q, f1)" by (rule prod.exhaust)
    note r1 = lift_ReadSlices [OF rs, unfolded ui less.prems(1)]
    have step: "Read_loop S i offset fin cur buf f = (case q of Inl e \<Rightarrow> Some (Inl (ErrMeta e), f1)
        | Inr slices \<Rightarrow> (case copy_segs S (c * ChunkSize - offset) (resolve slices lo hi) buf f1 of
              (Inl e, f2) \<Rightarrow> Some (Inl e, f2) | (Inr buf', f2) \<Rightarrow> Read_loop S i offset fin hb buf' f2))"
    proof -
      have "(if fin < c * ChunkSize + ChunkSize then fin else c * ChunkSize + ChunkSize) = hb" by (simp add: hb_def min_def)
      then show ?thesis
        unfolding Read_loop.simps [of S i offset fin cur buf f] Let_def ui rs
        by (simp only: lo_def [symmetric] hi_def [symmetric] True not_True_eq_False if_False prod.case)
    qed
    show ?thesis
    proof (cases q)
      case (Inl e)
      then show ?thesis using step r1 less.prems by simp
    next
      case (Inr ss)
      then have ss: "resolve ss lo hi = chunk_segs db i c lo hi" using r1 by (simp add: chunk_segs_def)
      obtain t f2 where cp: "copy_segs S (c * ChunkSize - offset) (chunk_segs db i c lo hi) buf f1 = (t, f2)" by (rule prod.exhaust)
      have inv1: "inv (io_chunks f1)" "view (io_chunks f1) = v" using r1 less.prems by simp_all
      have b: "read_upto v db i offset (c * ChunkSize + uint lo) buf" "offset \<le> c * ChunkSize + uint lo"
        "c * ChunkSize + uint hi - offset \<le> int (length buf)"
        unfolding at_cur using less.prems(4-6) hb by simp_all
      note win = resolve_window [OF assms(1,2) c(1) lh b]
      have cb: "f2 = f1\<lparr>io_chunks := io_chunks f2\<rparr> \<and> inv (io_chunks f2) \<and> view (io_chunks f2) = v \<and> t \<noteq> Inl ErrPanic \<and>
          (\<forall>buf'. t = Inr buf' \<longrightarrow> length buf' = length buf \<and> (\<forall>j < length buf. buf' ! j =
            (if \<exists>g \<in> set (chunk_segs db i c lo hi). sg_id g \<noteq> 0 \<and> seg_at (c * ChunkSize - offset) j g
             then byte_at v db i (offset + int j) else buf ! j)))"
        using copy_segs_bytes [OF inv1(1) cp, unfolded inv1(2)] win(1) by blast
      have q2: "quiet f f2" using r1 quiet_chunks [OF conjunct1 [OF cb]] by (blast intro: quiet_trans)
      show ?thesis
      proof (cases t)
        case (Inl e)
        then show ?thesis using step \<open>q = Inr ss\<close> ss cp q2 cb by simp
      next
        case (Inr buf')
        then have b': "length buf' = length buf" "read_upto v db i offset hb buf'"
          using cb win(2) unfolding at_cur by blast+
        have "nat (fin - hb) < nat (fin - cur)" using hb by simp
        from less.hyps [OF this, of f2 buf'] obtain r f' where "Read_loop S i offset fin hb buf' f2 = Some (r, f')" "quiet f2 f'"
          "inv (io_chunks f')" "view (io_chunks f') = v" "r \<noteq> Inl ErrPanic"
          "\<forall>buf''. r = Inr buf'' \<longrightarrow> length buf'' = length buf' \<and> read_upto v db i offset fin buf''"
          using cb b' q2 less.prems hb by (auto simp: quiet_def)
        then show ?thesis using step \<open>q = Inr ss\<close> ss cp Inr q2 b'(1) by (auto intro: quiet_trans)
      qed
    qed
  qed
qed

lemma Files_Read_window:
  assumes "slices_ok (s_db (io_sys f))" and "ids_nonzero (s_db (io_sys f))" and "inv (io_chunks f)"
    and "0 \<le> offset" and "offset + int n < 2 ^ 63"
    and "0 \<le> file_len (s_db (io_sys f)) i" and "file_len (s_db (io_sys f)) i \<le> 2 ^ 58"
  shows "\<exists>r f'. Files_Read S i offset n f = Some (r, f') \<and> quiet f f' \<and> inv (io_chunks f') \<and>
    view (io_chunks f') = view (io_chunks f) \<and> r \<noteq> Inl ErrPanic \<and>
    (\<forall>bs. r = Inr bs \<longrightarrow> bs = take n (drop (nat offset) (file_data (view (io_chunks f)) (s_db (io_sys f)) i)))"
proof -
  let ?db = "s_db (io_sys f)" and ?v = "view (io_chunks f)"
  obtain q f1 where ga: "lift_meta (GetAttr i) f = (q, f1)" by (rule prod.exhaust)
  note g = lift_GetAttr [OF ga]
  show ?thesis
  proof (cases q)
    case (Inl e)
    then show ?thesis using g ga assms(3) by (simp add: Files_Read_def)
  next
    case (Inr a)
    then have len: "sint (a_length a) = file_len ?db i" using g assms(6,7) by (intro getAttr_len) auto
    show ?thesis
    proof (cases "file_len ?db i \<le> offset \<or> n = 0")
      case True
      then show ?thesis using g ga Inr len assms(3) by (auto simp: Files_Read_def)
    next
      case False
      define fin where "fin = min (file_len ?db i) (offset + int n)"
      let ?buf = "replicate (nat (fin - offset)) (0 :: u8)"
      have fin: "offset < fin" "fin \<le> 2 ^ 58" using False assms(7) by (auto simp: fin_def)
      have run: "Files_Read S i offset n f = Read_loop S i offset fin offset ?buf f1"
      proof -
        have "(if file_len ?db i < int64 (offset + int n) then file_len ?db i else int64 (offset + int n)) = fin"
          using int64_id [of "offset + int n"] assms(4,5) by (simp add: fin_def min_def)
        then show ?thesis using False ga Inr len by (simp add: Files_Read_def Let_def)
      qed
      have up: "read_upto ?v ?db i offset offset ?buf" by (simp add: read_upto_def)
      obtain r f' where rd: "Read_loop S i offset fin offset ?buf f1 = Some (r, f')" "quiet f1 f'" "inv (io_chunks f')"
        "view (io_chunks f') = ?v" "r \<noteq> Inl ErrPanic"
        "\<forall>buf'. r = Inr buf' \<longrightarrow> length buf' = length ?buf \<and> read_upto ?v ?db i offset fin buf'"
        using Read_loop_bytes [OF assms(1,2,4) fin(2) _ _ _ order_refl up, of f1] g assms(3) fin(1) by (auto simp: quiet_def)
      moreover have "bs = take n (drop (nat offset) (file_data ?v ?db i))" if "r = Inr bs" for bs
        using rd(6) that fin assms(4) by (intro read_upto_window [OF _ _ _ fin_def]) auto
      ultimately show ?thesis unfolding run using g by (blast intro: quiet_trans)
    qed
  qed
qed

end

end
