(* ===== verification/File_Write.thy ===== *)
theory File_Write
  imports File_Props
begin

text \<open>
  What \<open>Files.Write\<close> and \<open>Files.Truncate\<close> do to the contents of a file, for any slice store that keeps its contract.
\<close>

section \<open>Fresh slice ids\<close>

text \<open>
  A slice id that has been handed out: below the shared counter and no longer in this mount's batch.
\<close>

definition id_used :: "sys \<Rightarrow> u64 \<Rightarrow> bool" where
  "id_used s d \<longleftrightarrow> (case counter_value ''nextslice'' (s_db s) of
      None \<Rightarrow> False
    | Some v \<Rightarrow> 1 \<le> uint d \<and> uint d < v \<and> \<not> (e_sliceNext (s_eng s) \<le> d \<and> d < e_sliceEnd (s_eng s)))"

definition batch_ok :: "sys \<Rightarrow> bool" where
  "batch_ok s \<longleftrightarrow> (case counter_value ''nextslice'' (s_db s) of
      None \<Rightarrow> False
    | Some v \<Rightarrow> 1 \<le> v \<and>
        (e_sliceNext (s_eng s) < e_sliceEnd (s_eng s) \<longrightarrow> 1 \<le> uint (e_sliceNext (s_eng s)) \<and> uint (e_sliceEnd (s_eng s)) \<le> v))"

definition ids_ok :: "sys \<Rightarrow> bool" where
  "ids_ok s \<longleftrightarrow> batch_ok s \<and> (\<forall>r \<in> set (t_slice_ref (s_db s)). id_used s (sr_slice_id r))"

lemma ids_ok_nonzero: "ids_ok s \<Longrightarrow> ids_nonzero (s_db s)"
  by (auto simp: ids_ok_def ids_nonzero_def id_used_def split: option.splits)

lemma NewSlice_db:
  assumes "NewSlice s = (q, s')"
  shows "s_db s' = (s_db s)\<lparr>t_counter := t_counter (s_db s')\<rparr> \<and> s_now s' = s_now s"
proof (cases "e_sliceNext (s_eng s) < e_sliceEnd (s_eng s)")
  case True
  then show ?thesis using assms by (auto simp: NewSlice_def Let_def)
next
  case False
  obtain r s1 where st: "run_stmt (bump_counter ''nextslice'') s = (r, s1)" by (rule prod.exhaust)
  have "s_db s1 = (s_db s)\<lparr>t_counter := t_counter (s_db s1)\<rparr>"
  proof (cases r)
    case None
    then show ?thesis using run_stmt_None st by fastforce
  next
    case (Some v)
    then show ?thesis using run_stmt_Some [OF st [unfolded Some]] bump_counter_Some by blast
  qed
  moreover have "s_db s' = s_db s1" "s_now s' = s_now s1"
    using assms st False by (auto simp: NewSlice_def Let_def split: option.splits)
  ultimately show ?thesis using run_stmt_frame [OF st] by simp
qed

lemma NewSlice_fresh:
  assumes ok: "batch_ok s" and run: "NewSlice s = (q, s')"
  shows "batch_ok s' \<and> (\<forall>d. id_used s d \<longrightarrow> id_used s' d) \<and> (\<forall>d. q = Some d \<longrightarrow> id_used s' d \<and> \<not> id_used s d)"
proof (cases "e_sliceNext (s_eng s) < e_sliceEnd (s_eng s)")
  case True
  let ?n = "e_sliceNext (s_eng s)" and ?e = "e_sliceEnd (s_eng s)"
  note l = slice_ids.take_local [OF True run]
  have nx: "uint (?n + 1) = uint ?n + 1"
    using True uint_lt2p [of ?e] by (intro uint_add_nowrap [where b = 1, simplified]) (simp add: word_less_def)
  show ?thesis
    using ok l True nx by (auto simp: batch_ok_def id_used_def word_less_def word_le_def split: option.splits)
next
  case False
  show ?thesis
  proof (cases q)
    case None
    then show ?thesis using ok unfolding batch_ok_def id_used_def NewSlice_None [OF run [unfolded None]] by simp
  next
    case (Some c)
    from NewSlice_refill [OF False run [unfolded Some]] obtain v where v: "counter_value ''nextslice'' (s_db s) = Some v"
      "counter_value ''nextslice'' (s_db s') = Some (v + inodeBatch)" "c = word_of_int v"
      "e_sliceNext (s_eng s') = word_of_int v + 1" "e_sliceEnd (s_eng s') = word_of_int (v + inodeBatch)"
      "v + inodeBatch < 2 ^ 63" by blast
    have "1 \<le> v" using ok v(1) by (simp add: batch_ok_def)
    then have u: "uint (word_of_int v :: u64) = v" "uint (word_of_int v + 1 :: u64) = v + 1"
      "uint (word_of_int (v + inodeBatch) :: u64) = v + inodeBatch"
      using v(6) uint_word_of_int_64 [of v] uint_word_of_int_64 [of "v + 1"] uint_word_of_int_64 [of "v + inodeBatch"]
      by (simp_all add: inodeBatch_def)
    have "batch_ok s'" unfolding batch_ok_def v u option.case using \<open>1 \<le> v\<close> by (simp add: inodeBatch_def)
    moreover have "id_used s' d" if "id_used s d" for d
      using that unfolding id_used_def v(1,2,4,5) word_le_def word_less_def u option.case by (simp add: inodeBatch_def)
    moreover have "id_used s' c \<and> \<not> id_used s c"
      unfolding id_used_def v word_le_def word_less_def u option.case using \<open>1 \<le> v\<close> by (simp add: inodeBatch_def)
    ultimately show ?thesis using Some by simp
  qed
qed

section \<open>What the contents depend on\<close>

lemma byte_at_cong:
  assumes "t_slice_ref db' = t_slice_ref db"
    and "\<And>r. r \<in> set (t_slice_ref db) \<Longrightarrow> v' (sr_slice_id r) = v (sr_slice_id r)"
  shows "byte_at v' db' i o' = byte_at v db i o'"
proof -
  have src: "file_src db' i o' = file_src db i o'" using assms(1) by (simp add: file_src_def)
  show ?thesis
  proof (cases "file_src db i o'")
    case None
    then show ?thesis using src by (simp add: byte_at_slice)
  next
    case (Some x)
    obtain d k where x: "x = (d, k)" by (rule prod.exhaust)
    then have "v' d = v d" using row_src_Some_in [of i o' "t_slice_ref db" d k] Some assms(2) by (auto simp: file_src_def)
    then show ?thesis using src Some x by (simp add: byte_at_slice slice_byte_def)
  qed
qed

text \<open>The parts of the state that the contents of files and the choice of slice ids depend on.\<close>

definition same_files :: "sys \<Rightarrow> sys \<Rightarrow> bool" where
  "same_files s s' \<longleftrightarrow> t_slice_ref (s_db s') = t_slice_ref (s_db s) \<and> q_slice_ref (s_db s') = q_slice_ref (s_db s) \<and>
     t_node (s_db s') = t_node (s_db s) \<and> t_counter (s_db s') = t_counter (s_db s) \<and>
     e_sliceNext (s_eng s') = e_sliceNext (s_eng s) \<and> e_sliceEnd (s_eng s') = e_sliceEnd (s_eng s)"

lemma same_mount_files: "same_mount s s' \<Longrightarrow> same_files s s'"
  using same_but_leases_simps [of "s_db s" "s_db s'"] by (auto simp: same_mount_def same_files_def)

lemma file_len_cong: "t_node db' = t_node db \<Longrightarrow> file_len db' i = file_len db i"
  by (simp add: file_len_def sel_node_def)

lemma slices_ok_cong:
  "t_slice_ref db' = t_slice_ref db \<Longrightarrow> q_slice_ref db' = q_slice_ref db \<Longrightarrow> slices_ok db' = slices_ok db"
  by (simp add: slices_ok_def)

lemma ids_cong:
  assumes "t_counter (s_db s') = t_counter (s_db s)" "e_sliceNext (s_eng s') = e_sliceNext (s_eng s)"
    "e_sliceEnd (s_eng s') = e_sliceEnd (s_eng s)"
  shows "id_used s' = id_used s" "batch_ok s' = batch_ok s"
  unfolding id_used_def batch_ok_def counter_value_def fun_eq_iff assms by simp_all

section \<open>The effect of a write\<close>

definition wrote :: "(u64 \<Rightarrow> bytes option) \<Rightarrow> db \<Rightarrow> (u64 \<Rightarrow> bytes option) \<Rightarrow> db \<Rightarrow> Ino \<Rightarrow> int \<Rightarrow> bytes \<Rightarrow> bool" where
  "wrote v db v' db' i off bs \<longleftrightarrow>
    (\<forall>j. file_len db' j = (if j = i \<and> bs \<noteq> [] then max (file_len db i) (off + int (length bs)) else file_len db j)) \<and>
    (\<forall>j o'. byte_at v' db' j o' =
      (if j = i \<and> off \<le> o' \<and> o' < off + int (length bs) then bs ! nat (o' - off) else byte_at v db j o'))"

lemma wrote_refl: "wrote v db v db i off []"
  by (auto simp: wrote_def)

lemma wrote_append:
  assumes "wrote v db v1 db1 i off bs" and "wrote v1 db1 v2 db2 i (off + int (length bs)) cs"
  shows "wrote v db v2 db2 i off (bs @ cs)"
  unfolding wrote_def
proof (intro conjI allI)
  fix j o'
  have b1: "byte_at v1 db1 j o' = (if j = i \<and> off \<le> o' \<and> o' < off + int (length bs) then bs ! nat (o' - off) else byte_at v db j o')"
    and b2: "byte_at v2 db2 j o' = (if j = i \<and> off + int (length bs) \<le> o' \<and> o' < off + int (length bs) + int (length cs)
      then cs ! nat (o' - (off + int (length bs))) else byte_at v1 db1 j o')"
    using assms by (simp_all add: wrote_def)
  have "nat (o' - (off + int (length bs))) = nat (o' - off) - length bs" by linarith
  then show "byte_at v2 db2 j o' =
      (if j = i \<and> off \<le> o' \<and> o' < off + int (length (bs @ cs)) then (bs @ cs) ! nat (o' - off) else byte_at v db j o')"
    unfolding b2 b1 nth_append by (auto simp: nat_less_iff)
qed (use assms in \<open>auto simp: wrote_def max_def\<close>)

text \<open>The state in which the data path works on file \<open>i\<close>; slice ids not yet handed out are fresh in the store.\<close>

definition io_ok :: "('c \<Rightarrow> bool) \<Rightarrow> ('c \<Rightarrow> u64 \<Rightarrow> bool) \<Rightarrow> Ino \<Rightarrow> 'c Files \<Rightarrow> bool" where
  "io_ok P F i f \<longleftrightarrow> P (io_chunks f) \<and> (\<forall>d. \<not> id_used (io_sys f) d \<longrightarrow> F (io_chunks f) d) \<and>
     slices_ok (s_db (io_sys f)) \<and> ids_ok (io_sys f) \<and> 0 \<le> file_len (s_db (io_sys f)) i \<and> file_len (s_db (io_sys f)) i \<le> 2 ^ 57"

lemma log_rec_frame:
  assumes "log_rec rec f = (ok, f')"
  shows "io_sys f' = io_sys f \<and> io_chunks f' = io_chunks f"
  using assms by (auto simp: log_rec_def split: option.splits prod.splits)

text \<open>One metadata write of a fresh slice.\<close>

lemma Write_tx_rows:
  assumes run: "Write_tx i indx off sl now [] db = (Inr (x, db'), [])" and arg: "write_arg_ok indx off sl"
    and fresh: "sel slice_key (i, sl_id sl) (t_slice_ref db) = None"
  shows "\<exists>row. sr_slice_id row = sl_id sl \<and> t_slice_ref db' = t_slice_ref db @ [row] \<and> t_counter db' = t_counter db"
proof -
  let ?row = "slice_row_of i indx off sl"
  have key: "slice_key ?row = (i, sl_id sl)" by (simp add: slice_row_of_def)
  from Write_tx_commit [OF run arg] fresh obtain r where "sel_node db i = Some r"
    and "db' = appendChangelog now i Meta_Db.OpWrite (PWrite indx off (sl_len sl))
        (upd_node i (set_length (sint (max (word_of_int (n_length r)) (newLen indx off sl))) (unix_s now) (unix_ns now))
          (ins_slices [?row] db))"
    unfolding key Let_def by auto
  then show ?thesis
    using fresh by (intro exI [of _ "?row\<lparr>sr_id := q_slice_ref db\<rparr>"]) (simp add: key ins_slices_one stmt_defs, simp add: slice_row_of_def)
qed

lemma meta_Write_effect:
  assumes run: "Meta_Slices.Write i indx pos sl s = (r, s')"
    and ok: "slices_ok (s_db s)" "batch_ok s" "\<forall>x \<in> set (t_slice_ref (s_db s)). id_used s (sr_slice_id x)"
    and fresh: "\<forall>x \<in> set (t_slice_ref (s_db s)). sr_slice_id x \<noteq> sl_id sl" "id_used s (sl_id sl)"
    and arg: "write_arg_ok indx pos sl" and len: "0 \<le> file_len (s_db s) i" "file_len (s_db s) i \<le> 2 ^ 57"
  shows "slices_ok (s_db s') \<and> ids_ok s' \<and> id_used s' = id_used s \<and>
    (if r = Inr () then
       (\<forall>j o'. file_src (s_db s') j o' = (if j = i \<and> write_start indx pos \<le> o' \<and> o' < write_start indx pos + uint (sl_len sl)
         then Some (sl_id sl, uint (sl_off sl) + (o' - write_start indx pos)) else file_src (s_db s) j o')) \<and>
       (\<forall>j. file_len (s_db s') j = (if j = i then max (file_len (s_db s) i) (write_start indx pos + uint (sl_len sl)) else file_len (s_db s) j))
     else same_files s s')"
proof (cases r)
  case (Inl e)
  then have m: "same_files s s'" using run fenced_tx_err same_mount_files unfolding Write_def by blast
  then have "slices_ok (s_db s')" "ids_ok s'" "id_used s' = id_used s"
    using ok ids_cong [of s' s] slices_ok_cong [of "s_db s'" "s_db s"] by (simp_all add: same_files_def ids_ok_def)
  then show ?thesis using Inl m by simp
next
  case (Inr u)
  then obtain s1 where m: "same_mount s s1" and body: "Write_tx i indx pos sl (s_now s) [] (s_db s1) = (Inr (u, s_db s'), [])"
    and e: "s_eng s' = s_eng s1"
    using run fenced_tx_ok [OF Write_tx_mono] unfolding Write_def by blast
  note sf = same_mount_files [OF m, unfolded same_files_def]
  have len1: "0 \<le> file_len (s_db s1) i" "file_len (s_db s1) i < 2 ^ 63" using len file_len_cong [of "s_db s1" "s_db s" i] sf by simp_all
  have none: "sel slice_key (i, sl_id sl) (t_slice_ref (s_db s1)) = None"
    unfolding conjunct1 [OF sf] sel_None_iff using fresh(1) by auto
  note eff = Write_tx_effect [OF body arg none len1]
  have "slices_ok (s_db s')"
    using Write_tx_slices_ok [OF _ arg body] ok(1) slices_ok_cong [of "s_db s1" "s_db s"] sf by simp
  moreover have "ids_ok s' \<and> id_used s' = id_used s"
  proof -
    obtain row where row: "sr_slice_id row = sl_id sl" "t_slice_ref (s_db s') = t_slice_ref (s_db s1) @ [row]"
      "t_counter (s_db s') = t_counter (s_db s1)"
      using Write_tx_rows [OF body arg none] by blast
    then show ?thesis using ok(2,3) fresh(2) sf e ids_cong [of s' s] by (auto simp: ids_ok_def)
  qed
  ultimately show ?thesis using Inr eff sf file_len_cong [of "s_db s1" "s_db s"] by (simp add: file_src_def)
qed

context slice_store
begin

lemma write_piece_effect:
  assumes run: "write_piece S i indx pos n data cl f = (r, f')" and ok: "io_ok inv fresh i f"
    and n: "0 < n" "n \<le> int (length data)" "uint pos + n \<le> ChunkSize" and indx: "uint indx < 2 ^ 31"
  shows "io_ok inv fresh i f' \<and> r \<noteq> Some ErrPanic \<and>
    wrote (view (io_chunks f)) (s_db (io_sys f)) (view (io_chunks f')) (s_db (io_sys f')) i (write_start indx pos)
      (if r = None then take (nat n) data else [])"
proof -
  let ?v = "view (io_chunks f)" and ?db = "s_db (io_sys f)"
  have inv: "inv (io_chunks f)" and unused: "\<And>d. \<not> id_used (io_sys f) d \<Longrightarrow> fresh (io_chunks f) d" and sl: "slices_ok ?db" and ids: "ids_ok (io_sys f)"
    and len: "0 \<le> file_len ?db i" "file_len ?db i \<le> 2 ^ 57" using ok by (simp_all add: io_ok_def)
  obtain q s1 where ns: "NewSlice (io_sys f) = (q, s1)" by (rule prod.exhaust)
  note fr = NewSlice_fresh [OF _ ns] and dbe = conjunct1 [OF NewSlice_db [OF ns]]
  have t1: "t_slice_ref (s_db s1) = t_slice_ref ?db" "t_node (s_db s1) = t_node ?db" "q_slice_ref (s_db s1) = q_slice_ref ?db"
    by (subst dbe, simp)+
  have b1: "batch_ok s1" "\<forall>x \<in> set (t_slice_ref (s_db s1)). id_used s1 (sr_slice_id x)" "slices_ok (s_db s1)"
    "file_len (s_db s1) j = file_len ?db j" for j
    using fr ids sl slices_ok_cong [OF t1(1,3)] file_len_cong [OF t1(2)] by (simp_all add: ids_ok_def t1)
  have quiet: "io_ok inv fresh i g \<and> wrote ?v ?db (view (io_chunks g)) (s_db (io_sys g)) i (write_start indx pos) []"
    if "same_files s1 (io_sys g)" "inv (io_chunks g)" "\<And>d. \<not> id_used s1 d \<Longrightarrow> fresh (io_chunks g) d" "\<And>x. x \<in> set (t_slice_ref ?db) \<Longrightarrow> view (io_chunks g) (sr_slice_id x) = ?v (sr_slice_id x)" for g
  proof -
    have g: "t_slice_ref (s_db (io_sys g)) = t_slice_ref ?db" "file_len (s_db (io_sys g)) j = file_len ?db j" for j
      using that(1) t1(1) b1(4) file_len_cong [of "s_db (io_sys g)" "s_db s1"] by (simp_all add: same_files_def)
    have "byte_at (view (io_chunks g)) (s_db (io_sys g)) j o' = byte_at ?v ?db j o'" for j o'
      by (rule byte_at_cong [OF g(1)]) (rule that(4))
    moreover have "slices_ok (s_db (io_sys g))" "ids_ok (io_sys g)" "id_used (io_sys g) = id_used s1"
      using that(1) b1 slices_ok_cong [of "s_db (io_sys g)" "s_db s1"] ids_cong [of "io_sys g" s1]
      by (simp_all add: same_files_def ids_ok_def)
    ultimately show ?thesis using that(2,3) len g(2) by (auto simp: io_ok_def wrote_def)
  qed
  have unused1: "\<not> id_used s1 d \<Longrightarrow> fresh (io_chunks f) d" for d using unused [of d] fr ids by (auto simp: ids_ok_def)
  show ?thesis
  proof (cases q)
    case None
    then have "r = Some ErrNewSlice" "f' = f\<lparr>io_sys := s1\<rparr>" using run ns by (simp_all add: write_piece_def lift_meta_def)
    then show ?thesis using quiet [of f'] inv unused1 by (simp add: same_files_def)
  next
    case (Some d)
    have fd: "fresh (io_chunks f) d" using fr ids Some by (intro unused) (auto simp: ids_ok_def)
    have new: "id_used s1 d" "\<forall>x \<in> set (t_slice_ref ?db). sr_slice_id x \<noteq> d"
      using fr ids Some by (auto simp: ids_ok_def)
    obtain ok1 c where wr: "st_Write S d (take (nat n) data) cl (io_chunks f) = (ok1, c)" by (rule prod.exhaust)
    have "n \<le> 2 ^ 26" using n(3) uint_ge_0 [of pos] unfolding ChunkSize_def by linarith
    then have short: "length (take (nat n) data) \<le> 2 ^ 26" using n by simp
    note other = write_frame [OF inv fd short wr]
    have unusedc: "\<not> id_used s1 x \<Longrightarrow> fresh c x" for x using other unused1 [of x] new(1) by (cases "x = d") auto
    obtain ok2 f2 where lg: "log_rec \<lparr>r_Seq = 0, r_Op = Wal.OpWrite, r_Ino = i, r_Indx = indx, r_Off = pos, r_SliceID = d,
         r_Size = word_of_int n, r_SliceOff = 0, r_SliceLen = word_of_int n\<rparr> (f\<lparr>io_sys := s1, io_chunks := c\<rparr>) = (ok2, f2)"
      by (rule prod.exhaust)
    note l = log_rec_frame [OF lg, simplified]
    let ?sl = "\<lparr>sl_id = d, sl_size = word_of_int n, sl_off = 0, sl_len = word_of_int n\<rparr> :: Slice"
    obtain t s3 where mw: "Meta_Slices.Write i indx pos ?sl s1 = (t, s3)" by (rule prod.exhaust)
    have "n \<le> ChunkSize" using n(3) uint_ge_0 [of pos] by linarith
    then have n32: "uint (word_of_int n :: u32) = n" using n by (intro uint_word_of_int_32) (simp_all add: ChunkSize_def)
    have arg: "write_arg_ok indx pos ?sl" using n indx n32 \<open>n \<le> ChunkSize\<close> by (simp add: write_arg_ok_def ChunkSize_def)
    note eff = meta_Write_effect [OF mw b1(3,1,2) _ _ arg, simplified b1(4), OF _ _ len]
    have run': "write_piece S i indx pos n data cl f =
        (if \<not> ok1 then (Some ErrChunk, f\<lparr>io_sys := s1, io_chunks := c\<rparr>) else if \<not> ok2 then (Some ErrWal, f2)
         else case t of Inl e \<Rightarrow> (Some (ErrMeta e), f2\<lparr>io_sys := s3\<rparr>) | Inr _ \<Rightarrow> (None, f2\<lparr>io_sys := s3\<rparr>))"
      using ns Some wr lg mw n(1) l
      by (cases ok1; cases ok2; cases t) (simp_all add: write_piece_def lift_meta_def)
    have oth: "view c (sr_slice_id x) = ?v (sr_slice_id x)" if "x \<in> set (t_slice_ref ?db)" for x
      using other new(2) that by simp
    consider (err) e where "r = Some e" "e \<noteq> ErrPanic" "same_files s1 (io_sys f')" "io_chunks f' = c"
      | (written) "ok1" "t = Inr ()" "r = None" "io_sys f' = s3" "io_chunks f' = c"
      using run run' l eff new t1 by (auto simp: same_files_def split: if_splits sum.splits)
    then show ?thesis
    proof cases
      case err
      then show ?thesis using quiet [of f'] other oth unusedc by simp
    next
      case written
      have vc: "view c = ?v(d \<mapsto> take (nat n) data)"
        using write_ok [OF inv fd short] wr written other by (intro ext) auto
      have src: "file_src (s_db s3) j o' = (if j = i \<and> write_start indx pos \<le> o' \<and> o' < write_start indx pos + n
          then Some (d, o' - write_start indx pos) else file_src (s_db s1) j o')"
        and fl: "file_len (s_db s3) j = (if j = i then max (file_len ?db i) (write_start indx pos + n) else file_len ?db j)"
        and s3: "slices_ok (s_db s3)" "ids_ok s3" "id_used s3 = id_used s1" for j o'
        using eff new written(2) n32 t1 by simp_all
      have old: "byte_at (view c) (s_db s1) j o' = byte_at ?v ?db j o'" for j o'
        by (rule byte_at_cong [OF t1(1)]) (rule oth)
      have "byte_at (view c) (s_db s3) j o' = (if j = i \<and> write_start indx pos \<le> o' \<and> o' < write_start indx pos + n
          then take (nat n) data ! nat (o' - write_start indx pos) else byte_at ?v ?db j o')" for j o'
        unfolding old [symmetric] unfolding byte_at_slice src using n(2) by (auto simp: vc slice_byte_def)
      moreover have "write_start indx pos + n \<le> 2 ^ 57"
      proof -
        have "uint indx * ChunkSize \<le> (2 ^ 31 - 1) * ChunkSize" using indx by (intro mult_right_mono) (simp_all add: ChunkSize_def)
        then show ?thesis using n(3) by (simp add: ChunkSize_def)
      qed
      ultimately show ?thesis
        using written fl s3 other unusedc len n(1,2) by (auto simp: io_ok_def wrote_def)
    qed
  qed
qed

lemma Write_loop_effect:
  assumes "io_ok inv fresh i f" and "0 \<le> off" and "off + int (length data) \<le> 2 ^ 57"
    and "Write_loop S i off data cl written f = ((n, r), f')"
  shows "io_ok inv fresh i f' \<and> r \<noteq> Some ErrPanic \<and> (\<exists>k \<le> length data. n = written + k \<and> (r = None \<longrightarrow> k = length data) \<and>
    wrote (view (io_chunks f)) (s_db (io_sys f)) (view (io_chunks f')) (s_db (io_sys f')) i off (take k data))"
  using assms
proof (induction "length data" arbitrary: off data written f rule: less_induct)
  case less
  show ?case
  proof (cases "data = []")
    case True
    then show ?thesis using less.prems by (simp add: Write_loop.simps [of S i off] wrote_refl)
  next
    case False
    define indx pos :: u32 where "indx = word_of_int (off sdiv ChunkSize)" and "pos = word_of_int (off smod ChunkSize)"
    define m where "m = min (ChunkSize - uint pos) (int (length data))"
    have pos: "uint pos = off mod ChunkSize" and indx: "uint indx = off div ChunkSize" "uint indx < 2 ^ 31"
    proof -
      have "off < 2 ^ 57" using less.prems(3) False by (cases data) simp_all
      then have o': "0 \<le> off div ChunkSize" "off div ChunkSize < 2 ^ 31" "0 \<le> off mod ChunkSize" "off mod ChunkSize < 2 ^ 31"
        using less.prems(2) by (simp_all add: ChunkSize_def order_less_trans [OF pos_mod_bound])
      show "uint pos = off mod ChunkSize" unfolding pos_def smod_chunk [OF less.prems(2)]
        by (rule uint_word_of_int_32) (use o' in simp_all)
      show i: "uint indx = off div ChunkSize" unfolding indx_def sdiv_chunk [OF less.prems(2)]
        by (rule uint_word_of_int_32) (use o' in simp_all)
      show "uint indx < 2 ^ 31" unfolding i by (rule o'(2))
    qed
    have start: "write_start indx pos = off" using pos indx(1) by (simp add: ChunkSize_def)
    have m: "0 < m" "m \<le> int (length data)" "uint pos + m \<le> ChunkSize"
      using pos False by (auto simp: m_def ChunkSize_def)
    obtain t f1 where wp: "write_piece S i indx pos m data cl f = (t, f1)" by (rule prod.exhaust)
    note eff = write_piece_effect [OF wp less.prems(1) m indx(2), unfolded start]
    have step: "Write_loop S i off data cl written f = (case t of Some e \<Rightarrow> ((written, Some e), f1)
        | None \<Rightarrow> Write_loop S i (off + m) (drop (nat m) data) cl (written + nat m) f1)"
    proof -
      have "(if ChunkSize - uint pos < int (length data) then ChunkSize - uint pos else int (length data)) = m" by (simp add: m_def)
      moreover have "int64 (off + m) = off + m" using less.prems(2,3) m by (intro int64_id) simp_all
      ultimately show ?thesis
        unfolding Write_loop.simps [of S i off data] Let_def indx_def [symmetric] pos_def [symmetric]
        by (simp only: wp False if_False prod.case)
    qed
    show ?thesis
    proof (cases t)
      case (Some e)
      then show ?thesis using step less.prems(4) eff by auto
    next
      case None
      then have run: "Write_loop S i (off + m) (drop (nat m) data) cl (written + nat m) f1 = ((n, r), f')" using step less.prems(4) by simp
      have "length (drop (nat m) data) < length data" using m by simp
      from less.hyps [OF this _ _ _ run] obtain k where k: "k \<le> length (drop (nat m) data)" "n = written + nat m + k"
        "r = None \<longrightarrow> k = length (drop (nat m) data)" "io_ok inv fresh i f'" "r \<noteq> Some ErrPanic"
        and w: "wrote (view (io_chunks f1)) (s_db (io_sys f1)) (view (io_chunks f')) (s_db (io_sys f')) i (off + m) (take k (drop (nat m) data))"
        using eff less.prems(2,3) m by auto
      have lt: "int (length (take (nat m) data)) = m" using m by simp
      have "wrote (view (io_chunks f)) (s_db (io_sys f)) (view (io_chunks f1)) (s_db (io_sys f1)) i off (take (nat m) data)"
        using eff None by simp
      note wrote_append [OF this, unfolded lt, OF w]
      then have "wrote (view (io_chunks f)) (s_db (io_sys f)) (view (io_chunks f')) (s_db (io_sys f')) i off (take (nat m + k) data)"
        by (simp add: take_add)
      then show ?thesis using k m by (intro conjI exI [of _ "nat m + k"]) auto
    qed
  qed
qed

end

section \<open>Refinement of the abstract file\<close>

text \<open>The abstract operation: overwrite bytes at an offset, filling a gap behind the end with zeros.\<close>

definition overwrite :: "bytes \<Rightarrow> nat \<Rightarrow> bytes \<Rightarrow> bytes" where
  "overwrite old off bs =
    (if bs = [] then old else take off (old @ replicate (off - length old) 0) @ bs @ drop (off + length bs) old)"

definition set_len :: "bytes \<Rightarrow> nat \<Rightarrow> bytes" where
  "set_len old n = take n (old @ replicate (n - length old) 0)"

text \<open>No slice shows behind the end of the file, so that extending it gives zeros.\<close>

definition zero_tail :: "(u64 \<Rightarrow> bytes option) \<Rightarrow> db \<Rightarrow> Ino \<Rightarrow> bool" where
  "zero_tail v db i \<longleftrightarrow> (\<forall>o' \<ge> file_len db i. byte_at v db i o' = 0)"

lemma nth_overwrite:
  assumes "bs \<noteq> []" and "j < max (length old) (off + length bs)"
  shows "overwrite old off bs ! j = (if off \<le> j \<and> j < off + length bs then bs ! (j - off) else if j < length old then old ! j else 0)"
  using assms by (auto simp: overwrite_def nth_append min_def)

lemma length_overwrite: "bs \<noteq> [] \<Longrightarrow> length (overwrite old off bs) = max (length old) (off + length bs)"
  by (auto simp: overwrite_def)

lemma wrote_data:
  assumes w: "wrote v db v' db' i off bs" and z: "zero_tail v db i" and o': "0 \<le> off" and len: "0 \<le> file_len db i"
  shows "file_data v' db' i = overwrite (file_data v db i) (nat off) bs" and "zero_tail v' db' i"
    and "j \<noteq> i \<Longrightarrow> file_data v' db' j = file_data v db j"
proof -
  have l: "file_len db' j = (if j = i \<and> bs \<noteq> [] then max (file_len db i) (off + int (length bs)) else file_len db j)"
    and b: "byte_at v' db' j p = (if j = i \<and> off \<le> p \<and> p < off + int (length bs) then bs ! nat (p - off) else byte_at v db j p)" for j p
    using w by (simp_all add: wrote_def)
  show "j \<noteq> i \<Longrightarrow> file_data v' db' j = file_data v db j" by (simp add: file_data_def l b)
  show "zero_tail v' db' i" using z by (auto simp: zero_tail_def l b split: if_splits)
  show "file_data v' db' i = overwrite (file_data v db i) (nat off) bs"
  proof (cases "bs = []")
    case True
    have "byte_at v' db' i p = byte_at v db i p" for p using b True by auto
    then show ?thesis using True by (simp add: file_data_def l overwrite_def)
  next
    case False
    have len': "nat (file_len db' i) = max (nat (file_len db i)) (nat off + length bs)" using False o' len by (simp add: l)
    show ?thesis
    proof (rule nth_equalityI)
      show eq: "length (file_data v' db' i) = length (overwrite (file_data v db i) (nat off) bs)"
        using False by (simp add: length_overwrite len')
      fix p
      assume "p < length (file_data v' db' i)"
      then have p: "p < max (nat (file_len db i)) (nat off + length bs)" by (simp add: len')
      have "byte_at v db i (int p) = 0" if "\<not> p < nat (file_len db i)" using z that by (simp add: zero_tail_def)
      then show "file_data v' db' i ! p = overwrite (file_data v db i) (nat off) bs ! p"
        using nth_overwrite [OF False, of p "file_data v db i" "nat off"] p b [of i "int p"] o'
        by (auto simp: nth_file_data len' nat_diff_distrib)
    qed
  qed
qed

lemma Truncate_tx_ids:
  assumes "Truncate_tx i sz now [] db = (Inr (x, db'), [])"
  shows "t_counter db' = t_counter db" and "sr_slice_id ` set (t_slice_ref db') \<subseteq> sr_slice_id ` set (t_slice_ref db)"
  using Truncate_tx_commit [OF assms] by (auto simp: trim_at_def drop_past_def stmt_defs split: if_splits)

lemma Files_Truncate_refines:
  assumes run: "Files_Truncate i sz f = (r, f')" and ok: "io_ok P F i f" and z: "zero_tail (v (io_chunks f)) (s_db (io_sys f)) i"
    and sz: "0 \<le> sz" "sz \<le> 2 ^ 57"
  shows "io_ok P F i f' \<and> io_chunks f' = io_chunks f \<and> zero_tail (v (io_chunks f')) (s_db (io_sys f')) i \<and>
    file_data (v (io_chunks f')) (s_db (io_sys f')) i =
      (if r = None then set_len (file_data (v (io_chunks f)) (s_db (io_sys f)) i) (nat sz) else file_data (v (io_chunks f)) (s_db (io_sys f)) i) \<and>
    (\<forall>j. j \<noteq> i \<longrightarrow> file_data (v (io_chunks f')) (s_db (io_sys f')) j = file_data (v (io_chunks f)) (s_db (io_sys f)) j)"
proof -
  let ?v = "v (io_chunks f)" and ?db = "s_db (io_sys f)"
  obtain ok1 f1 where lg: "log_rec (truncate_rec i sz) f = (ok1, f1)" by (rule prod.exhaust)
  note l = log_rec_frame [OF lg]
  have same: ?thesis if "same_files (io_sys f) (io_sys f')" "io_chunks f' = io_chunks f" "r \<noteq> None"
  proof -
    have t: "t_slice_ref (s_db (io_sys f')) = t_slice_ref ?db" "file_len (s_db (io_sys f')) j = file_len ?db j" for j
      using that(1) file_len_cong [of "s_db (io_sys f')" ?db] by (simp_all add: same_files_def)
    have b: "byte_at ?v (s_db (io_sys f')) j o' = byte_at ?v ?db j o'" for j o' by (rule byte_at_cong [OF t(1)]) simp
    have "slices_ok (s_db (io_sys f'))" "ids_ok (io_sys f')" "id_used (io_sys f') = id_used (io_sys f)"
      using that(1) ok slices_ok_cong [of "s_db (io_sys f')" ?db] ids_cong [of "io_sys f'" "io_sys f"]
      by (simp_all add: same_files_def ids_ok_def io_ok_def)
    then show ?thesis using ok z t b that by (auto simp: io_ok_def zero_tail_def file_data_def)
  qed
  obtain t s2 where tr: "Truncate i sz (io_sys f) = (t, s2)" by (rule prod.exhaust)
  show ?thesis
  proof (cases "ok1 \<and> (\<exists>u. t = Inr u)")
    case False
    have err: "same_files (io_sys f) s2" if "t = Inl e" for e
      using tr that fenced_tx_err same_mount_files unfolding Truncate_def by blast
    have "same_files (io_sys f) (io_sys f') \<and> io_chunks f' = io_chunks f \<and> r \<noteq> None"
    proof (cases ok1)
      case True
      then obtain e where "t = Inl e" using False by (cases t) auto
      then show ?thesis using True run lg l tr err by (auto simp: Files_Truncate_def lift_meta_def)
    next
      case False
      then show ?thesis using run lg l by (auto simp: Files_Truncate_def same_files_def)
    qed
    then show ?thesis using same by blast
  next
    case True
    then obtain u where u: "t = Inr u" by blast
    have f': "r = None" "io_sys f' = s2" "io_chunks f' = io_chunks f"
      using True run lg l tr by (auto simp: Files_Truncate_def lift_meta_def)
    obtain s1 where m: "same_mount (io_sys f) s1" and body: "Truncate_tx i sz (s_now (io_sys f)) [] (s_db s1) = (Inr (u, s_db s2), [])"
      and e: "s_eng s2 = s_eng s1"
      using tr u fenced_tx_ok [OF Truncate_tx_mono] unfolding Truncate_def by blast
    note sf = same_mount_files [OF m, unfolded same_files_def]
    have len: "0 \<le> file_len ?db i" "file_len ?db i < 2 ^ 63" using ok by (simp_all add: io_ok_def)
    have fl: "file_len (s_db s1) j = file_len ?db j" for j by (rule file_len_cong) (use sf in simp)
    have src: "file_src (s_db s2) j o' = (if j = i \<and> sz \<le> o' \<and> sz < file_len ?db i then None else file_src ?db j o')"
      and fl': "file_len (s_db s2) j = (if j = i then sz else file_len ?db j)" for j o'
      using Truncate_tx_effect [OF body] len sf by (simp_all add: fl file_src_def)
    have b: "byte_at ?v (s_db s2) j o' = (if j = i \<and> sz \<le> o' then 0 else byte_at ?v ?db j o')" for j o'
      using z by (auto simp: byte_at_slice src zero_tail_def)
    have "slices_ok (s_db s2)"
      using Truncate_tx_slices_ok [OF _ body] ok sf slices_ok_cong [of "s_db s1" ?db] by (simp add: io_ok_def)
    moreover have "ids_ok s2" "id_used s2 = id_used (io_sys f)"
      using Truncate_tx_ids [OF body] ok sf e ids_cong [of s2 "io_sys f"] unfolding ids_ok_def io_ok_def by auto
    ultimately have io: "io_ok P F i f'" using ok sz by (simp add: io_ok_def f' fl')
    have "file_data ?v (s_db s2) i = set_len (file_data ?v ?db i) (nat sz)"
    proof (rule nth_equalityI)
      show "length (file_data ?v (s_db s2) i) = length (set_len (file_data ?v ?db i) (nat sz))" by (simp add: fl' set_len_def)
      fix p
      assume "p < length (file_data ?v (s_db s2) i)"
      then have p: "p < nat sz" by (simp add: fl')
      have "byte_at ?v ?db i (int p) = 0" if "\<not> p < nat (file_len ?db i)" using z that by (simp add: zero_tail_def)
      then show "file_data ?v (s_db s2) i ! p = set_len (file_data ?v ?db i) (nat sz) ! p"
        using p by (auto simp: nth_file_data fl' b set_len_def nth_append)
    qed
    then show ?thesis using io f' by (simp add: zero_tail_def b fl' file_data_def)
  qed
qed

context slice_store
begin

lemma Files_Write_refines:
  assumes "io_ok inv fresh i f" and "zero_tail (view (io_chunks f)) (s_db (io_sys f)) i" and "0 \<le> off" and "off + int (length data) \<le> 2 ^ 57"
    and "Files_Write S i off data cl f = ((n, r), f')"
  shows "io_ok inv fresh i f' \<and> zero_tail (view (io_chunks f')) (s_db (io_sys f')) i \<and> r \<noteq> Some ErrPanic \<and> n \<le> length data \<and>
    (r = None \<longrightarrow> n = length data) \<and>
    file_data (view (io_chunks f')) (s_db (io_sys f')) i = overwrite (file_data (view (io_chunks f)) (s_db (io_sys f)) i) (nat off) (take n data) \<and>
    (\<forall>j. j \<noteq> i \<longrightarrow> file_data (view (io_chunks f')) (s_db (io_sys f')) j = file_data (view (io_chunks f)) (s_db (io_sys f)) j)"
proof -
  from Write_loop_effect [OF assms(1,3,4) assms(5) [unfolded Files_Write_def]]
  have ok: "io_ok inv fresh i f'" "r \<noteq> Some ErrPanic" "n \<le> length data" "r = None \<longrightarrow> n = length data"
    and w: "wrote (view (io_chunks f)) (s_db (io_sys f)) (view (io_chunks f')) (s_db (io_sys f')) i off (take n data)"
    by auto
  have "0 \<le> file_len (s_db (io_sys f)) i" using assms(1) by (simp add: io_ok_def)
  from wrote_data [OF w assms(2,3) this] ok show ?thesis by blast
qed

lemma Files_Read_data:
  assumes "io_ok inv fresh i f" and "0 \<le> off" and "off + int n < 2 ^ 63"
  shows "\<exists>r f'. Files_Read S i off n f = Some (r, f') \<and> quiet f f' \<and> inv (io_chunks f') \<and>
    fresh (io_chunks f') = fresh (io_chunks f) \<and> view (io_chunks f') = view (io_chunks f) \<and> r \<noteq> Inl ErrPanic \<and>
    (\<forall>bs. r = Inr bs \<longrightarrow> bs = take n (drop (nat off) (file_data (view (io_chunks f)) (s_db (io_sys f)) i)))"
proof -
  have "slices_ok (s_db (io_sys f))" "ids_nonzero (s_db (io_sys f))" "inv (io_chunks f) \<and> fresh (io_chunks f) = fresh (io_chunks f)"
    "0 \<le> file_len (s_db (io_sys f)) i" "file_len (s_db (io_sys f)) i \<le> 2 ^ 58"
    using assms(1) ids_ok_nonzero [of "io_sys f"] by (auto simp: io_ok_def)
  from slice_reader.Files_Read_window [OF frozen_reader this(1-3) assms(2,3) this(4,5)] show ?thesis by blast
qed

lemma io_ok_quiet:
  assumes "io_ok inv fresh i f" and "quiet f f'" and "inv (io_chunks f')" and "fresh (io_chunks f') = fresh (io_chunks f)"
  shows "io_ok inv fresh i f'"
proof -
  have "id_used (io_sys f') = id_used (io_sys f)" "ids_ok (io_sys f') = ids_ok (io_sys f)"
    using assms(2) ids_cong [of "io_sys f'" "io_sys f"] by (simp_all add: quiet_def ids_ok_def)
  then show ?thesis using assms by (simp add: io_ok_def quiet_def)
qed

lemma Hash_loop_data:
  assumes "io_ok inv fresh i f" and "data = file_data (view (io_chunks f)) (s_db (io_sys f)) i" and "off \<le> length data"
  shows "\<exists>r f'. Hash_loop S i (int (length data)) (int off) (take off data) f = Some (r, f') \<and> io_ok inv fresh i f' \<and> quiet f f' \<and>
    view (io_chunks f') = view (io_chunks f) \<and> r \<noteq> Inl ErrPanic \<and> (\<forall>x. r = Inr x \<longrightarrow> x = data)"
  using assms
proof (induction "length data - off" arbitrary: off f rule: less_induct)
  case less
  show ?case
  proof (cases "off < length data")
    case False
    then show ?thesis using less.prems by (subst Hash_loop.simps) auto
  next
    case True
    define want where "want = min (2 ^ 20) (length data - off)"
    have len: "int (length data) \<le> 2 ^ 57" using less.prems(1,2) by (simp add: io_ok_def)
    have w: "nat (if hashStreamSize < int (length data) - int off then hashStreamSize else int (length data) - int off) = want"
      using True by (auto simp: hashStreamSize_def want_def min_def)
    have bound: "int off + int want < 2 ^ 63" using True len by (auto simp: want_def)
    obtain r f1 where rd: "Files_Read S i (int off) want f = Some (r, f1)" and q: "quiet f f1" "inv (io_chunks f1)"
      "fresh (io_chunks f1) = fresh (io_chunks f)" "view (io_chunks f1) = view (io_chunks f)" "r \<noteq> Inl ErrPanic"
      and bs: "\<forall>bs. r = Inr bs \<longrightarrow> bs = take want (drop off data)"
      using Files_Read_data [OF less.prems(1) _ bound] less.prems(2) by auto
    have ok1: "io_ok inv fresh i f1" by (rule io_ok_quiet [OF less.prems(1) q(1-3)])
    show ?thesis
    proof (cases r)
      case (Inl e)
      then show ?thesis using True rd q ok1 by (subst Hash_loop.simps) (simp add: w)
    next
      case (Inr b)
      then have b: "b = take want (drop off data)" using bs by simp
      have lb: "length b = want" "b \<noteq> []" using True by (auto simp: b want_def)
      have "0 < want" "off + want \<le> length data" using True by (auto simp: want_def)
      then have smaller: "length data - (off + want) < length data - off" "off + want \<le> length data" by linarith+
      have data1: "data = file_data (view (io_chunks f1)) (s_db (io_sys f1)) i" using less.prems(2) q by (simp add: quiet_def)
      have step: "Hash_loop S i (int (length data)) (int off) (take off data) f =
          Hash_loop S i (int (length data)) (int (off + want)) (take (off + want) data) f1"
        using True rd Inr lb by (subst Hash_loop.simps) (simp add: w b take_add)
      from less.hyps [OF smaller(1) ok1 data1 smaller(2)] show ?thesis
        unfolding step using q by (metis quiet_trans)
    qed
  qed
qed

lemma HashFile_data:
  assumes "io_ok inv fresh i f"
  shows "\<exists>r f'. HashFile sha S i f = Some (r, f') \<and> io_ok inv fresh i f' \<and> quiet f f' \<and> view (io_chunks f') = view (io_chunks f) \<and>
    r \<noteq> Inl ErrPanic \<and> (\<forall>h. r = Inr h \<longrightarrow> h = sha (file_data (view (io_chunks f)) (s_db (io_sys f)) i))"
proof -
  let ?db = "s_db (io_sys f)" and ?data = "file_data (view (io_chunks f)) (s_db (io_sys f)) i"
  obtain q f1 where ga: "lift_meta (GetAttr i) f = (q, f1)" by (rule prod.exhaust)
  note g = lift_GetAttr [OF ga]
  have i1: "inv (io_chunks f)" using assms by (simp add: io_ok_def)
  have ok1: "io_ok inv fresh i f1" by (rule io_ok_quiet [OF assms]) (use g i1 in auto)
  show ?thesis
  proof (cases q)
    case (Inl e)
    then show ?thesis using g ga ok1 by (simp add: HashFile_def)
  next
    case (Inr a)
    have len: "0 \<le> file_len ?db i" "file_len ?db i \<le> 2 ^ 58" using assms by (simp_all add: io_ok_def)
    then have "sint (a_length a) = file_len ?db i" using g Inr by (intro getAttr_len) auto
    then have la: "sint (a_length a) = int (length ?data)" using len by simp
    have d1: "?data = file_data (view (io_chunks f1)) (s_db (io_sys f1)) i" using g by (simp add: quiet_def)
    from Hash_loop_data [OF ok1 d1, of 0] obtain r f' where "Hash_loop S i (int (length ?data)) 0 [] f1 = Some (r, f')"
      "io_ok inv fresh i f'" "quiet f1 f'" "view (io_chunks f') = view (io_chunks f1)" "r \<noteq> Inl ErrPanic" "\<forall>x. r = Inr x \<longrightarrow> x = ?data" by auto
    then show ?thesis using ga Inr la g by (cases r) (auto simp: HashFile_def intro: quiet_trans)
  qed
qed

end

text \<open>The log and the database around a truncate: the record is in the log before the metadata decides.\<close>

lemma Files_Truncate_log:
  assumes run: "Files_Truncate i sz f = (r, f')" and lg: "log_rec (truncate_rec i sz) f = (ok, f1)"
  shows "(r = Some ErrWal \<longleftrightarrow> \<not> ok) \<and> io_wal f' = io_wal f1 \<and> io_disk f' = io_disk f1 \<and> io_chunks f' = io_chunks f \<and>
    (r \<noteq> None \<longrightarrow> same_but_leases (s_db (io_sys f)) (s_db (io_sys f')))"
proof -
  note l = log_rec_frame [OF lg]
  obtain t s2 where tr: "Truncate i sz (io_sys f) = (t, s2)" by (rule prod.exhaust)
  have err: "same_but_leases (s_db (io_sys f)) (s_db s2)" if "t = Inl e" for e
    using tr that fenced_tx_err unfolding Truncate_def same_mount_def by blast
  show ?thesis using run lg l tr err
    by (cases ok; cases t) (auto simp: Files_Truncate_def lift_meta_def same_but_leases_def)
qed

lemma split_length: "push_bit 32 (ucast (ucast (drop_bit 32 w) :: u32)) OR ucast (ucast w :: u32) = (w :: u64)"
  by (rule bit_word_eqI) (auto simp: bit_simps)

text \<open>Replaying the record of a truncation is the truncation.\<close>

lemma replay_truncate:
  assumes "0 \<le> sz" and "sz < 2 ^ 63"
  shows "replay_rec ((truncate_rec i sz)\<lparr>r_Seq := q\<rparr>) ((applied, skipped), s) = (case Truncate i sz s of
      (Inr _, s') \<Rightarrow> (None, (applied + 1, skipped), s')
    | (Inl e, s') \<Rightarrow> if e \<in> {ENOENT, EINVAL, ESTALE} then (None, (applied, skipped + 1), s') else (Some (ErrErrno e), (applied, skipped), s'))"
proof -
  have "sint (word_of_int sz :: u64) = sz" using assms by (simp add: sint_word_ariths signed_take_bit_int_eq_self sint_uint word_of_int_inverse)
  then show ?thesis
    by (simp add: replay_rec_def truncate_rec_def split_length Wal.OpWrite_def OpTruncate_def)
qed

text \<open>
  Replaying a committed record is not always without effect: the bridge truncates through the metadata engine, without a
  record, and the replay of an earlier write of the file brings its bytes and its length back.
\<close>

theorem replay_undoes_truncate:
  "let s1 = snd (Meta_Slices.Write 2 0 0 \<lparr>sl_id = 7, sl_size = 10, sl_off = 0, sl_len = 10\<rparr> demo_file);
       s2 = snd (Truncate 2 0 s1);
       (e, res, s3) = replay_rec \<lparr>r_Seq = 1, r_Op = Wal.OpWrite, r_Ino = 2, r_Indx = 0, r_Off = 0, r_SliceID = 7, r_Size = 10,
         r_SliceOff = 0, r_SliceLen = 10\<rparr> ((0, 0), s2)
   in file_len (s_db s1) 2 = 10 \<and> file_len (s_db s2) 2 = 0 \<and> t_slice_ref (s_db s2) = [] \<and>
      e = None \<and> res = (1, 0) \<and> file_len (s_db s3) 2 = 10 \<and> map sr_slice_id (t_slice_ref (s_db s3)) = [7]"
  by code_simp

end
