(* ===== verification/Cas_Store.thy ===== *)
theory Cas_Store
  imports Chunked_Put Local_Store File_Write
begin

text \<open>
  \<open>CasStore\<close> of mlfs/internal/chunkstore/chunkstore.go over the chunked store, with the manifest primitives of
  casstore/snapshot/store_register.go; the local wiring of mlfs/internal/chunkstore/local.go keeps the contract of the
  data path.
\<close>

section \<open>Definitions\<close>

subsection \<open>Registered manifests\<close>

definition ref_of_loc :: "ChunkLocation \<Rightarrow> chunkRef" where
  "ref_of_loc l = \<lparr>cr_Hash = cl_ChunkHash l, cr_PackHash = pr_PackHash (cl_PackRef l), cr_Offset = pr_Offset (cl_PackRef l),
     cr_Size = pr_Size (cl_PackRef l)\<rparr>"

definition RegisterManifest ::
  "('u, 'b, 's) ChunkedStore \<Rightarrow> SnapshotKey \<Rightarrow> SnapshotMetadata \<Rightarrow> ChunkLocation list \<Rightarrow> ('u, 'b) cs_state \<Rightarrow>
     (serr + SnapshotMetadata) \<times> ('u, 'b) cs_state" where
  "RegisterManifest C key meta chunks st =
    (if list_ex (\<lambda>l. pr_PackHash (cl_PackRef l) = [] \<or> pr_Size (cl_PackRef l) \<le> 0 \<or> pr_Offset (cl_PackRef l) < 0) chunks
     then (Inl ErrOther, st)
     else writeManifest C key meta \<lparr>cm_Format = manifestFormatV2, cm_TotalSize = sum_list (map (pr_Size \<circ> cl_PackRef) chunks),
       cm_Tenant = domainFor C key, cm_Chunks = map ref_of_loc chunks\<rparr> manifestFormatV2 st)"

definition loc_of_ref :: "chunkRef \<Rightarrow> ChunkLocation" where
  "loc_of_ref r = \<lparr>cl_ChunkHash = cr_Hash r, cl_PackRef = \<lparr>pr_PackHash = cr_PackHash r, pr_Offset = cr_Offset r, pr_Size = cr_Size r\<rparr>\<rparr>"

definition ManifestChunks ::
  "('u, 'b, 's) ChunkedStore \<Rightarrow> SnapshotKey \<Rightarrow> ('u, 'b) cs_state \<Rightarrow> (serr + ChunkLocation list) \<times> ('u, 'b) cs_state" where
  "ManifestChunks C key st = (case ss_GetLatest (cs_upstream C) key (st_up st) of
      (Inl e, u) \<Rightarrow> (Inl e, st\<lparr>st_up := u\<rparr>)
    | (Inr (m, _), u) \<Rightarrow>
        (if cm_Format m \<noteq> manifestFormatV2 \<or> list_ex (\<lambda>r. cr_PackHash r = []) (cm_Chunks m) then Inl ErrOther
         else Inr (map loc_of_ref (cm_Chunks m)), st\<lparr>st_up := u\<rparr>))"

subsection \<open>Slices\<close>

text \<open>\<open>strconv.ParseUint\<close> in base ten.\<close>

definition parse_uint :: "string \<Rightarrow> u64 option" where
  "parse_uint s = (if s = [] \<or> \<not> list_all is_digit s \<or> 2 ^ 64 \<le> dec_value s then None else Some (word_of_nat (dec_value s)))"

definition sliceKey :: "u64 \<Rightarrow> SnapshotKey" where
  "sliceKey i = \<lparr>k_Tenant = [], k_Workspace = [], k_User = [], k_OwnerKey = ''s/'' @ FormatUint (unat i)\<rparr>"

definition parseSliceKey :: "string \<Rightarrow> u64 option" where
  "parseSliceKey ownerKey = (case strip_prefix ''s/'' ownerKey of None \<Rightarrow> None | Some rest \<Rightarrow> parse_uint rest)"

definition no_meta :: SnapshotMetadata where
  "no_meta = \<lparr>m_Key = \<lparr>k_Tenant = [], k_Workspace = [], k_User = [], k_OwnerKey = []\<rparr>, m_Version = [], m_CreatedAt = 0, m_SizeBytes = 0,
     m_Runtime = [], m_Format = [], m_Tags = Map.empty\<rparr>"

definition metaForClass :: "StoreClass \<Rightarrow> SnapshotMetadata" where
  "metaForClass cl = (if cl = ClassUncompressed then no_meta\<lparr>m_Tags := [TagStoreUncompressed \<mapsto> ''1'']\<rparr> else no_meta)"

definition CasStore_Write ::
  "('u, 'b, 's) ChunkedStore \<Rightarrow> u64 \<Rightarrow> bytes \<Rightarrow> StoreClass \<Rightarrow> ('u, 'b) cs_state \<Rightarrow> bool \<times> ('u, 'b) cs_state" where
  "CasStore_Write C i data cl st = (case ChunkedStore_Put C (sliceKey i) (metaForClass cl) (bytesReader data) st of
      (Inl _, st') \<Rightarrow> (False, st')
    | (Inr _, st') \<Rightarrow> (True, st'))"

record BatchItem =
  bt_ID :: u64
  bt_Data :: bytes
  bt_Class :: StoreClass

definition WriteBatch :: "('u, 'b, 's) ChunkedStore \<Rightarrow> BatchItem list \<Rightarrow> ('u, 'b) cs_state \<Rightarrow> bool \<times> ('u, 'b) cs_state" where
  "WriteBatch C items st =
    (if items = [] then (True, st)
     else case PutBatch C (map (\<lambda>it. \<lparr>bi_Key = sliceKey (bt_ID it), bi_Meta = metaForClass (bt_Class it), bi_Data = bt_Data it\<rparr>) items) st of
         (Inl _, st') \<Rightarrow> (False, st')
       | (Inr _, st') \<Rightarrow> (True, st'))"

definition RegisterSlice :: "('u, 'b, 's) ChunkedStore \<Rightarrow> u64 \<Rightarrow> ChunkLocation list \<Rightarrow> StoreClass \<Rightarrow> ('u, 'b) cs_state \<Rightarrow> bool \<times> ('u, 'b) cs_state" where
  "RegisterSlice C i chunks cl st = (case RegisterManifest C (sliceKey i) (metaForClass cl) chunks st of
      (Inl _, st') \<Rightarrow> (False, st')
    | (Inr _, st') \<Rightarrow> (True, st'))"

definition SliceChunks :: "('u, 'b, 's) ChunkedStore \<Rightarrow> u64 \<Rightarrow> ('u, 'b) cs_state \<Rightarrow> (serr + ChunkLocation list) \<times> ('u, 'b) cs_state" where
  "SliceChunks C i st = ManifestChunks C (sliceKey i) st"

definition CasStore_Read :: "('u, 'b, 's) ChunkedStore \<Rightarrow> u64 \<Rightarrow> ('u, 'b) cs_state \<Rightarrow> bytes option \<times> ('u, 'b) cs_state" where
  "CasStore_Read C i st = (case ChunkedStore_GetLatest C (sliceKey i) st of
      (Inl _, st1) \<Rightarrow> (None, st1)
    | (Inr (rd, _), st1) \<Rightarrow> (case ReadAll C [] (rd, st1) of (Inl _, st2) \<Rightarrow> (None, st2) | (Inr bs, st2) \<Rightarrow> (Some bs, st2)))"

text \<open>A negative offset panics; the data path never passes one.\<close>

definition CasStore_ReadAt :: "('u, 'b, 's) ChunkedStore \<Rightarrow> u64 \<Rightarrow> int \<Rightarrow> nat \<Rightarrow> ('u, 'b) cs_state \<Rightarrow> bytes option \<times> ('u, 'b) cs_state" where
  "CasStore_ReadAt C i off n st = (case CasStore_Read C i st of
      (None, st') \<Rightarrow> (None, st')
    | (Some data, st') \<Rightarrow>
        if int (length data) \<le> off then (Some [], st')
        else if off < 0 then (None, st')
        else (Some (take n (drop (nat off) data)), st'))"

definition CasStore_Exists :: "('u, 'b, 's) ChunkedStore \<Rightarrow> u64 \<Rightarrow> ('u, 'b) cs_state \<Rightarrow> bool option \<times> ('u, 'b) cs_state" where
  "CasStore_Exists C i st = (case ChunkedStore_GetLatestMetadata C (sliceKey i) st of
      (Inr _, st') \<Rightarrow> (Some True, st')
    | (Inl e, st') \<Rightarrow> if e = ErrNoSnapshot then (Some False, st') else (None, st'))"

definition WalkSliceIDs :: "('u, 'b, 's) ChunkedStore \<Rightarrow> ('u, 'b) cs_state \<Rightarrow> (serr + (u64 \<times> int) list) \<times> ('u, 'b) cs_state" where
  "WalkSliceIDs C st = (case ChunkedStore_Walk C st of
      (Inl e, st') \<Rightarrow> (Inl e, st')
    | (Inr ws, st') \<Rightarrow>
        (Inr (List.map_filter (\<lambda>(key, _, m). map_option (\<lambda>i. (i, m_CreatedAt m)) (parseSliceKey (k_OwnerKey key))) ws), st'))"

fun delete_versions :: "('u, 'b, 's) ChunkedStore \<Rightarrow> SnapshotKey \<Rightarrow> SnapshotMetadata list \<Rightarrow> ('u, 'b) cs_state \<Rightarrow> bool \<times> ('u, 'b) cs_state" where
  "delete_versions C key [] st = (True, st)"
| "delete_versions C key (v # vs) st = (case ChunkedStore_Delete C key (m_Version v) st of
      (Some _, st') \<Rightarrow> (False, st')
    | (None, st') \<Rightarrow> delete_versions C key vs st')"

definition CasStore_Remove :: "('u, 'b, 's) ChunkedStore \<Rightarrow> u64 \<Rightarrow> ('u, 'b) cs_state \<Rightarrow> bool \<times> ('u, 'b) cs_state" where
  "CasStore_Remove C i st = (case ChunkedStore_List C (sliceKey i) st of
      (Inl e, st') \<Rightarrow> (e = ErrNoSnapshot, st')
    | (Inr vs, st') \<Rightarrow> delete_versions C (sliceKey i) vs st')"

definition CasStore :: "('u, 'b, 's) ChunkedStore \<Rightarrow> ('u, 'b) cs_state Store" where
  "CasStore C = \<lparr>st_Write = CasStore_Write C, st_Read = CasStore_Read C, st_ReadAt = CasStore_ReadAt C,
     st_Exists = CasStore_Exists C, st_Remove = CasStore_Remove C\<rparr>"

section \<open>Slice keys\<close>

lemma dec_value_format: "dec_value (FormatUint n) = n"
proof (induction n rule: FormatUint.induct)
  case (1 n)
  show ?case
  proof (cases "n < 10")
    case True
    then show ?thesis using digit_char [of n] by (subst FormatUint.simps) (simp add: dec_value_def)
  next
    case False
    have "n mod 10 < 10" by simp
    from digit_char [OF this] show ?thesis using 1 False by (subst FormatUint.simps) (simp add: dec_value_snoc)
  qed
qed

lemma FormatUint_digits: "list_all is_digit (FormatUint n)"
proof (induction n rule: FormatUint.induct)
  case (1 n)
  then show ?case using digit_char [of n] digit_char [of "n mod 10"]
    unfolding FormatUint.simps [of n] by (auto simp: is_digit_def)
qed

lemma parseSliceKey_sliceKey: "parseSliceKey (k_OwnerKey (sliceKey i)) = Some i"
  using FormatUint_digits [of "unat i"] FormatUint_nonempty [of "unat i"] unsigned_less [of i, where 'a = nat]
  by (simp add: parseSliceKey_def sliceKey_def strip_prefix_def parse_uint_def dec_value_format)

lemma sliceKey_eq [simp]: "sliceKey i = sliceKey j \<longleftrightarrow> i = j"
  using parseSliceKey_sliceKey by (metis option.inject)

lemma sliceKey_encoded [simp]: "sliceKey i \<in> encoded_keys"
  by (simp add: encoded_keys_def sliceKey_def unsafe_path_def)

section \<open>The contract of the data path\<close>

interpretation local_manifests: manifest_store "LocalStore blen" "\<lambda>_. True" encoded_keys local_latest local_unused
  for blen :: "chunkManifest \<Rightarrow> int"
  by unfold_locales

text \<open>
  The store of \<open>NewLocal\<close>: manifests in a local snapshot store, packing on, no hash collisions.  The bytes of a slice
  are those that its latest manifest describes.
\<close>

definition cas_inv :: "(chunkManifest local_state, 'b, 's) ChunkedStore \<Rightarrow> (chunkManifest local_state, 'b) cs_state \<Rightarrow> bool" where
  "cas_inv C st \<longleftrightarrow> (\<exists>blen. cs_upstream C = LocalStore blen) \<and> sha_ok (cs_sha C) \<and> cs_packTargetBytes C \<noteq> packingDisabled \<and>
     (\<forall>i m. local_latest (st_up st) (sliceKey i) = Some m \<longrightarrow> (\<exists>data. describes C m data))"

definition cas_view :: "(chunkManifest local_state, 'b, 's) ChunkedStore \<Rightarrow> (chunkManifest local_state, 'b) cs_state \<Rightarrow> u64 \<Rightarrow> bytes option" where
  "cas_view C st i = map_option (\<lambda>m. THE data. describes C m data) (local_latest (st_up st) (sliceKey i))"

definition cas_fresh :: "(chunkManifest local_state, 'b) cs_state \<Rightarrow> u64 \<Rightarrow> bool" where
  "cas_fresh st i \<longleftrightarrow> local_unused (st_up st) (sliceKey i)"

lemma the_described: "sha_ok (cs_sha C) \<Longrightarrow> describes C m data \<Longrightarrow> (THE d. describes C m d) = data"
  using describes_unique by blast

lemma cas_write:
  assumes "cas_inv C st" and "cas_fresh st i" and run: "CasStore_Write C i data cl st = (ok, st')"
  shows "cas_inv C st'" and "j \<noteq> i \<Longrightarrow> cas_view C st' j = cas_view C st j \<and> cas_fresh st' j = cas_fresh st j"
    and "ok \<Longrightarrow> cas_view C st' i = Some data"
proof -
  from assms(1) obtain blen where U: "cs_upstream C = LocalStore blen" and sha: "sha_ok (cs_sha C)"
    and pk: "cs_packTargetBytes C \<noteq> packingDisabled" by (auto simp: cas_inv_def)
  obtain q where p: "putV2 C (sliceKey i) (metaForClass cl) (bytesReader data) st = (q, st')" "ok \<longleftrightarrow> (\<exists>md. q = Inr md)"
    using run pk by (auto simp: CasStore_Write_def ChunkedStore_Put_def split: prod.splits sum.splits)
  note eff = local_manifests.putV2_effect [OF p(1) U TrueI sliceKey_encoded sha, unfolded bytesReader_bytes]
  have oth: "local_latest (st_up st') (sliceKey j) = local_latest (st_up st) (sliceKey j)"
    "local_unused (st_up st') (sliceKey j) = local_unused (st_up st) (sliceKey j)" if "j \<noteq> i" for j
    using eff that by simp_all
  have own: "(\<exists>m. local_latest (st_up st') (sliceKey i) = Some m \<and> describes C m data) \<or> \<not> ok \<and> local_latest (st_up st') (sliceKey i) = None"
    using eff assms(2) p(2) by (auto simp: cas_fresh_def)
  have "\<exists>d. describes C m d" if "local_latest (st_up st') (sliceKey k) = Some m" for k m
    using that oth own assms(1) by (cases "k = i") (auto simp: cas_inv_def)
  then show "cas_inv C st'" using U sha pk by (auto simp: cas_inv_def)
  show "j \<noteq> i \<Longrightarrow> cas_view C st' j = cas_view C st j \<and> cas_fresh st' j = cas_fresh st j"
    using oth by (simp add: cas_view_def cas_fresh_def)
  show "ok \<Longrightarrow> cas_view C st' i = Some data" using own the_described [OF sha] by (auto simp: cas_view_def)
qed

lemma cas_read:
  assumes "cas_inv C st" and run: "CasStore_Read C i st = (r, st')"
  shows "cas_inv C st'" and "cas_view C st' = cas_view C st" and "cas_fresh st' = cas_fresh st" and "r = Some bs \<Longrightarrow> cas_view C st i = Some bs"
proof -
  from assms(1) obtain blen where U: "cs_upstream C = LocalStore blen" and sha: "sha_ok (cs_sha C)" by (auto simp: cas_inv_def)
  obtain q u where g: "ss_GetLatest (LocalStore blen) (sliceKey i) (st_up st) = (q, u)" by (rule prod.exhaust)
  note fr = local_snaps.latest_frame [OF TrueI sliceKey_encoded g]
  let ?st1 = "st\<lparr>st_up := u\<rparr>"
  have "st_up st' = u"
    using run U g ReadAll_only [OF gets_keep_unit, of C "[]" "(_, ?st1)"]
    by (auto simp: CasStore_Read_def ChunkedStore_GetLatest_def read_only_def split: sum.splits prod.splits)
  then have same: "local_latest (st_up st') (sliceKey j) = local_latest (st_up st) (sliceKey j)"
    "local_unused (st_up st') (sliceKey j) = local_unused (st_up st) (sliceKey j)" for j using fr by simp_all
  then show "cas_inv C st'" "cas_view C st' = cas_view C st" "cas_fresh st' = cas_fresh st"
    using assms(1) by (auto simp: cas_inv_def cas_view_def cas_fresh_def)
  show "cas_view C st i = Some bs" if rb: "r = Some bs"
  proof -
    obtain m md where q: "q = Inr (m, md)" using run U g rb by (cases q) (auto simp: CasStore_Read_def ChunkedStore_GetLatest_def)
    have lt: "local_latest (st_up st) (sliceKey i) = Some m" by (rule local_snaps.latest_ok [OF TrueI sliceKey_encoded g [unfolded q]])
    then obtain data where d: "describes C m data" using assms(1) by (auto simp: cas_inv_def)
    obtain rd where rd: "openManifest m = Inr rd"
      using run U g q rb by (cases "openManifest m") (auto simp: CasStore_Read_def ChunkedStore_GetLatest_def)
    obtain z st2 where ra: "ReadAll C [] (rd, ?st1) = (z, st2)" by (rule prod.exhaust)
    then have "z = Inr bs" using run U g q rb rd by (cases z) (auto simp: CasStore_Read_def ChunkedStore_GetLatest_def)
    then have "bs = data" using read_described [OF sha d rd] ra by blast
    then show ?thesis using lt the_described [OF sha d] by (simp add: cas_view_def)
  qed
qed

interpretation cas: slice_store "CasStore C" "cas_inv C" "cas_view C" cas_fresh
  for C :: "(chunkManifest local_state, 'b, 's) ChunkedStore"
proof (unfold_locales, goal_cases)
  case (1 c i off n bs c')
  then obtain data c1 where r: "CasStore_Read C i c = (Some data, c1)"
    by (auto simp: CasStore_def CasStore_ReadAt_def split: prod.splits option.splits)
  then have "bs = take n (drop (nat off) data)" using 1 by (auto simp: CasStore_def CasStore_ReadAt_def split: if_splits)
  then show ?case using cas_read(4) [OF 1(1) r] by blast
next
  case (2 c i off n r c')
  then obtain q where "CasStore_Read C i c = (q, c')"
    by (auto simp: CasStore_def CasStore_ReadAt_def split: prod.splits option.splits if_splits)
  then show ?case using cas_read(1,2) [OF 2(1)] by blast
next
  case (3 c i data cl c')
  then show ?case using cas_write(3) [OF 3(1,2)] by (simp add: CasStore_def)
next
  case (4 c i data cl ok c')
  then show ?case using cas_write(1,2) [OF 4(1,2), of data cl ok c'] by (simp add: CasStore_def)
next
  case (5 c i off n r c')
  then obtain q where "CasStore_Read C i c = (q, c')"
    by (auto simp: CasStore_def CasStore_ReadAt_def split: prod.splits option.splits if_splits)
  then show ?case using cas_read(3) [OF 5(1)] by blast
qed

text \<open>A registered manifest references packs without associating its owner with them.\<close>

lemma RegisterManifest_no_association: "RegisterManifest C key meta chunks st = (q, st') \<Longrightarrow> st_dedup st' = st_dedup st"
  by (auto simp: RegisterManifest_def writeManifest_def split: prod.splits if_splits)

end
