(* ===== verification/Chunked_Held.thy ===== *)
theory Chunked_Held
  imports Chunked_Put
begin

text \<open>
  Puts store what they acknowledge: the packs behind a manifest are in the blob storage, in the form \<open>F\<close> that the
  configuration gives them, before the manifest refers to them, and no put removes or replaces a pack.  \<open>F stored raw\<close> says that
  \<open>stored\<close> is an accepted form of the content \<open>raw\<close>; that it can be decoded to \<open>raw\<close> is the weakest choice and serves every
  configuration.
\<close>

section \<open>Packs that hold their chunks\<close>

definition slice_is :: "('u, 'b, 's) ChunkedStore \<Rightarrow> bytes \<Rightarrow> int \<Rightarrow> int \<Rightarrow> string \<Rightarrow> bool" where
  "slice_is C raw off sz h \<longleftrightarrow> 0 \<le> off \<and> 0 \<le> sz \<and> off + sz \<le> int (length raw) \<and> hexsha C (take (nat sz) (drop (nat off) raw)) = h"

type_synonym pack_form = "bytes \<Rightarrow> bytes \<Rightarrow> bool"

text \<open>A chunk location in domain \<open>d\<close> that the blobs hold.\<close>

definition loc_live :: "pack_form \<Rightarrow> ('u, 'b, 's) ChunkedStore \<Rightarrow> (string \<Rightarrow> bytes option) \<Rightarrow> string \<Rightarrow> string \<Rightarrow> PackRef \<Rightarrow> bool" where
  "loc_live F C bl d h ref \<longleftrightarrow> (\<exists>stored raw. bl (packBlobID d (pr_PackHash ref)) = Some stored \<and> F stored raw \<and>
     slice_is C raw (pr_Offset ref) (pr_Size ref) h)"

definition ref_live :: "pack_form \<Rightarrow> ('u, 'b, 's) ChunkedStore \<Rightarrow> (string \<Rightarrow> bytes option) \<Rightarrow> string \<Rightarrow> chunkRef \<Rightarrow> bool" where
  "ref_live F C bl d ref \<longleftrightarrow> loc_live F C bl d (cr_Hash ref) \<lparr>pr_PackHash = cr_PackHash ref, pr_Offset = cr_Offset ref, pr_Size = cr_Size ref\<rparr>"

text \<open>Packs are what their names say, and the index points to chunks that are there.\<close>

definition packs_ok :: "pack_form \<Rightarrow> ('u, 'b, 's) ChunkedStore \<Rightarrow> (string \<Rightarrow> bytes option) \<Rightarrow> string \<Rightarrow> MemoryDedupStore \<Rightarrow> bool" where
  "packs_ok F C bl d D \<longleftrightarrow>
     (\<forall>h stored. bl (packBlobID d h) = Some stored \<longrightarrow> (\<exists>raw. F stored raw \<and> hexsha C raw = h)) \<and>
     (\<forall>h ref. map_of (md_byDom D d) h = Some ref \<longrightarrow> loc_live F C bl d h ref)"

text \<open>Packs of at most \<open>L\<close> bytes and chunks are stored in the form.\<close>

definition stores :: "pack_form \<Rightarrow> ('u, 'b, 's) ChunkedStore \<Rightarrow> CompressionAlgo \<Rightarrow> nat \<Rightarrow> bool" where
  "stores F C algo L \<longleftrightarrow> (\<forall>raw spans stored. raw \<noteq> [] \<and> length raw \<le> L \<and> length spans \<le> L \<and> storePackBlob C raw spans algo = Inr stored \<longrightarrow> F stored raw)"

section \<open>Puts\<close>

lemma loc_live_mono: "\<forall>i s. bl i = Some s \<longrightarrow> bl' i = Some s \<Longrightarrow> loc_live F C bl d h ref \<Longrightarrow> loc_live F C bl' d h ref"
  unfolding loc_live_def by blast

lemma ref_live_mono: "\<forall>i s. bl i = Some s \<longrightarrow> bl' i = Some s \<Longrightarrow> ref_live F C bl d ref \<Longrightarrow> ref_live F C bl' d ref"
  unfolding ref_live_def by (rule loc_live_mono)

lemma packBlobID_inj [simp]: "packBlobID d h = packBlobID d h' \<longleftrightarrow> h = h'"
  by (simp add: packBlobID_def)

lemma store_pack:
  assumes so: "storage_ok (cs_chunks C) v" and sha: "sha_ok (cs_sha C)" and ok: "packs_ok F C (v b0) d D" and p: "F stored raw"
    and put: "PutIfAbsent (cs_chunks C) (packBlobID d (hexsha C raw)) stored b0 = (r, b)"
  shows "\<forall>i s. v b0 i = Some s \<longrightarrow> v b i = Some s" and "packs_ok F C (v b) d D"
    and "r = None \<Longrightarrow> \<exists>s. v b (packBlobID d (hexsha C raw)) = Some s \<and> F s raw"
proof -
  note eff = PutIfAbsent_effect [OF so put]
  show mono: "\<forall>i s. v b0 i = Some s \<longrightarrow> v b i = Some s" using eff(1) by auto
  have packs: "\<exists>raw'. F s raw' \<and> hexsha C raw' = h" if "v b (packBlobID d h) = Some s" for h s
  proof (cases "v b0 (packBlobID d h) = Some s")
    case True
    then show ?thesis using ok by (simp add: packs_ok_def)
  next
    case False
    then have "h = hexsha C raw" "s = stored" using eff(1) that by (auto split: if_splits)
    then show ?thesis using p by blast
  qed
  have idx: "loc_live F C (v b) d h ref" if "map_of (md_byDom D d) h = Some ref" for h ref
    using ok that loc_live_mono [OF mono] unfolding packs_ok_def by blast
  show "packs_ok F C (v b) d D" unfolding packs_ok_def by (intro conjI allI impI packs idx)
  show "\<exists>s. v b (packBlobID d (hexsha C raw)) = Some s \<and> F s raw" if r: "r = None"
  proof -
    from eff(2) [OF r] obtain s where s: "v b (packBlobID d (hexsha C raw)) = Some s" by blast
    from packs [OF this] obtain raw' where "F s raw'" "hexsha C raw' = hexsha C raw" by blast
    then show ?thesis using s hexsha_eq [OF sha] by metis
  qed
qed

text \<open>The state of a put: the chunks recorded so far are held by a pack, or by the buffer at the place recorded.\<close>

definition v2_live :: "pack_form \<Rightarrow> ('u, 'b, 's) ChunkedStore \<Rightarrow> ('b \<Rightarrow> string \<Rightarrow> bytes option) \<Rightarrow> string \<Rightarrow> ('u, 'b) v2_state \<Rightarrow> bool" where
  "v2_live F C v d x \<longleftrightarrow> (let bl = v (st_blobs (v2_st x)) in
     packs_ok F C bl d (st_dedup (v2_st x)) \<and>
     (\<exists>pending. v2_sess x = GlobalSession d pending \<and> (\<forall>l \<in> set pending. loc_live F C bl d (cl_ChunkHash l) (cl_PackRef l))) \<and>
     (\<forall>ref \<in> set (v2_chunks x). cr_PackHash ref \<noteq> [] \<longrightarrow> ref_live F C bl d ref) \<and>
     (\<forall>e \<in> set (v2_entries x). en_idx e < length (v2_chunks x) \<and> cr_Offset (v2_chunks x ! en_idx e) = en_offset e \<and>
        cr_Size (v2_chunks x ! en_idx e) = en_size e \<and>
        slice_is C (v2_buf x) (en_offset e) (en_size e) (cr_Hash (v2_chunks x ! en_idx e))) \<and>
     (\<forall>i < length (v2_chunks x). cr_PackHash (v2_chunks x ! i) = [] \<longrightarrow> i \<in> en_idx ` set (v2_entries x)))"

definition within :: "nat \<Rightarrow> ('u, 'b) v2_state \<Rightarrow> bool" where
  "within k x \<longleftrightarrow> length (v2_buf x) \<le> k \<and> length (v2_entries x) \<le> k"

lemma stored_form:
  assumes "stores F C algo L" and "within L x" and "v2_buf x \<noteq> []"
    and "storePackBlob C (v2_buf x) (map (\<lambda>e. \<lparr>sp_offset = en_offset e, sp_size = en_size e\<rparr>) (v2_entries x)) algo = Inr stored"
  shows "F stored (v2_buf x)"
proof -
  let ?spans = "map (\<lambda>e. \<lparr>sp_offset = en_offset e, sp_size = en_size e\<rparr>) (v2_entries x)"
  have "length ?spans \<le> L" "length (v2_buf x) \<le> L" using assms(2) by (simp_all add: within_def)
  then show ?thesis using assms(1,3,4) unfolding stores_def by blast
qed

lemma fold_sess_Record:
  "fold (\<lambda>e. sess_Record (f e)) es (GlobalSession d pending) = GlobalSession d (pending @ map f es)"
  by (induction es arbitrary: pending) (simp_all add: sess_Record_def)

lemma flushPack_live:
  assumes so: "storage_ok (cs_chunks C) v" and sha: "sha_ok (cs_sha C)" and al: "stores F C algo L"
    and lv: "v2_live F C v d x" and w: "within L x" and run: "flushPack C d algo x = (None, x')"
  shows "v2_live F C v d x'"
proof (cases "v2_buf x = []")
  case True
  then show ?thesis using run lv by (simp add: flushPack_def)
next
  case False
  let ?ph = "hexsha C (v2_buf x)" and ?st = "v2_st x" and ?es = "v2_entries x" and ?cs = "v2_chunks x"
  from run False obtain stored b
    where sto: "storePackBlob C (v2_buf x) (map (\<lambda>e. \<lparr>sp_offset = en_offset e, sp_size = en_size e\<rparr>) ?es) algo = Inr stored"
    and put: "PutIfAbsent (cs_chunks C) (packBlobID d ?ph) stored (st_blobs ?st) = (None, b)"
    and x': "x' = x\<lparr>v2_chunks := fold (set_pack ?ph) ?es ?cs,
        v2_sess := fold (\<lambda>e. sess_Record (entry_loc ?cs ?ph e)) ?es (v2_sess x),
        v2_buf := [], v2_entries := [], v2_st := ?st\<lparr>st_blobs := b\<rparr>\<rparr>"
    by (auto simp: flushPack_def Let_def split: sum.splits prod.splits option.splits)
  have p: "F stored (v2_buf x)" by (rule stored_form [OF al w False sto])
  have ok: "packs_ok F C (v (st_blobs ?st)) d (st_dedup ?st)" using lv by (simp add: v2_live_def Let_def)
  note sp = store_pack [OF so sha ok p put]
  obtain s where s: "v b (packBlobID d ?ph) = Some s" "F s (v2_buf x)" using sp(3) by blast
  have es: "en_idx e < length ?cs" "cr_Offset (?cs ! en_idx e) = en_offset e" "cr_Size (?cs ! en_idx e) = en_size e"
      "slice_is C (v2_buf x) (en_offset e) (en_size e) (cr_Hash (?cs ! en_idx e))" if "e \<in> set ?es" for e
    using lv that by (simp_all add: v2_live_def Let_def)
  have live: "loc_live F C (v b) d (cr_Hash (?cs ! en_idx e)) \<lparr>pr_PackHash = ?ph, pr_Offset = en_offset e, pr_Size = en_size e\<rparr>"
    if "e \<in> set ?es" for e using s es(4) [OF that] by (auto simp: loc_live_def)
  obtain pending where pend: "v2_sess x = GlobalSession d pending"
    "\<forall>l \<in> set pending. loc_live F C (v (st_blobs ?st)) d (cl_ChunkHash l) (cl_PackRef l)" using lv by (auto simp: v2_live_def Let_def)
  have idx: "\<forall>e \<in> set ?es. en_idx e < length ?cs" using es(1) by blast
  have "cr_PackHash (fold (set_pack ?ph) ?es ?cs ! i) \<noteq> [] \<and> ref_live F C (v b) d (fold (set_pack ?ph) ?es ?cs ! i)" if i: "i < length ?cs" for i
  proof (cases "i \<in> en_idx ` set ?es")
    case True
    then obtain e where e: "e \<in> set ?es" "i = en_idx e" by blast
    then show ?thesis using live [OF e(1)] es [OF e(1)] set_packs(2) [OF idx i] True hexsha_nonempty [OF sha]
      by (simp add: ref_live_def)
  next
    case False
    then have "cr_PackHash (?cs ! i) \<noteq> []" "ref_live F C (v (st_blobs ?st)) d (?cs ! i)"
      using lv i nth_mem [OF i] by (auto simp: v2_live_def Let_def)
    then show ?thesis using set_packs(2) [OF idx i] False ref_live_mono [OF sp(1)] by simp
  qed
  then have "\<forall>ref \<in> set (fold (set_pack ?ph) ?es ?cs). cr_PackHash ref \<noteq> [] \<and> ref_live F C (v b) d ref"
    using set_packs(1) [OF idx] by (auto simp: all_set_conv_all_nth)
  moreover have "\<forall>l \<in> set (pending @ map (entry_loc ?cs ?ph) ?es). loc_live F C (v b) d (cl_ChunkHash l) (cl_PackRef l)"
    using pend(2) live by (auto simp: entry_loc_def intro: loc_live_mono [OF sp(1)])
  ultimately show ?thesis
    using sp(2) by (auto simp: v2_live_def x' pend(1) fold_sess_Record)
qed

lemma lookup_live:
  assumes "v2_live F C v d x" and "sess_Lookup (v2_sess x) h (st_dedup (v2_st x)) = Some ref"
  shows "loc_live F C (v (st_blobs (v2_st x))) d h ref"
proof -
  have "map_of (md_byDom (st_dedup (v2_st x)) d) h = Some ref"
    using assms by (auto simp: v2_live_def Let_def sess_Lookup_def Dedup_Lookup_def split: option.splits if_splits)
  then show ?thesis using assms(1) unfolding v2_live_def Let_def packs_ok_def by blast
qed

lemma slice_grow: "slice_is C buf off sz h \<Longrightarrow> slice_is C (buf @ cur) off sz h"
  by (auto simp: slice_is_def)

lemma emitChunk_live:
  assumes so: "storage_ok (cs_chunks C) v" and sha: "sha_ok (cs_sha C)" and al: "stores F C algo L"
    and lv: "v2_live F C v d x" and w: "within k x" "k + length cur \<le> L" and run: "emitChunk C d algo cur x = (None, x')"
  shows "v2_live F C v d x'"
proof (cases "cur = []")
  case True
  then show ?thesis using lv run by (simp add: emitChunk_def)
next
  case False
  let ?h = "hexsha C cur"
  show ?thesis
  proof (cases "reusable ?h (sess_Lookup (v2_sess x) ?h (st_dedup (v2_st x)))")
    case (Some ref)
    then have "sess_Lookup (v2_sess x) ?h (st_dedup (v2_st x)) = Some ref" "pr_PackHash ref \<noteq> []"
      by (auto simp: reusable_def split: option.splits if_splits)
    moreover have "\<lparr>pr_PackHash = pr_PackHash ref, pr_Offset = pr_Offset ref, pr_Size = pr_Size ref\<rparr> = ref" by simp
    ultimately show ?thesis using lookup_live [OF lv] lv run Some False
      by (auto simp: emitChunk_def Let_def v2_live_def ref_live_def nth_append less_Suc_eq)
  next
    case None
    define x1 where "x1 = x\<lparr>v2_buf := v2_buf x @ cur,
        v2_chunks := v2_chunks x @ [\<lparr>cr_Hash = ?h, cr_PackHash = [], cr_Offset = int (length (v2_buf x)), cr_Size = int (length cur)\<rparr>],
        v2_total := v2_total x + int (length cur),
        v2_entries := v2_entries x @ [\<lparr>en_idx = length (v2_chunks x), en_offset = int (length (v2_buf x)), en_size = int (length cur)\<rparr>]\<rparr>"
    have new: "slice_is C (v2_buf x @ cur) (int (length (v2_buf x))) (int (length cur)) ?h" by (simp add: slice_is_def)
    have "v2_live F C v d x1"
      using lv new by (auto simp: v2_live_def Let_def x1_def nth_append less_Suc_eq slice_grow)
    moreover have "within L x1" using w False by (cases cur) (auto simp: within_def x1_def)
    moreover have "x' = x1 \<or> flushPack C d algo x1 = (None, x')"
      using run False None by (auto simp: emitChunk_def Let_def x1_def split: if_splits)
    ultimately show ?thesis using flushPack_live [OF so sha al] by blast
  qed
qed

lemma flushPack_within: "within k x \<Longrightarrow> flushPack C d algo x = (q, x') \<Longrightarrow> within k x'"
  by (auto simp: flushPack_def within_def Let_def split: if_splits sum.splits prod.splits option.splits)

lemma emitChunk_shape:
  assumes w: "within k x" and run: "emitChunk C d algo cur x = (q, x')"
  shows "\<exists>x1. v2_st x1 = v2_st x \<and> within (k + length cur) x1 \<and> (x' = x1 \<or> flushPack C d algo x1 = (q, x'))"
proof (cases "cur = []")
  case True
  then show ?thesis using assms by (auto simp: emitChunk_def)
next
  case False
  let ?h = "hexsha C cur"
  show ?thesis
  proof (cases "reusable ?h (sess_Lookup (v2_sess x) ?h (st_dedup (v2_st x)))")
    case (Some ref)
    then show ?thesis using assms False by (intro exI [of _ x']) (auto simp: emitChunk_def Let_def within_def)
  next
    case None
    define x1 where "x1 = x\<lparr>v2_buf := v2_buf x @ cur,
        v2_chunks := v2_chunks x @ [\<lparr>cr_Hash = ?h, cr_PackHash = [], cr_Offset = int (length (v2_buf x)), cr_Size = int (length cur)\<rparr>],
        v2_total := v2_total x + int (length cur),
        v2_entries := v2_entries x @ [\<lparr>en_idx = length (v2_chunks x), en_offset = int (length (v2_buf x)), en_size = int (length cur)\<rparr>]\<rparr>"
    have "within (k + length cur) x1" using w False by (cases cur) (auto simp: within_def x1_def)
    moreover have "x' = x1 \<or> flushPack C d algo x1 = (q, x')"
      using run False None by (auto simp: emitChunk_def Let_def x1_def split: if_splits)
    ultimately show ?thesis by (intro exI [of _ x1]) (auto simp: x1_def)
  qed
qed

lemma emitChunk_within:
  assumes "within k x" and "emitChunk C d algo cur x = (q, x')"
  shows "within (k + length cur) x'"
  using emitChunk_shape [OF assms] flushPack_within by metis

lemma commit_live:
  assumes ok: "packs_ok F C bl d D" and pend: "\<forall>l \<in> set pending. loc_live F C bl d (cl_ChunkHash l) (cl_PackRef l)"
  shows "packs_ok F C bl d (sess_Commit (GlobalSession d pending) D)"
proof -
  have "loc_live F C bl d h ref" if mp: "map_of (md_byDom (sess_Commit (GlobalSession d pending) D) d) h = Some ref" for h ref
  proof (cases "map_of (md_byDom D d) h")
    case (Some ref')
    then have "ref' = ref" using mp by (auto simp: sess_Commit_def Dedup_Record_def fold_record_map split: if_splits)
    then show ?thesis using ok Some unfolding packs_ok_def by blast
  next
    case None
    then obtain l where "List.find (\<lambda>l. cl_ChunkHash l = h) pending = Some l" "ref = cl_PackRef l"
      using mp by (auto simp: sess_Commit_def Dedup_Record_def fold_record_map split: if_splits)
    then show ?thesis using pend by (auto simp: find_Some_iff)
  qed
  then show ?thesis using ok by (simp add: packs_ok_def)
qed

lemma associate_live:
  assumes "associatePacks C domain ctx cs D = (e, D')"
  shows "md_byDom D' = md_byDom D"
  using assms by (auto simp: associatePacks_def Associate_def Let_def set_assoc_def split: if_splits)

lemma packs_ok_index: "packs_ok F C bl d D \<Longrightarrow> md_byDom D' = md_byDom D \<Longrightarrow> packs_ok F C bl d D'"
  by (simp add: packs_ok_def)

text \<open>Whatever becomes of a put, the packs that were there are still there.\<close>

definition keeps :: "pack_form \<Rightarrow> ('u, 'b, 's) ChunkedStore \<Rightarrow> ('b \<Rightarrow> string \<Rightarrow> bytes option) \<Rightarrow> string \<Rightarrow> ('u, 'b) cs_state \<Rightarrow> ('u, 'b) cs_state \<Rightarrow> bool" where
  "keeps F C v d st st' \<longleftrightarrow> packs_ok F C (v (st_blobs st')) d (st_dedup st') \<and> st_framing st' = st_framing st \<and>
     (\<forall>i s. v (st_blobs st) i = Some s \<longrightarrow> v (st_blobs st') i = Some s)"

lemma flushPack_keeps:
  assumes so: "storage_ok (cs_chunks C) v" and sha: "sha_ok (cs_sha C)" and al: "stores F C algo L"
    and k: "keeps F C v d st (v2_st x)" and w: "within L x" and run: "flushPack C d algo x = (q, x')"
  shows "keeps F C v d st (v2_st x')"
proof (cases "v2_buf x = []")
  case True
  then show ?thesis using k run by (simp add: flushPack_def)
next
  case False
  let ?spans = "map (\<lambda>e. \<lparr>sp_offset = en_offset e, sp_size = en_size e\<rparr>) (v2_entries x)"
  show ?thesis
  proof (cases "storePackBlob C (v2_buf x) ?spans algo")
    case (Inl e)
    then show ?thesis using k run False by (simp add: flushPack_def Let_def)
  next
    case (Inr stored)
    obtain r b where put: "PutIfAbsent (cs_chunks C) (packBlobID d (hexsha C (v2_buf x))) stored (st_blobs (v2_st x)) = (r, b)" by (rule prod.exhaust)
    then have x': "v2_st x' = (v2_st x)\<lparr>st_blobs := b\<rparr>" using run False Inr by (cases r) (auto simp: flushPack_def Let_def)
    have ok: "packs_ok F C (v (st_blobs (v2_st x))) d (st_dedup (v2_st x))" using k by (simp add: keeps_def)
    have p: "F stored (v2_buf x)" by (rule stored_form [OF al w False Inr])
    show ?thesis using store_pack(1,2) [OF so sha ok p put] k by (simp add: keeps_def x')
  qed
qed

lemma emitChunk_keeps:
  assumes "storage_ok (cs_chunks C) v" and "sha_ok (cs_sha C)" and "stores F C algo L"
    and k: "keeps F C v d st (v2_st x)" and w: "within k x" "k + length cur \<le> L" and run: "emitChunk C d algo cur x = (q, x')"
  shows "keeps F C v d st (v2_st x')"
proof -
  obtain x1 where x1: "v2_st x1 = v2_st x" "within (k + length cur) x1" "x' = x1 \<or> flushPack C d algo x1 = (q, x')"
    using emitChunk_shape [OF w(1) run] by blast
  have "within L x1" using x1(2) w(2) by (auto simp: within_def)
  then show ?thesis using x1 flushPack_keeps [OF assms(1-3), of d st x1] k by auto
qed

text \<open>
  A put ends before it writes its manifest, with an error, or it hands the snapshot store a manifest that describes the
  stream and whose chunks are held by stored packs.
\<close>

definition put_outcome ::
  "pack_form \<Rightarrow> ('u, 'b, 's) ChunkedStore \<Rightarrow> ('b \<Rightarrow> string \<Rightarrow> bytes option) \<Rightarrow> SnapshotKey \<Rightarrow> SnapshotMetadata \<Rightarrow> reader \<Rightarrow> ('u, 'b) cs_state \<Rightarrow>
     serr + SnapshotMetadata \<Rightarrow> ('u, 'b) cs_state \<Rightarrow> bool" where
  "put_outcome F C v key meta r st q st' \<longleftrightarrow> (\<exists>e. q = Inl e) \<and> st_up st' = st_up st \<or>
     (\<exists>m. cm_Format m = manifestFormatV2 \<and> cm_Tenant m = domainFor C key \<and> describes C m (reader_bytes r) \<and>
        (\<forall>ref \<in> set (cm_Chunks m). ref_live F C (v (st_blobs st')) (domainFor C key) ref) \<and>
        ss_Put (cs_upstream C) key (meta\<lparr>m_Tags := (m_Tags meta)(''chunked_format'' \<mapsto> manifestFormatV2)\<rparr>) m (st_up st) = (q, st_up st'))"

lemma putV2_live:
  assumes run: "putV2 C key meta r st = (q, st')" and so: "storage_ok (cs_chunks C) v" and sha: "sha_ok (cs_sha C)" and gi: "cs_index C = GlobalIndex"
    and al: "stores F C (codecFor C meta) (length (reader_bytes r))"
    and ok: "packs_ok F C (v (st_blobs st)) (domainFor C key) (st_dedup st)"
  shows "keeps F C v (domainFor C key) st st'"
    and "put_outcome F C v key meta r st q st'"
proof -
  let ?d = "domainFor C key" and ?a = "codecFor C meta" and ?L = "length (reader_bytes r)"
  let ?x0 = "\<lparr>v2_chunks = [], v2_total = 0, v2_buf = [], v2_entries = [], v2_sess = GlobalSession ?d [], v2_st = st\<rparr>"
  obtain e x where sp: "split_stream (cs_splitter C) (emitChunk C ?d ?a) r ?x0 = (e, x)" by (rule prod.exhaust)
  obtain e1 x1 where fl: "flushPack C ?d ?a x = (e1, x1)" by (rule prod.exhaust)
  let ?st1 = "(v2_st x1)\<lparr>st_dedup := sess_Commit (v2_sess x1) (st_dedup (v2_st x1))\<rparr>"
  obtain e2 D where as: "associatePacks C ?d (contextFor key meta) (v2_chunks x1) (st_dedup ?st1) = (e2, D)" by (rule prod.exhaust)
  let ?m = "\<lparr>cm_Format = manifestFormatV2, cm_TotalSize = v2_total x1, cm_Tenant = ?d, cm_Chunks = v2_chunks x1\<rparr>"
  let ?I = "\<lambda>ps x. v2_ok C ps x \<and> within (length (concat ps)) x \<and> (length (concat ps) \<le> ?L \<longrightarrow> v2_live F C v ?d x)"
  let ?J = "\<lambda>k x. within k x \<and> st_up (v2_st x) = st_up st \<and> (k \<le> ?L \<longrightarrow> keeps F C v ?d st (v2_st x))"
  have I: "?I (ps @ [cur]) y'" if em: "emitChunk C ?d ?a cur y = (None, y')" and I0: "?I ps y" for cur y y' ps
    using emitChunk_ok [OF sha _ em, of ps] emitChunk_live [OF so sha al, where k = "length (concat ps)" and x = y and cur = cur and d = ?d and x' = y']
      emitChunk_within [where k = "length (concat ps)", OF _ em] em I0 by simp
  have J: "?J (k + length cur) y'" if em: "emitChunk C ?d ?a cur y = (p, y')" and J0: "?J k y" for cur y p y' k
    using emitChunk_keeps [OF so sha al, where k = k and x = y and cur = cur and d = ?d and q = p and x' = y' and st = st]
      emitChunk_within [where k = k, OF _ em] emitChunk_up [OF em] em J0 by simp
  have s: "(?J 0 ?x0 \<longrightarrow> (\<exists>k \<le> ?L. ?J k x)) \<and> (e = None \<longrightarrow> ?I [] ?x0 \<longrightarrow> (\<exists>ps. ?I ps x \<and> concat ps = reader_bytes r))"
    by (rule split_stream_inv [OF _ _ sp]) (fact I, fact J)
  have x0: "?I [] ?x0" "?J 0 ?x0" using ok by (simp_all add: v2_ok_def v2_live_def keeps_def within_def)
  have w: "within ?L x" using s x0(2) by (auto simp: within_def)
  have k: "keeps F C v ?d st (v2_st x)" "st_up (v2_st x) = st_up st" using s x0(2) by auto
  have k1: "keeps F C v ?d st (v2_st x1)" "st_up (v2_st x1) = st_up st"
    using flushPack_keeps [OF so sha al k(1) w fl] flushPack_up [OF fl] k(2) by simp_all
  have both: "keeps F C v ?d st st' \<and> put_outcome F C v key meta r st q st'"
  proof (cases "e = None \<and> e1 = None")
    case False
    then have "(\<exists>er. q = Inl er) \<and> (st' = v2_st x \<or> st' = v2_st x1)"
      using run gi sp fl by (auto simp: putV2_def NewSession_def Let_def split: option.splits prod.splits)
    then show ?thesis using k k1 by (auto simp: put_outcome_def)
  next
    case True
    then obtain ps where ps: "v2_ok C ps x" "v2_live F C v ?d x" "concat ps = reader_bytes r" using s x0(1) by auto
    have d: "describes C ?m (reader_bytes r)" using v2_done_describes [OF flushPack_ok [OF sha ps(1)]] fl True ps(3) by simp
    have lv: "v2_live F C v ?d x1" by (rule flushPack_live [OF so sha al ps(2) w]) (simp add: fl True)
    then obtain pending where pend: "v2_sess x1 = GlobalSession ?d pending" and ok1: "packs_ok F C (v (st_blobs (v2_st x1))) ?d (st_dedup (v2_st x1))"
      and pl: "\<forall>l \<in> set pending. loc_live F C (v (st_blobs (v2_st x1))) ?d (cl_ChunkHash l) (cl_PackRef l)" by (auto simp: v2_live_def Let_def)
    have ok2: "packs_ok F C (v (st_blobs (v2_st x1))) ?d (st_dedup ?st1)" using commit_live [OF ok1 pl] pend by simp
    have kp: "keeps F C v ?d st (?st1\<lparr>st_dedup := D, st_up := u\<rparr>)" for u
      using packs_ok_index [OF ok2 associate_live [OF as]] k1(1) by (simp add: keeps_def)
    have live: "\<forall>ref \<in> set (v2_chunks x1). ref_live F C (v (st_blobs (v2_st x1))) ?d ref"
      using lv d by (auto simp: v2_live_def Let_def describes_def)
    show ?thesis
    proof (cases e2)
      case (Some er)
      then have q: "q = Inl er" "st' = ?st1\<lparr>st_dedup := D\<rparr>"
        using run gi sp fl as True by (simp_all add: putV2_def NewSession_def Let_def)
      then have "st' = ?st1\<lparr>st_dedup := D, st_up := st_up (v2_st x1)\<rparr>" by (cases "v2_st x1") simp
      then show ?thesis using q(1) kp k1(2) by (simp add: put_outcome_def)
    next
      case None
      then obtain u where "ss_Put (cs_upstream C) key (meta\<lparr>m_Tags := (m_Tags meta)(''chunked_format'' \<mapsto> manifestFormatV2)\<rparr>) ?m (st_up st) = (q, u)"
        "st' = ?st1\<lparr>st_dedup := D, st_up := u\<rparr>"
        using run gi sp fl as True k1(2) by (auto simp: putV2_def NewSession_def Let_def writeManifest_def split: prod.splits)
      then show ?thesis using kp d live by (auto simp: put_outcome_def intro!: exI [of _ ?m])
    qed
  qed
  then show "keeps F C v ?d st st'" "put_outcome F C v key meta r st q st'" by blast+
qed

section \<open>The bytes behind a manifest\<close>

text \<open>The bytes of a chunk, and of a manifest, as they are found by decoding the stored packs.\<close>

definition blob_chunk :: "codec \<Rightarrow> (string \<Rightarrow> bytes option) \<Rightarrow> string \<Rightarrow> chunkRef \<Rightarrow> bytes option" where
  "blob_chunk cz bl d ref = (case bl (packBlobID d (cr_PackHash ref)) of
      None \<Rightarrow> None
    | Some stored \<Rightarrow> (case decompressPackBlob cz stored of
         Inl e \<Rightarrow> None
       | Inr raw \<Rightarrow> Some (take (nat (cr_Size ref)) (drop (nat (cr_Offset ref)) raw))))"

definition blob_bytes :: "codec \<Rightarrow> (string \<Rightarrow> bytes option) \<Rightarrow> chunkManifest \<Rightarrow> bytes option" where
  "blob_bytes cz bl m = map_option concat (those (map (blob_chunk cz bl (cm_Tenant m)) (cm_Chunks m)))"

definition decodes :: "codec \<Rightarrow> pack_form" where
  "decodes cz stored raw \<longleftrightarrow> decompressPackBlob cz stored = Inr raw"

text \<open>Every configuration stores packs of at most a chunk of a file so that they decode.\<close>

lemma stores_decodes:
  assumes "codec_ok (cs_codec C)" and "L \<le> 2 ^ 26"
  shows "stores (decodes (cs_codec C)) C algo L"
proof -
  have "decodes (cs_codec C) stored raw"
    if ne: "raw \<noteq> []" and len: "length raw \<le> L" "length spans \<le> L" and st: "storePackBlob C raw spans algo = Inr stored" for raw spans stored
  proof (cases "algo = CompressNone \<or> cs_packCompression C = PackCompressWholePack")
    case True
    then have c: "compressPackBlob (cs_codec C) raw algo = Inr stored" using st by (simp add: storePackBlob_def)
    then have "algo \<in> {CompressNone, CompressGzip, CompressZstd}"
      by (auto simp: compressPackBlob_def Let_def compressor_def split: if_splits option.splits CompressionAlgo.splits)
    then show ?thesis using decompress_compressPackBlob [OF assms(1)] c by (auto simp: decodes_def)
  next
    case False
    then have c: "compressPackBlobChunked (cs_codec C) raw spans algo = Inr stored" using st by (simp add: storePackBlob_def)
    have n: "int (length raw) \<le> 2 ^ 26" "int (length spans) \<le> 2 ^ 26" using len assms(2) by simp_all
    have "decompressPackBlob (cs_codec C) stored = Inr raw"
    proof (cases "algo \<in> {CompressGzip, CompressZstd}")
      case True
      show ?thesis by (rule decompress_compressChunked [OF assms(1) c True]) (use n in \<open>simp_all add: packChunkEntryLen_def\<close>)
    next
      case False
      then have no: "compressChunkBody cz x algo = None" for cz x
        using \<open>\<not> (algo = CompressNone \<or> _)\<close> by (auto simp: compressChunkBody_def compressor_def split: CompressionAlgo.splits)
      show ?thesis using c \<open>\<not> (algo = CompressNone \<or> _)\<close> no ne
        by (cases spans) (auto simp: compressPackBlobChunked_def validatePackSpans_def split: if_splits option.splits)
    qed
    then show ?thesis by (simp add: decodes_def)
  qed
  then show ?thesis unfolding stores_def by blast
qed

lemma those_map: "\<forall>x \<in> set xs. f x = Some (g x) \<Longrightarrow> those (map f xs) = Some (map g xs)"
  by (induction xs) simp_all

lemma held_bytes:
  assumes sha: "sha_ok (cs_sha C)" and d: "describes C m data"
    and live: "\<forall>ref \<in> set (cm_Chunks m). ref_live (decodes (cs_codec C)) C bl (cm_Tenant m) ref"
  shows "blob_bytes (cs_codec C) bl m = Some data"
proof -
  have "\<exists>c. blob_chunk (cs_codec C) bl (cm_Tenant m) ref = Some c \<and> hexsha C c = cr_Hash ref" if "ref \<in> set (cm_Chunks m)" for ref
    using live that by (auto simp: ref_live_def loc_live_def decodes_def slice_is_def blob_chunk_def)
  then obtain g where g: "\<forall>ref \<in> set (cm_Chunks m). blob_chunk (cs_codec C) bl (cm_Tenant m) ref = Some (g ref) \<and> hexsha C (g ref) = cr_Hash ref" by metis
  then have "those (map (blob_chunk (cs_codec C) bl (cm_Tenant m)) (cm_Chunks m)) = Some (map g (cm_Chunks m))" by (intro those_map) blast
  then have "blob_bytes (cs_codec C) bl m = Some (concat (map g (cm_Chunks m)))" by (simp add: blob_bytes_def)
  moreover have "map (hexsha C) (map g (cm_Chunks m)) = map cr_Hash (cm_Chunks m)" using g by simp
  ultimately show ?thesis using d map_hexsha_eq [OF sha] by (metis describes_def)
qed

end
