(* ===== verification/Cas_Held.thy ===== *)
theory Cas_Held
  imports Cas_Store Chunked_Held
begin

text \<open>
  The slice store as a store of bytes: what a slice is, read off the manifest and the packs that are stored, and that the
  contract of the data path holds for it.
\<close>

section \<open>Slices whose packs are stored\<close>

lemma slice_domain [simp]: "domainFor C (sliceKey i) = cs_dedupDomain C"
  by (simp add: domainFor_def sliceKey_def)

definition slices_live ::
  "pack_form \<Rightarrow> (chunkManifest local_state, 'b, 's) ChunkedStore \<Rightarrow> ('b \<Rightarrow> string \<Rightarrow> bytes option) \<Rightarrow> (chunkManifest local_state, 'b) cs_state \<Rightarrow> bool" where
  "slices_live F C v st \<longleftrightarrow> packs_ok F C (v (st_blobs st)) (cs_dedupDomain C) (st_dedup st) \<and>
     (\<forall>i m. local_latest (st_up st) (sliceKey i) = Some m \<longrightarrow> cm_Format m = manifestFormatV2 \<and> cm_Tenant m = cs_dedupDomain C \<and>
        (\<forall>ref \<in> set (cm_Chunks m). ref_live F C (v (st_blobs st)) (cs_dedupDomain C) ref))"

lemma slices_live_write:
  assumes lv: "slices_live F C v st" and inv: "cas_inv C st" and gi: "cs_index C = GlobalIndex" and so: "storage_ok (cs_chunks C) v"
    and al: "stores F C (codecFor C (metaForClass cl)) (length data)" and fr: "cas_fresh st i" and run: "CasStore_Write C i data cl st = (ok, st')"
  shows "slices_live F C v st'" and "keeps F C v (cs_dedupDomain C) st st'"
proof -
  let ?d = "cs_dedupDomain C"
  from inv obtain blen where U: "cs_upstream C = LocalStore blen" and pk: "cs_packTargetBytes C \<noteq> packingDisabled" and sha: "sha_ok (cs_sha C)"
    by (auto simp: cas_inv_def)
  obtain q where p: "putV2 C (sliceKey i) (metaForClass cl) (bytesReader data) st = (q, st')"
    using run pk by (auto simp: CasStore_Write_def ChunkedStore_Put_def split: prod.splits sum.splits)
  have ok: "packs_ok F C (v (st_blobs st)) (domainFor C (sliceKey i)) (st_dedup st)" using lv by (simp add: slices_live_def)
  have al': "stores F C (codecFor C (metaForClass cl)) (length (reader_bytes (bytesReader data)))" using al by simp
  note pl = putV2_live [OF p so sha gi al' ok]
  show "keeps F C v ?d st st'" using pl(1) by simp
  then have mono: "\<forall>i s. v (st_blobs st) i = Some s \<longrightarrow> v (st_blobs st') i = Some s" by (simp add: keeps_def)
  have "cm_Format m = manifestFormatV2 \<and> cm_Tenant m = ?d \<and> (\<forall>ref \<in> set (cm_Chunks m). ref_live F C (v (st_blobs st')) ?d ref)"
    if lt: "local_latest (st_up st') (sliceKey j) = Some m" for j m
  proof (cases "local_latest (st_up st) (sliceKey j) = Some m")
    case True
    then show ?thesis using lv ref_live_mono [OF mono] unfolding slices_live_def by blast
  next
    case False
    then obtain m' where m': "cm_Format m' = manifestFormatV2" "cm_Tenant m' = ?d" "\<forall>ref \<in> set (cm_Chunks m'). ref_live F C (v (st_blobs st')) ?d ref"
      and put: "ss_Put (LocalStore blen) (sliceKey i) ((metaForClass cl)\<lparr>m_Tags := (m_Tags (metaForClass cl))(''chunked_format'' \<mapsto> manifestFormatV2)\<rparr>)
        m' (st_up st) = (q, st_up st')" using pl(2) lt U by (auto simp: put_outcome_def)
    have ij: "j = i" using local_snaps.put_frame [OF TrueI sliceKey_encoded put] False lt sliceKey_eq sliceKey_encoded by metis
    have un: "local_unused (st_up st) (sliceKey i)" using fr by (simp add: cas_fresh_def)
    have "m = m'"
    proof (cases q)
      case (Inl e)
      then show ?thesis using local_snaps.put_err [OF TrueI sliceKey_encoded un put [unfolded Inl]] lt ij by simp
    next
      case (Inr md)
      then show ?thesis using local_snaps.put_ok [OF TrueI sliceKey_encoded un put [unfolded Inr]] lt ij by simp
    qed
    then show ?thesis using m' by simp
  qed
  then show "slices_live F C v st'" using pl(1) by (simp add: slices_live_def keeps_def)
qed

lemma storage_keeps: "storage_ok (cs_chunks C) v \<Longrightarrow> gets_keep C v"
  unfolding gets_keep_def using storage_get(1) [of "cs_chunks C" v] by (metis prod.collapse)

lemma slices_live_read:
  assumes lv: "slices_live F C v st" and inv: "cas_inv C st" and so: "storage_ok (cs_chunks C) v" and run: "CasStore_Read C i st = (q, st')"
  shows "slices_live F C v st'" and "v (st_blobs st') = v (st_blobs st)" and "\<And>j. local_latest (st_up st') (sliceKey j) = local_latest (st_up st) (sliceKey j)"
proof -
  obtain blen where U: "cs_upstream C = LocalStore blen" using inv by (auto simp: cas_inv_def)
  obtain g u where g: "ss_GetLatest (LocalStore blen) (sliceKey i) (st_up st) = (g, u)" by (rule prod.exhaust)
  have "read_only v (st\<lparr>st_up := u\<rparr>) st'"
    using run U g ReadAll_only [OF storage_keeps [OF so], of "[]" "(_, st\<lparr>st_up := u\<rparr>)"]
    by (auto simp: CasStore_Read_def ChunkedStore_GetLatest_def split: sum.splits prod.splits)
  then have s: "st_up st' = u" "st_dedup st' = st_dedup st" "v (st_blobs st') = v (st_blobs st)" by (simp_all add: read_only_def)
  then show lt: "local_latest (st_up st') (sliceKey j) = local_latest (st_up st) (sliceKey j)" for j
    using local_snaps.latest_frame [OF TrueI sliceKey_encoded g] by simp
  show "v (st_blobs st') = v (st_blobs st)" by (rule s(3))
  show "slices_live F C v st'" using lv s lt by (simp add: slices_live_def)
qed

section \<open>The bytes of a slice\<close>

text \<open>The bytes of a slice: its latest manifest, with every chunk cut out of the decoded pack it refers to.\<close>

definition stored_view ::
  "(chunkManifest local_state, 'b, 's) ChunkedStore \<Rightarrow> ('b \<Rightarrow> string \<Rightarrow> bytes option) \<Rightarrow> (chunkManifest local_state, 'b) cs_state \<Rightarrow> u64 \<Rightarrow> bytes option" where
  "stored_view C v st i = (case local_latest (st_up st) (sliceKey i) of
      None \<Rightarrow> None
    | Some m \<Rightarrow> blob_bytes (cs_codec C) (v (st_blobs st)) m)"

definition cas_held ::
  "(chunkManifest local_state, 'b, 's) ChunkedStore \<Rightarrow> ('b \<Rightarrow> string \<Rightarrow> bytes option) \<Rightarrow> (chunkManifest local_state, 'b) cs_state \<Rightarrow> bool" where
  "cas_held C v st \<longleftrightarrow> cas_inv C st \<and> cs_index C = GlobalIndex \<and> storage_ok (cs_chunks C) v \<and> codec_ok (cs_codec C) \<and>
     slices_live (decodes (cs_codec C)) C v st"

lemma stored_view_eq:
  assumes "cas_held C v st"
  shows "stored_view C v st = cas_view C st"
proof
  fix i
  show "stored_view C v st i = cas_view C st i"
  proof (cases "local_latest (st_up st) (sliceKey i)")
    case None
    then show ?thesis by (simp add: stored_view_def cas_view_def)
  next
    case (Some m)
    have inv: "cas_inv C st" and lv: "slices_live (decodes (cs_codec C)) C v st" using assms by (simp_all add: cas_held_def)
    from inv Some obtain data where d: "describes C m data" and sha: "sha_ok (cs_sha C)" by (auto simp: cas_inv_def)
    have "\<forall>ref \<in> set (cm_Chunks m). ref_live (decodes (cs_codec C)) C (v (st_blobs st)) (cm_Tenant m) ref"
      using lv Some unfolding slices_live_def by metis
    then show ?thesis using held_bytes [OF sha d] the_described [OF sha d] Some by (simp add: stored_view_def cas_view_def)
  qed
qed

lemma cas_held_write:
  assumes h: "cas_held C v st" and fr: "cas_fresh st i" and n: "length data \<le> 2 ^ 26" and run: "CasStore_Write C i data cl st = (ok, st')"
  shows "cas_held C v st'"
proof -
  have inv: "cas_inv C st" and gi: "cs_index C = GlobalIndex" and so: "storage_ok (cs_chunks C) v" and cz: "codec_ok (cs_codec C)"
    and lv: "slices_live (decodes (cs_codec C)) C v st" using h by (simp_all add: cas_held_def)
  show ?thesis
    using slices_live_write(1) [OF lv inv gi so stores_decodes [OF cz n] fr run] cas_write(1) [OF inv fr run] gi so cz
    by (simp add: cas_held_def)
qed

lemma cas_held_read:
  assumes h: "cas_held C v st" and run: "CasStore_Read C i st = (q, st')"
  shows "cas_held C v st'"
proof -
  have inv: "cas_inv C st" and so: "storage_ok (cs_chunks C) v" and lv: "slices_live (decodes (cs_codec C)) C v st"
    using h by (simp_all add: cas_held_def)
  show ?thesis using slices_live_read(1) [OF lv inv so run] cas_read(1) [OF inv run] h by (simp add: cas_held_def)
qed

lemma CasStore_ReadAt_read: "st_ReadAt (CasStore C) i off n c = (r, c') \<Longrightarrow> \<exists>q. CasStore_Read C i c = (q, c')"
  by (auto simp: CasStore_def CasStore_ReadAt_def split: prod.splits option.splits if_splits)

interpretation held: slice_store "CasStore C" "cas_held C v" "stored_view C v" cas_fresh
  for C :: "(chunkManifest local_state, 'b, 's) ChunkedStore" and v :: "'b \<Rightarrow> string \<Rightarrow> bytes option"
proof (unfold_locales, goal_cases)
  case (1 c i off n bs c')
  then have "cas_inv C c" by (simp add: cas_held_def)
  from cas.readat_ok [OF this 1(2,3)] show ?case by (simp add: stored_view_eq [OF 1(1)])
next
  case (2 c i off n r c')
  then have inv: "cas_inv C c" by (simp add: cas_held_def)
  obtain q where "CasStore_Read C i c = (q, c')" using CasStore_ReadAt_read [OF 2(2)] by blast
  then have "cas_held C v c'" by (rule cas_held_read [OF 2(1)])
  then show ?case using cas.readat_frame [OF inv 2(2,3)] stored_view_eq 2(1) by metis
next
  case (3 c i data cl c')
  then have inv: "cas_inv C c" and run: "CasStore_Write C i data cl c = (True, c')" by (simp_all add: cas_held_def CasStore_def)
  show ?case using stored_view_eq [OF cas_held_write [OF 3(1,2,3) run]] cas_write(3) [OF inv 3(2) run TrueI] by simp
next
  case (4 c i data cl ok c')
  then have inv: "cas_inv C c" and run: "CasStore_Write C i data cl c = (ok, c')" by (simp_all add: cas_held_def CasStore_def)
  note h = cas_held_write [OF 4(1,2,3) run]
  show ?case using h stored_view_eq [OF h] stored_view_eq [OF 4(1)] cas_write(2) [OF inv 4(2) run] by simp
next
  case (5 c i off n r c')
  then have "cas_inv C c" by (simp add: cas_held_def)
  then show ?case by (rule cas.readat_fresh [OF _ 5(2,3)])
qed

end
