(* ===== verification/Cas_Demo.thy ===== *)
theory Cas_Demo
  imports Cas_Held
begin

text \<open>
  A concrete store to run the model on: manifests in a local snapshot store, packs in memory, a splitter that does not
  cut, the identity as codec, and a digest that is the data itself.
\<close>

definition demo_store :: "PackCompressionMode \<Rightarrow> CompressionAlgo \<Rightarrow>
    (chunkManifest local_state, string \<Rightarrow> bytes option, unit) ChunkedStore" where
  "demo_store mode algo = \<lparr>cs_upstream = LocalStore (\<lambda>_. 0), cs_chunks = mem_storage,
     cs_splitter = \<lparr>sp_new = (), sp_next = (\<lambda>_ s. (None, s))\<rparr>, cs_packTargetBytes = 100, cs_dedupDomain = [],
     cs_index = GlobalIndex, cs_policy = (\<lambda>_. algo), cs_packCompression = mode,
     cs_codec = \<lparr>cz_enc = (\<lambda>_ x. Some x), cz_dec = (\<lambda>_ y. Some (y, True))\<rparr>, cs_sha = (\<lambda>x. 0 # x)\<rparr>"

definition demo_state :: "(chunkManifest local_state, string \<Rightarrow> bytes option) cs_state" where
  "demo_state = \<lparr>st_up = \<lparr>ls_dirs = [], ls_clock = (\<lambda>_. ([], 0, [])), ls_tick = 0, ls_now = 0, ls_os = []\<rparr>,
     st_blobs = (\<lambda>_. None), st_dedup = NewMemoryDedupStore, st_framing = []\<rparr>"

abbreviation plain_demo :: "(chunkManifest local_state, string \<Rightarrow> bytes option, unit) ChunkedStore" where
  "plain_demo \<equiv> demo_store PackCompressWholePack CompressNone"

text \<open>Equations that evaluate without large numbers.\<close>

lemma bytesReader_short [code]:
  "bytesReader data = (if length data \<le> 512 then (if data = [] then [] else [(data, None)]) else map (\<lambda>d. (d, None)) (blocks readBufSize data))"
proof -
  have "blocks readBufSize data = [data]" if "length data \<le> 512" "data \<noteq> []"
    using that by (simp add: blocks.simps [of readBufSize data] readBufSize_def) (simp add: blocks.simps)
  then show ?thesis by (auto simp: bytesReader_def blocks.simps [of _ "[]"])
qed

lemma rfc3339_frac_zero [code]:
  "rfc3339_frac ns = (if ns = 0 then [] else let ds = rev (dropWhile (\<lambda>c. c = CHR ''0'') (rev (digits_be 9 ns))) in if ds = [] then [] else CHR ''.'' # ds)"
proof -
  have "digits_be 9 0 = replicate 9 (CHR ''0'')" by (simp add: digits_be_def hex_digit_def map_replicate_const)
  then show ?thesis by (simp add: rfc3339_frac_def)
qed

lemma demo_sha: "sha_ok (cs_sha (demo_store mode algo))"
  by (simp add: sha_ok_def demo_store_def inj_def)

lemma demo_inv: "cas_inv (demo_store mode algo) demo_state" and demo_fresh: "cas_fresh demo_state i"
  using demo_sha
  by (auto simp: cas_inv_def cas_fresh_def local_unused_def local_latest_def version_dirs_def demo_state_def packingDisabled_def)
    (auto simp: demo_store_def)

lemma demo_latest: "local_latest (st_up demo_state) k = None"
  by (simp add: local_latest_def version_dirs_def demo_state_def)

lemma demo_slices: "slices_live F (demo_store mode algo) id demo_state"
  by (simp add: slices_live_def packs_ok_def demo_latest) (simp add: demo_state_def NewMemoryDedupStore_def)

lemma demo_held: "cas_held (demo_store mode algo) id demo_state"
proof -
  have "cs_index (demo_store mode algo) = GlobalIndex" "codec_ok (cs_codec (demo_store mode algo))" "storage_ok (cs_chunks (demo_store mode algo)) id"
    using mem_storage_ok by (simp_all add: demo_store_def codec_ok_def)
  then show ?thesis using demo_inv demo_slices by (simp add: cas_held_def)
qed

lemma demo_write:
  "fst (CasStore_Write plain_demo 5 [1, 2, 3] ClassDefault demo_state) = True"
  by code_simp

text \<open>
  A pack framed per chunk is kept under the hash of its content, whatever its chunk boundaries: a slice written as one
  chunk, and then the same bytes written as two slices of one batch, share the pack, and the batch, though
  acknowledged, cannot be read.
\<close>

lemma per_chunk_batch_unreadable:
  "let C = demo_store PackCompressPerChunk CompressGzip;
       st1 = snd (CasStore_Write C 1 [1, 2, 3, 4] ClassDefault demo_state);
       (ok, st2) = WriteBatch C [\<lparr>bt_ID = 2, bt_Data = [1, 2], bt_Class = ClassDefault\<rparr>,
         \<lparr>bt_ID = 3, bt_Data = [3, 4], bt_Class = ClassDefault\<rparr>] st1
   in ok \<and> fst (CasStore_Read C 1 st2) = Some [1, 2, 3, 4] \<and> fst (CasStore_Read C 2 st2) = None \<and> fst (CasStore_Read C 3 st2) = None"
  by code_simp

end
