(* ===== verification/Cas_Files.thy ===== *)
theory Cas_Files
  imports Cas_Demo
begin

text \<open>
  The data path over the content-addressed slice store: what reading, writing, truncating and hashing a file do to
  its bytes.
\<close>

section \<open>Files over the store\<close>

abbreviation contents :: "(chunkManifest local_state, 'b, 's) ChunkedStore \<Rightarrow> (chunkManifest local_state, 'b) cs_state Files \<Rightarrow> Ino \<Rightarrow> bytes" where
  "contents C f i \<equiv> file_data (cas_view C (io_chunks f)) (s_db (io_sys f)) i"

text \<open>
  The invariant of the data path for one file: the store keeps its own, ids that were not handed out are free in it,
  the slice rows are well formed, the length is within the range of chunk indices, and nothing shows behind the end.
\<close>

definition files_ok :: "(chunkManifest local_state, 'b, 's) ChunkedStore \<Rightarrow> Ino \<Rightarrow> (chunkManifest local_state, 'b) cs_state Files \<Rightarrow> bool" where
  "files_ok C i f \<longleftrightarrow> io_ok (cas_inv C) cas_fresh i f \<and> zero_tail (cas_view C (io_chunks f)) (s_db (io_sys f)) i"

text \<open>
  The bytes of a file as the stored packs hold them, and the invariant with the packs in place; \<open>contents\<close> above are the
  bytes that the manifests name, whether or not the packs are intact.
\<close>

abbreviation stored_contents ::
  "(chunkManifest local_state, 'b, 's) ChunkedStore \<Rightarrow> ('b \<Rightarrow> string \<Rightarrow> bytes option) \<Rightarrow> (chunkManifest local_state, 'b) cs_state Files \<Rightarrow> Ino \<Rightarrow> bytes" where
  "stored_contents C v f i \<equiv> file_data (stored_view C v (io_chunks f)) (s_db (io_sys f)) i"

definition files_held ::
  "(chunkManifest local_state, 'b, 's) ChunkedStore \<Rightarrow> ('b \<Rightarrow> string \<Rightarrow> bytes option) \<Rightarrow> Ino \<Rightarrow> (chunkManifest local_state, 'b) cs_state Files \<Rightarrow> bool" where
  "files_held C v i f \<longleftrightarrow> io_ok (cas_held C v) cas_fresh i f \<and> zero_tail (stored_view C v (io_chunks f)) (s_db (io_sys f)) i"

definition demo_files :: "(chunkManifest local_state, string \<Rightarrow> bytes option) cs_state Files" where
  "demo_files = \<lparr>io_sys = snd (create 1 ''f'' TypeFile 420 0 '''' OpMknod demo_root
      \<lparr>s_db = fresh_db, s_eng = Open_engine 0 0, s_faults = [], s_now = 0\<rparr>),
     io_chunks = demo_state, io_wal = None, io_disk = [], io_os = []\<rparr>"

lemma demo_files_rows:
  "t_slice_ref (s_db (io_sys demo_files)) = []" "file_len (s_db (io_sys demo_files)) 2 = 0"
  "counter_value ''nextslice'' (s_db (io_sys demo_files)) = Some 1"
  "e_sliceNext (s_eng (io_sys demo_files)) = 0" "e_sliceEnd (s_eng (io_sys demo_files)) = 0"
  by code_simp+

lemma demo_files_chunks: "io_chunks demo_files = demo_state"
  by (simp add: demo_files_def)

lemma demo_files_write: "fst (Files_Write (CasStore plain_demo) 2 0 [1, 2, 3] ClassDefault demo_files) = (3, None)"
  by code_simp

lemma demo_files_ok: "files_ok (demo_store mode algo) 2 demo_files" and demo_files_empty: "contents (demo_store mode algo) demo_files 2 = []"
  and demo_files_held: "files_held (demo_store mode algo) id 2 demo_files"
proof -
  have "slices_ok (s_db (io_sys demo_files))" by (simp add: slices_ok_def demo_files_rows(1))
  moreover have "ids_ok (io_sys demo_files)" using demo_files_rows by (simp add: ids_ok_def batch_ok_def)
  ultimately have "io_ok P cas_fresh 2 demo_files" if "P demo_state" for P
    using that demo_fresh by (simp add: io_ok_def demo_files_chunks demo_files_rows(2))
  moreover have "zero_tail w (s_db (io_sys demo_files)) 2" for w
    using byte_at_cong [of "s_db (io_sys demo_files)" empty_db] demo_files_rows(1)
    by (simp add: zero_tail_def byte_at_def file_src_def)
  ultimately show "files_ok (demo_store mode algo) 2 demo_files" "files_held (demo_store mode algo) id 2 demo_files"
    using demo_inv demo_held by (simp_all add: files_ok_def files_held_def)
  show "contents (demo_store mode algo) demo_files 2 = []" by (simp add: file_data_def demo_files_rows(2))
qed

definition demo_written :: "(chunkManifest local_state, string \<Rightarrow> bytes option) cs_state Files" where
  "demo_written = snd (Files_Write (CasStore plain_demo) 2 0 [1, 2, 3] ClassDefault demo_files)"

lemma demo_write_run: "Files_Write (CasStore plain_demo) 2 0 [1, 2, 3] ClassDefault demo_files = ((3, None), demo_written)"
  using demo_files_write unfolding demo_written_def by (metis prod.collapse)

lemma demo_written_ok: "files_ok plain_demo 2 demo_written" and demo_written_contents: "contents plain_demo demo_written 2 = [1, 2, 3]"
proof -
  have "io_ok (cas_inv plain_demo) cas_fresh 2 demo_files" "zero_tail (cas_view plain_demo (io_chunks demo_files)) (s_db (io_sys demo_files)) 2"
    using demo_files_ok by (simp_all add: files_ok_def)
  from cas.Files_Write_refines [OF this _ _ demo_write_run]
  show "files_ok plain_demo 2 demo_written" "contents plain_demo demo_written 2 = [1, 2, 3]"
    by (simp_all add: files_ok_def demo_files_empty overwrite_def)
qed

declare Read_loop.simps [code] Hash_loop.simps [code]

lemma demo_written_read: "map_option fst (Files_Read (CasStore plain_demo) 2 1 2 demo_written) = Some (Inr [2, 3])"
  unfolding demo_written_def by code_simp

section \<open>Properties\<close>

text \<open>C20: Writing to a file puts its bytes into the stored packs: over the content-addressed store with the shared dedup index,
  in every compression configuration, a write that reports \<open>n\<close> bytes, with an error or without, leaves the file, as decoding the
  stored packs gives it, with its first \<open>n\<close> bytes put at the offset (and zeros in a gap before it), without an error all of
  them, every other file as it was, and the data path in order for the next call; it never panics.\<close>

theorem write_overwrites:
  assumes "files_held C v i f" and "0 \<le> off" and "off + int (length data) \<le> 2 ^ 57"
    and "Files_Write (CasStore C) i off data cl f = ((n, r), f')"
  shows "files_held C v i f' \<and> r \<noteq> Some ErrPanic \<and> n \<le> length data \<and> (r = None \<longrightarrow> n = length data) \<and>
    stored_contents C v f' i = overwrite (stored_contents C v f i) (nat off) (take n data) \<and>
    (\<forall>j. j \<noteq> i \<longrightarrow> stored_contents C v f' j = stored_contents C v f j)"
  using held.Files_Write_refines [OF _ _ assms(2-4)] assms(1) by (auto simp: files_held_def)

theorem write_overwrites_witness: "stored_contents plain_demo id demo_written 2 = [1, 2, 3]"
proof -
  have "stored_contents plain_demo id demo_files 2 = []" by (simp add: file_data_def demo_files_rows(2))
  then show ?thesis using write_overwrites [OF demo_files_held _ _ demo_write_run] by (simp add: overwrite_def)
qed

text \<open>C22: Reading a file ends, and what it returns without an error are the bytes of the file in the window that was asked for,
  cut at the end of the file; the file and the store are as before.\<close>

theorem read_returns_window:
  assumes "files_ok C i f" and "0 \<le> off" and "off + int n < 2 ^ 63"
  shows "\<exists>r f'. Files_Read (CasStore C) i off n f = Some (r, f') \<and> files_ok C i f' \<and> contents C f' = contents C f \<and> r \<noteq> Inl ErrPanic \<and>
    (\<forall>bs. r = Inr bs \<longrightarrow> bs = take n (drop (nat off) (contents C f i)))"
proof -
  have ok: "io_ok (cas_inv C) cas_fresh i f" using assms(1) by (simp add: files_ok_def)
  from cas.Files_Read_data [OF ok assms(2,3)] obtain r f' where run: "Files_Read (CasStore C) i off n f = Some (r, f')" and q: "quiet f f'"
    and fr: "cas_inv C (io_chunks f')" "cas_fresh (io_chunks f') = cas_fresh (io_chunks f)" "cas_view C (io_chunks f') = cas_view C (io_chunks f)"
    and r: "r \<noteq> Inl ErrPanic" "\<forall>bs. r = Inr bs \<longrightarrow> bs = take n (drop (nat off) (contents C f i))" by blast
  have "files_ok C i f'" using cas.io_ok_quiet [OF ok q fr(1,2)] assms(1) q fr(3) by (simp add: files_ok_def quiet_def)
  moreover have "contents C f' = contents C f" using q fr(3) by (simp add: quiet_def)
  ultimately show ?thesis using run r by blast
qed

theorem read_returns_window_witness:
  "map_option fst (Files_Read (CasStore plain_demo) 2 1 2 demo_written) = Some (Inr (take 2 (drop 1 (contents plain_demo demo_written 2))))"
  using read_returns_window [OF demo_written_ok, of 1 2] demo_written_read by fastforce

text \<open>C23: What was written is read: once a write without an error is done, a read of the same range that succeeds returns the
  data.\<close>

theorem write_then_read:
  assumes "files_ok C i f" and "0 \<le> off" and "off + int (length data) \<le> 2 ^ 57"
    and "Files_Write (CasStore C) i off data cl f = ((n, None), f1)" and "Files_Read (CasStore C) i off (length data) f1 = Some (Inr bs, f2)"
  shows "bs = data"
proof -
  have w: "io_ok (cas_inv C) cas_fresh i f1" "n = length data"
    "contents C f1 i = overwrite (contents C f i) (nat off) (take n data)"
    using cas.Files_Write_refines [OF _ _ assms(2-4)] assms(1) by (auto simp: files_ok_def)
  have "bs = take (length data) (drop (nat off) (contents C f1 i))"
    using cas.Files_Read_data [OF w(1) assms(2), of "length data"] assms(3,5) by auto
  then show ?thesis using w by (auto simp: overwrite_def)
qed

theorem write_then_read_witness: "map_option fst (Files_Read (CasStore plain_demo) 2 0 3 demo_written) = Some (Inr [1, 2, 3])"
proof -
  have "map_option (isl \<circ> fst) (Files_Read (CasStore plain_demo) 2 0 3 demo_written) = Some False"
    unfolding demo_written_def by code_simp
  then obtain q f2 where q: "Files_Read (CasStore plain_demo) 2 0 3 demo_written = Some (q, f2)" "\<not> isl q" by auto
  then obtain bs where r: "Files_Read (CasStore plain_demo) 2 0 3 demo_written = Some (Inr bs, f2)" by (cases q) auto
  then have "bs = [1, 2, 3]" using write_then_read [OF demo_files_ok _ _ demo_write_run] by (simp add: numeral_3_eq_3)
  then show ?thesis using r by simp
qed



text \<open>C25: Hashing a file block by block is hashing its bytes: the loop ends, and a digest it returns is the digest of the
  whole contents.\<close>

theorem hash_is_of_contents:
  assumes "files_ok C i f"
  shows "\<exists>r f'. HashFile sha (CasStore C) i f = Some (r, f') \<and> (\<forall>h. r = Inr h \<longrightarrow> h = sha (contents C f i))"
  using cas.HashFile_data [of C i f sha] assms by (auto simp: files_ok_def)

theorem hash_is_of_contents_witness: "map_option fst (HashFile hexenc (CasStore plain_demo) 2 demo_written) = Some (Inr ''010203'')"
proof -
  have "map_option (isl \<circ> fst) (HashFile hexenc (CasStore plain_demo) 2 demo_written) = Some False"
    unfolding demo_written_def by code_simp
  then obtain q f2 where q: "HashFile hexenc (CasStore plain_demo) 2 demo_written = Some (q, f2)" "\<not> isl q" by auto
  then obtain h where h: "HashFile hexenc (CasStore plain_demo) 2 demo_written = Some (Inr h, f2)" by (cases q) auto
  have "hexenc [1, 2, 3] = ''010203''" by code_simp
  then show ?thesis using hash_is_of_contents [OF demo_written_ok, of hexenc] h by (simp add: demo_written_contents)
qed

end
