(* ===== verification/Chunked_Live.thy ===== *)
theory Chunked_Live
  imports Chunked_Held
begin

text \<open>
  What is put can be read back: with packs stored uncompressed or compressed as a whole, a storage that serves the
  blobs it holds, and no reclamation, a put is followed by a successful read of the same bytes.
\<close>

section \<open>Packs that serve their chunks\<close>

text \<open>The stored form of a pack, as the store writes it when packs are not framed per chunk.\<close>

definition pack_of :: "('u, 'b, 's) ChunkedStore \<Rightarrow> bytes \<Rightarrow> bytes \<Rightarrow> CompressionAlgo \<Rightarrow> bool" where
  "pack_of C stored raw algo \<longleftrightarrow> compressPackBlob (cs_codec C) raw algo = Inr stored"

definition plain_pack :: "('u, 'b, 's) ChunkedStore \<Rightarrow> pack_form" where
  "plain_pack C stored raw \<longleftrightarrow> (\<exists>algo. pack_of C stored raw algo)"

text \<open>The state of the store: packs are what their names say, and the index and the framing cache are right.\<close>

definition framing_ok :: "('u, 'b, 's) ChunkedStore \<Rightarrow> (string \<Rightarrow> bytes option) \<Rightarrow> string \<Rightarrow> (string \<times> packFraming) list \<Rightarrow> bool" where
  "framing_ok C bl d fs \<longleftrightarrow> (\<forall>h fr. map_of fs (packBlobID d h) = Some fr \<longrightarrow>
     (\<exists>stored raw algo. bl (packBlobID d h) = Some stored \<and> pack_of C stored raw algo \<and> fr = plain_framing algo (int packHeaderLen)))"

definition store_ok :: "('u, 'b, 's) ChunkedStore \<Rightarrow> (string \<Rightarrow> bytes option) \<Rightarrow> string \<Rightarrow> ('u, 'b) cs_state \<Rightarrow> bool" where
  "store_ok C bl d st \<longleftrightarrow> packs_ok (plain_pack C) C bl d (st_dedup st) \<and> framing_ok C bl d (st_framing st)"

definition plain_config :: "('u, 'b, 's) ChunkedStore \<Rightarrow> bool" where
  "plain_config C \<longleftrightarrow> cs_packTargetBytes C \<noteq> packingDisabled \<and>
     (cs_packCompression C = PackCompressWholePack \<or> (\<forall>t. cs_policy C t = CompressNone))"

lemma pack_of_shape:
  assumes "pack_of C stored raw algo"
  shows "\<exists>body. stored = packMagic @ [packCodecByte algo] @ body \<and> (algo = CompressNone \<longrightarrow> body = raw) \<and>
    algo \<in> {CompressNone, CompressGzip, CompressZstd}"
  using assms by (auto simp: pack_of_def compressPackBlob_def Let_def compressor_def split: if_splits option.splits CompressionAlgo.splits)

lemma pack_of_unpack:
  assumes "codec_ok (cs_codec C)" and "pack_of C stored raw algo"
  shows "decompressPackBlob (cs_codec C) stored = Inr raw"
  using decompress_compressPackBlob [OF assms(1)] pack_of_shape [OF assms(2)] assms(2) by (auto simp: pack_of_def)

lemma pack_of_unique:
  assumes "codec_ok (cs_codec C)" "pack_of C stored raw algo" "pack_of C stored raw' algo'"
  shows "raw' = raw" "algo' = algo"
proof -
  show "raw' = raw" using pack_of_unpack [OF assms(1,2)] pack_of_unpack [OF assms(1,3)] by simp
  from pack_of_shape [OF assms(2)] pack_of_shape [OF assms(3)]
  have "packCodecByte algo = packCodecByte algo'" "algo \<in> {CompressNone, CompressGzip, CompressZstd}" "algo' \<in> {CompressNone, CompressGzip, CompressZstd}" by auto
  then show "algo' = algo" by (auto simp: packCodecByte_def packCodecNone_def packCodecGzip_def packCodecZstd_def)
qed

text \<open>The probe of a header finds the framing.\<close>

lemma detect_pack_of:
  assumes "pack_of C stored raw algo" and "n \<in> {packHeaderLen, packChunkedHeaderLen}" and "n \<le> length stored"
  shows "detectPackFraming (take n stored) = Inr (plain_framing algo (int packHeaderLen))"
proof -
  from pack_of_shape [OF assms(1)] obtain body where st: "stored = packMagic @ [packCodecByte algo] @ body"
    and a: "algo \<in> {CompressNone, CompressGzip, CompressZstd}" by auto
  have tk: "take n stored = packMagic @ packCodecByte algo # take (n - packHeaderLen) body"
    using assms(2) by (auto simp: st packHeaderLen_def packChunkedHeaderLen_def packMagic_def)
  show ?thesis
    unfolding tk detectPackFraming_def using packAlgo_byte [OF a] codec_not_chunked by (simp add: has_header_def packHeaderLen_def)
qed

definition live_config :: "('u, 'b, 's) ChunkedStore \<Rightarrow> ('b \<Rightarrow> string \<Rightarrow> bytes option) \<Rightarrow> bool" where
  "live_config C v \<longleftrightarrow> storage_ok (cs_chunks C) v \<and> reads_ok (cs_chunks C) v \<and> codec_ok (cs_codec C) \<and> sha_ok (cs_sha C) \<and> plain_config C"

section \<open>Reads succeed\<close>

definition same_st :: "('b \<Rightarrow> string \<Rightarrow> bytes option) \<Rightarrow> ('u, 'b) cs_state \<Rightarrow> ('u, 'b) cs_state \<Rightarrow> bool" where
  "same_st v st st' \<longleftrightarrow> v (st_blobs st') = v (st_blobs st) \<and> st_up st' = st_up st \<and> st_dedup st' = st_dedup st \<and> st_framing st' = st_framing st"

lemma get_blob_serves:
  assumes "live_config C v" and "v (st_blobs st) i = Some data" and "0 \<le> off" and "off \<le> int (length data)" and "off + n \<le> int (length data)"
  shows "\<exists>st'. get_blob C i off n st = (Inr (if n < 0 then drop (nat off) data else take (nat n) (drop (nat off) data)), st') \<and> same_st v st st'"
proof -
  obtain bs b' where g: "bs_GetBlob (cs_chunks C) i off n (st_blobs st) = (Inr bs, b')"
    using assms unfolding live_config_def reads_ok_def by blast
  have ok: "storage_ok (cs_chunks C) v" using assms(1) by (simp add: live_config_def)
  from storage_get(2) [OF ok g refl assms(3)] assms(2) storage_get(1) [OF ok g] g show ?thesis
    by (auto simp: get_blob_def same_st_def split: if_splits)
qed

lemma get_blob_short:
  assumes "live_config C v" and "v (st_blobs st) i = Some data" and "0 \<le> off" and "0 \<le> n" and "int (length data) < off + n" and "0 < n"
  shows "\<exists>st'. get_blob C i off n st = (Inl ErrOther, st') \<and> same_st v st st'"
proof -
  have ok: "storage_ok (cs_chunks C) v" using assms(1) by (simp add: live_config_def)
  obtain r b' where g: "bs_GetBlob (cs_chunks C) i off n (st_blobs st) = (r, b')" by (rule prod.exhaust)
  have "r \<noteq> Inr bs" for bs
  proof
    assume "r = Inr bs"
    from storage_get(2) [OF ok g this assms(3)] assms(2,4) have "bs = take (nat n) (drop (nat off) data)" "int (length bs) = n" by auto
    then have "n \<le> int (length data - nat off)" by simp
    then show False using assms(3,5,6) by linarith
  qed
  moreover have "r \<noteq> Inl ErrBlobNotFound" using storage_get(3) [OF ok g] assms(2) by auto
  ultimately obtain e where "r = Inl e" "e \<noteq> ErrBlobNotFound" by (cases r) auto
  then show ?thesis using g storage_get(1) [OF ok g] by (auto simp: get_blob_def same_st_def)
qed

lemma probe_finds:
  assumes "live_config C v" and "v (st_blobs st) pid = Some stored" and p: "pack_of C stored raw algo"
  shows "\<exists>st'. probePackFraming C pid st = (Inr (plain_framing algo (int packHeaderLen)), st') \<and> same_st v st st'"
proof -
  have len: "packHeaderLen \<le> length stored" using pack_of_shape [OF p] by (auto simp: packHeaderLen_def)
  have na: "algo \<noteq> packAlgoChunked" using pack_of_shape [OF p] by auto
  have "\<exists>n st'. n \<in> {packHeaderLen, packChunkedHeaderLen} \<and> n \<le> length stored \<and> same_st v st st' \<and>
     (case get_blob C pid 0 (int packChunkedHeaderLen) st of
        (Inl e, st1) \<Rightarrow> if e = ErrMissingBlob then (Inl e, st1) else get_blob C pid 0 (int packHeaderLen) st1
      | (Inr bs, st1) \<Rightarrow> (Inr bs, st1)) = (Inr (take n stored), st')"
  proof (cases "packChunkedHeaderLen \<le> length stored")
    case True
    then show ?thesis using get_blob_serves [OF assms(1,2), of 0 "int packChunkedHeaderLen"] by fastforce
  next
    case False
    have "0 < int packChunkedHeaderLen" by (simp add: packChunkedHeaderLen_def)
    then obtain st1 where g1: "get_blob C pid 0 (int packChunkedHeaderLen) st = (Inl ErrOther, st1)" "same_st v st st1"
      using get_blob_short [OF assms(1,2), of 0 "int packChunkedHeaderLen"] False by auto
    have "v (st_blobs st1) pid = Some stored" using g1(2) assms(2) by (simp add: same_st_def)
    from get_blob_serves [OF assms(1) this, of 0 "int packHeaderLen"] len
    obtain st2 where "get_blob C pid 0 (int packHeaderLen) st1 = (Inr (take packHeaderLen stored), st2)" "same_st v st1 st2" by auto
    then show ?thesis using g1 len by (intro exI [of _ packHeaderLen] exI [of _ st2]) (auto simp: same_st_def)
  qed
  then obtain n st' where n: "n \<in> {packHeaderLen, packChunkedHeaderLen}" "n \<le> length stored" "same_st v st st'"
    "(case get_blob C pid 0 (int packChunkedHeaderLen) st of
        (Inl e, st1) \<Rightarrow> if e = ErrMissingBlob then (Inl e, st1) else get_blob C pid 0 (int packHeaderLen) st1
      | (Inr bs, st1) \<Rightarrow> (Inr bs, st1)) = (Inr (take n stored), st')" by blast
  show ?thesis
    unfolding probePackFraming_def n(4) using detect_pack_of [OF p n(1,2)] na n(3) by (simp add: plain_framing_def)
qed

text \<open>A run whose chunks lie in the content is sliced.\<close>

lemma slice_succeeds:
  assumes "\<forall>ref \<in> set run. slice_is C content (cr_Offset ref) (cr_Size ref) (cr_Hash ref)"
  shows "\<exists>cs. sliceRunFromContent (hexsha C) content run = Inr cs"
  using assms by (induction run) (auto simp: slice_is_def Let_def)

lemma slice_window:
  assumes "slice_is C raw off sz h" and "lo \<le> off" and "off + sz \<le> hi" and "0 \<le> lo"
  shows "slice_is C (take (nat (hi - lo)) (drop (nat lo) raw)) (off - lo) sz h"
proof -
  have "0 \<le> off" "0 \<le> sz" "off + sz \<le> int (length raw)" using assms(1) by (simp_all add: slice_is_def)
  then have "drop (nat (off - lo)) (drop (nat lo) raw) = drop (nat off) raw" "nat sz \<le> nat (hi - lo) - nat (off - lo)"
    using assms(2-4) by (simp_all add: nat_diff_distrib)
  then have "take (nat sz) (drop (nat (off - lo)) (take (nat (hi - lo)) (drop (nat lo) raw))) = take (nat sz) (drop (nat off) raw)"
    by (simp add: drop_take min_absorb1)
  then show ?thesis using assms by (auto simp: slice_is_def)
qed

lemma fold_min: "fold (\<lambda>ref m. if f ref < m then f ref else m) xs a \<le> (a :: int)"
  "x \<in> set xs \<Longrightarrow> fold (\<lambda>ref m. if f ref < m then f ref else m) xs a \<le> f x"
  "(\<forall>x \<in> set xs. b \<le> f x) \<Longrightarrow> b \<le> a \<Longrightarrow> b \<le> fold (\<lambda>ref m. if f ref < m then f ref else m) xs a"
proof (induction xs arbitrary: a)
  case (Cons y ys)
  { case 1 show ?case using Cons.IH(1) [of "if f y < a then f y else a"] by (auto split: if_splits) }
  { case 2 then show ?case using Cons.IH(1,2) [of "if f y < a then f y else a"] by (auto split: if_splits) }
  { case 3 then show ?case using Cons.IH(3) [of "if f y < a then f y else a"] by auto }
qed simp_all

lemma fold_max: "(a :: int) \<le> fold (\<lambda>ref m. if m < f ref then f ref else m) xs a"
  "x \<in> set xs \<Longrightarrow> f x \<le> fold (\<lambda>ref m. if m < f ref then f ref else m) xs a"
  "(\<forall>x \<in> set xs. f x \<le> b) \<Longrightarrow> a \<le> b \<Longrightarrow> fold (\<lambda>ref m. if m < f ref then f ref else m) xs a \<le> b"
proof (induction xs arbitrary: a)
  case (Cons y ys)
  { case 1 show ?case using Cons.IH(1) [of "if a < f y then f y else a"] by (auto split: if_splits) }
  { case 2 then show ?case using Cons.IH(1,2) [of "if a < f y then f y else a"] by (auto split: if_splits) }
  { case 3 then show ?case using Cons.IH(3) [of "if a < f y then f y else a"] by auto }
qed simp_all

definition calm :: "('u, 'b, 's) ChunkedStore \<Rightarrow> ('b \<Rightarrow> string \<Rightarrow> bytes option) \<Rightarrow> string \<Rightarrow> ('u, 'b) cs_state \<Rightarrow> ('u, 'b) cs_state \<Rightarrow> bool" where
  "calm C v d st st' \<longleftrightarrow> v (st_blobs st') = v (st_blobs st) \<and> st_up st' = st_up st \<and> st_dedup st' = st_dedup st \<and>
     store_ok C (v (st_blobs st')) d st'"

lemma store_ok_same: "same_st v st st' \<Longrightarrow> store_ok C (v (st_blobs st)) d st \<Longrightarrow> store_ok C (v (st_blobs st')) d st'"
  unfolding store_ok_def same_st_def by simp

lemma calm_same: "store_ok C (v (st_blobs st)) d st \<Longrightarrow> same_st v st st' \<Longrightarrow> calm C v d st st'"
  using store_ok_same [of v st st' C d] by (simp add: calm_def same_st_def)

lemma calm_then_same: "calm C v d st st1 \<Longrightarrow> same_st v st1 st2 \<Longrightarrow> calm C v d st st2"
  using store_ok_same [of v st1 st2 C d] by (auto simp: calm_def same_st_def)

lemma calm_trans: "calm C v d st st1 \<Longrightarrow> calm C v d st1 st2 \<Longrightarrow> calm C v d st st2"
  by (auto simp: calm_def)

lemma framingFor_finds:
  assumes cfg: "live_config C v" and ok: "store_ok C (v (st_blobs st)) d st"
    and b: "v (st_blobs st) (packBlobID d h) = Some stored" and p: "pack_of C stored raw algo"
  shows "\<exists>st'. framingFor C (packBlobID d h) st = (Inr (plain_framing algo (int packHeaderLen)), st') \<and> calm C v d st st'"
proof (cases "map_of (st_framing st) (packBlobID d h)")
  case (Some fr)
  have cz: "codec_ok (cs_codec C)" using cfg by (simp add: live_config_def)
  from ok Some b obtain raw' algo' where "pack_of C stored raw' algo'" "fr = plain_framing algo' (int packHeaderLen)"
    unfolding store_ok_def framing_ok_def by force
  then have "fr = plain_framing algo (int packHeaderLen)" using pack_of_unique(2) [OF cz p] by simp
  then show ?thesis using Some ok by (simp add: framingFor_def calm_def)
next
  case None
  from probe_finds [OF cfg b p] obtain st1 where pr: "probePackFraming C (packBlobID d h) st = (Inr (plain_framing algo (int packHeaderLen)), st1)"
    and s: "same_st v st st1" by blast
  let ?fr = "plain_framing algo (int packHeaderLen)"
  have "store_ok C (v (st_blobs st1)) d (st1\<lparr>st_framing := (packBlobID d h, ?fr) # st_framing st1\<rparr>)"
    using ok s b p unfolding store_ok_def framing_ok_def same_st_def by auto
  then show ?thesis using None pr s by (simp add: framingFor_def calm_def same_st_def)
qed

lemma shift_slices:
  assumes "\<forall>ref \<in> set run. slice_is C raw (cr_Offset ref) (cr_Size ref) (cr_Hash ref)" and "run \<noteq> []"
  shows "0 \<le> run_min run" and "run_min run \<le> run_max run" and "run_max run \<le> int (length raw)"
    and "\<forall>ref \<in> set (shiftRun run (run_min run)).
      slice_is C (take (nat (run_max run - run_min run)) (drop (nat (run_min run)) raw)) (cr_Offset ref) (cr_Size ref) (cr_Hash ref)"
proof -
  have hd: "hd run \<in> set run" using assms(2) by simp
  have s: "0 \<le> cr_Offset ref" "0 \<le> cr_Size ref" "cr_Offset ref + cr_Size ref \<le> int (length raw)" if "ref \<in> set run" for ref
    using assms(1) that by (simp_all add: slice_is_def)
  show lo: "0 \<le> run_min run" unfolding run_min_def by (rule fold_min(3)) (use s hd in auto)
  have mn: "run_min run \<le> cr_Offset ref" if "ref \<in> set run" for ref unfolding run_min_def by (rule fold_min(2) [OF that])
  have mx: "cr_Offset ref + cr_Size ref \<le> run_max run" if "ref \<in> set run" for ref
    unfolding run_max_def by (rule fold_max(2) [where f = "\<lambda>r. cr_Offset r + cr_Size r", OF that])
  show "run_min run \<le> run_max run" using mn [OF hd] mx [OF hd] s [OF hd] by linarith
  show "run_max run \<le> int (length raw)" unfolding run_max_def
    by (rule fold_max(3) [where f = "\<lambda>r. cr_Offset r + cr_Size r"]) (use s in auto)
  have w: "slice_is C (take (nat (run_max run - run_min run)) (drop (nat (run_min run)) raw)) (cr_Offset ref - run_min run) (cr_Size ref) (cr_Hash ref)"
    if "ref \<in> set run" for ref
    using slice_window [of C raw "cr_Offset ref" "cr_Size ref" "cr_Hash ref" "run_min run" "run_max run"] assms(1) mn mx lo that by blast
  show "\<forall>ref \<in> set (shiftRun run (run_min run)).
      slice_is C (take (nat (run_max run - run_min run)) (drop (nat (run_min run)) raw)) (cr_Offset ref) (cr_Size ref) (cr_Hash ref)"
    using w by (auto simp: shiftRun_def)
qed

definition cache_right :: "('u, 'b, 's) ChunkedStore \<Rightarrow> (string \<Rightarrow> bytes option) \<Rightarrow> string \<Rightarrow> chunkStreamReader \<Rightarrow> bool" where
  "cache_right C bl d rd \<longleftrightarrow> cm_Tenant (rd_manifest rd) = d \<and> (\<forall>c. rd_cachedPack rd = Some c \<longrightarrow>
     (\<exists>h stored algo. rd_cachedPackID rd = packBlobID d h \<and> bl (packBlobID d h) = Some stored \<and> pack_of C stored c algo))"

lemma loadPackRun_serves:
  assumes cfg: "live_config C v" and ok: "store_ok C (v (st_blobs st)) d st" and ca: "cache_right C (v (st_blobs st)) d rd"
    and run: "run \<noteq> []" "\<forall>ref \<in> set run. ref_live (plain_pack C) C (v (st_blobs st)) d ref \<and> cr_PackHash ref = ph"
  shows "\<exists>cs rd' st'. loadPackRun C ph run (rd, st) = (Inr cs, rd', st') \<and> calm C v d st st' \<and> cache_right C (v (st_blobs st')) d rd'"
proof -
  let ?bl = "v (st_blobs st)" and ?pid = "packBlobID d ph"
  have cz: "codec_ok (cs_codec C)" using cfg by (simp add: live_config_def)
  have t: "cm_Tenant (rd_manifest rd) = d" using ca by (simp add: cache_right_def)
  from run have "ref_live (plain_pack C) C ?bl d (hd run)" "cr_PackHash (hd run) = ph" by simp_all
  then obtain stored raw algo where b: "?bl ?pid = Some stored" and p: "pack_of C stored raw algo"
    by (auto simp: ref_live_def loc_live_def plain_pack_def)
  have sl: "\<forall>ref \<in> set run. slice_is C raw (cr_Offset ref) (cr_Size ref) (cr_Hash ref)"
  proof
    fix ref
    assume "ref \<in> set run"
    with run(2) b obtain raw' algo' where "pack_of C stored raw' algo'" "slice_is C raw' (cr_Offset ref) (cr_Size ref) (cr_Hash ref)"
      by (fastforce simp: ref_live_def loc_live_def plain_pack_def)
    then show "slice_is C raw (cr_Offset ref) (cr_Size ref) (cr_Hash ref)" using pack_of_unique(1) [OF cz p] by simp
  qed
  note sh = shift_slices [OF sl run(1)]
  obtain cs where cs: "sliceRunFromContent (hexsha C) raw run = Inr cs" using slice_succeeds [OF sl] by blast
  obtain cw where cw: "sliceRunFromContent (hexsha C) (take (nat (run_max run - run_min run)) (drop (nat (run_min run)) raw)) (shiftRun run (run_min run)) = Inr cw"
    using slice_succeeds [OF sh(4)] by blast
  have whole: "\<exists>cs rd' st'. loadCompressedPackRun C ?pid run (rd, st1) = (Inr cs, rd', st') \<and> calm C v d st st' \<and> cache_right C (v (st_blobs st')) d rd'"
    if "calm C v d st st1" for st1
  proof -
    have "v (st_blobs st1) ?pid = Some stored" using that b by (simp add: calm_def)
    from get_blob_serves [OF cfg this, of 0 "- 1"] obtain st2 where g: "get_blob C ?pid 0 (- 1) st1 = (Inr stored, st2)" "same_st v st1 st2" by auto
    have c2: "calm C v d st st2" by (rule calm_then_same [OF that g(2)])
    have "cache_right C (v (st_blobs st2)) d (rd\<lparr>rd_cachedPackID := ?pid, rd_cachedPack := Some raw\<rparr>)"
      using t b p c2 by (auto simp: cache_right_def calm_def)
    then show ?thesis using g(1) pack_of_unpack [OF cz p] cs c2 by (simp add: loadCompressedPackRun_def)
  qed
  have self: "calm C v d st st" using ok by (simp add: calm_def)
  show ?thesis
  proof (cases "rd_cachedPackID rd = ?pid \<and> rd_cachedPack rd \<noteq> None")
    case True
    then obtain c h st0 a where "rd_cachedPack rd = Some c" "?pid = packBlobID d h" "?bl (packBlobID d h) = Some st0" "pack_of C st0 c a"
      using ca by (auto simp: cache_right_def)
    then have "rd_cachedPack rd = Some raw" using b pack_of_unique(1) [OF cz p] by auto
    then show ?thesis using True cs self ca t by (simp add: loadPackRun_def Let_def)
  next
    case False
    show ?thesis
    proof (cases "run_max run \<le> run_min run")
      case True
      then have "nat (run_max run - run_min run) = 0" by simp
      then have "sliceRunFromContent (hexsha C) [] (shiftRun run (run_min run)) = Inr cw" using cw by simp
      then show ?thesis using False True sh(1,2) self ca t by (auto simp: loadPackRun_def Let_def)
    next
      case long: False
      from framingFor_finds [OF cfg ok b p] obtain st1 where fr: "framingFor C ?pid st = (Inr (plain_framing algo (int packHeaderLen)), st1)"
        and c1: "calm C v d st st1" by blast
      have al: "pf_algo (plain_framing algo (int packHeaderLen)) = algo" "pf_contentBase (plain_framing algo (int packHeaderLen)) = int packHeaderLen"
        by (simp_all add: plain_framing_def)
      have na: "algo \<noteq> packAlgoChunked" using pack_of_shape [OF p] by auto
      show ?thesis
      proof (cases "algo = CompressNone")
        case False
        then show ?thesis using \<open>\<not> (rd_cachedPackID rd = ?pid \<and> rd_cachedPack rd \<noteq> None)\<close> long sh(1,2) fr al na whole [OF c1] t
          unfolding loadPackRun_def Let_def by auto
      next
        case True
        then have st: "stored = packMagic @ [packCodecByte algo] @ raw" using pack_of_shape [OF p] by auto
        have b1: "v (st_blobs st1) ?pid = Some stored" using c1 b by (simp add: calm_def)
        have dr: "drop (nat (int packHeaderLen + run_min run)) stored = drop (nat (run_min run)) raw"
          using sh(1) by (simp add: st packHeaderLen_def nat_add_distrib)
        from get_blob_serves [OF cfg b1, of "int packHeaderLen + run_min run" "run_max run - run_min run"] sh(1-3)
        obtain st2 where g: "get_blob C ?pid (int packHeaderLen + run_min run) (run_max run - run_min run) st1 =
            (Inr (take (nat (run_max run - run_min run)) (drop (nat (run_min run)) raw)), st2)" "same_st v st1 st2"
          unfolding dr by (auto simp: st packHeaderLen_def)
        have c2: "calm C v d st st2" by (rule calm_then_same [OF c1 g(2)])
        then have "cache_right C (v (st_blobs st2)) d rd" using ca by (simp add: calm_def)
        then show ?thesis using \<open>\<not> (rd_cachedPackID rd = ?pid \<and> rd_cachedPack rd \<noteq> None)\<close> long sh(1,2) fr al True g(1) cw t c2
          unfolding loadPackRun_def Let_def by auto
      qed
    qed
  qed
qed

text \<open>A reader all of whose remaining chunks are live reads to the end.\<close>

definition ready :: "('u, 'b, 's) ChunkedStore \<Rightarrow> ('b \<Rightarrow> string \<Rightarrow> bytes option) \<Rightarrow> string \<Rightarrow> chunkStreamReader \<Rightarrow> ('u, 'b) cs_state \<Rightarrow> bool" where
  "ready C v d rd st \<longleftrightarrow> store_ok C (v (st_blobs st)) d st \<and> cache_right C (v (st_blobs st)) d rd \<and>
     (\<forall>ref \<in> set (rd_rest rd). cr_PackHash ref \<noteq> [] \<and> ref_live (plain_pack C) C (v (st_blobs st)) d ref)"

lemma cache_right_upd [simp]:
  "cache_right C bl d (rd\<lparr>rd_cursorIdx := i\<rparr>) = cache_right C bl d rd"
  "cache_right C bl d (rd\<lparr>rd_queued := q\<rparr>) = cache_right C bl d rd"
  "cache_right C bl d (rd\<lparr>rd_current := c\<rparr>) = cache_right C bl d rd"
  by (simp_all add: cache_right_def)

lemma loadNextRun_serves:
  assumes cfg: "live_config C v" and rdy: "ready C v d rd st" and cu: "rd_cursorIdx rd < length (cm_Chunks (rd_manifest rd))"
  shows "\<exists>rd' st'. loadNextRun C (rd, st) = (None, rd', st') \<and> ready C v d rd' st' \<and> rd_queued rd' \<noteq> [] \<and> calm C v d st st'"
proof -
  let ?refs = "rd_rest rd" let ?ph = "cr_PackHash (hd ?refs)"
  define run where "run = hd ?refs # takeWhile (\<lambda>r. cr_PackHash r = ?ph) (tl ?refs)"
  have ne: "?refs \<noteq> []" using cu by (simp add: rd_rest_def)
  then have hd: "?ph \<noteq> []" using rdy by (simp add: ready_def)
  have "ref \<in> set ?refs \<and> cr_PackHash ref = ?ph" if "ref \<in> set run" for ref
    using that ne set_takeWhileD [of ref "\<lambda>r. cr_PackHash r = ?ph" "tl ?refs"] by (auto simp: run_def dest: list.set_sel(2))
  then have live: "\<forall>ref \<in> set run. ref_live (plain_pack C) C (v (st_blobs st)) d ref \<and> cr_PackHash ref = ?ph"
    using rdy by (auto simp: ready_def)
  let ?rd1 = "rd\<lparr>rd_cursorIdx := rd_cursorIdx rd + length run\<rparr>"
  have ok: "store_ok C (v (st_blobs st)) d st" "cache_right C (v (st_blobs st)) d ?rd1" "run \<noteq> []"
    using rdy by (simp_all add: ready_def run_def)
  from loadPackRun_serves [OF cfg ok live] obtain cs rd2 st2 where l: "loadPackRun C ?ph run (?rd1, st) = (Inr cs, rd2, st2)"
    and c: "calm C v d st st2" "cache_right C (v (st_blobs st2)) d rd2" by blast
  have ln: "loadNextRun C (rd, st) = (None, rd2\<lparr>rd_queued := cs\<rparr>, st2)"
    using l hd unfolding loadNextRun_def Let_def rd_rest_def run_def by simp
  from loadNextRun_hashes [OF ln cu] hd obtain rn where rn: "?refs = rn @ drop (rd_cursorIdx rd2) (cm_Chunks (rd_manifest rd))"
    "map (hexsha C) cs = map cr_Hash rn" "rn \<noteq> []" by (auto simp: rd_rest_def hd_drop_conv_nth [OF cu])
  then have "cs \<noteq> []" by auto
  moreover have "set (rd_rest (rd2\<lparr>rd_queued := cs\<rparr>)) \<subseteq> set ?refs"
    using rn(1) loadNextRun_cursor [OF ln cu] by (auto simp: rd_rest_def)
  then have "ready C v d (rd2\<lparr>rd_queued := cs\<rparr>) st2" using rdy c by (auto simp: ready_def calm_def)
  ultimately show ?thesis using ln c(1) by auto
qed

lemma Reader_Read_serves:
  assumes cfg: "live_config C v" and rdy: "ready C v d rd st"
  shows "\<exists>r rd' st'. Reader_Read C n (rd, st) = (Inr r, rd', st') \<and> ready C v d rd' st' \<and> calm C v d st st'"
proof (cases "rd_current rd = [] \<and> rd_queued rd = [] \<and> rd_cursorIdx rd < length (cm_Chunks (rd_manifest rd))")
  case True
  then obtain rd1 st1 where l: "loadNextRun C (rd, st) = (None, rd1, st1)" "ready C v d rd1 st1" "rd_queued rd1 \<noteq> []" "calm C v d st st1"
    using loadNextRun_serves [OF cfg rdy] by blast
  then obtain q qs where "rd_queued rd1 = q # qs" by (cases "rd_queued rd1") auto
  then show ?thesis using True l by (auto simp: Reader_Read_def ready_def rd_rest_def)
next
  case False
  have "calm C v d st st" using rdy by (simp add: ready_def calm_def)
  then show ?thesis using False rdy by (cases "rd_current rd"; cases "rd_queued rd") (auto simp: Reader_Read_def ready_def rd_rest_def)
qed

lemma ReadAll_serves:
  assumes "live_config C v" and "ready C v d (fst rs) (snd rs)"
  shows "\<exists>bs st'. ReadAll C acc rs = (Inr bs, st') \<and> calm C v d (snd rs) st'"
  using assms
proof (induction C acc rs rule: ReadAll.induct)
  case (1 C acc rs)
  from Reader_Read_serves [OF 1(2,3), of 512] obtain r rd' s' where rr: "Reader_Read C 512 rs = (Inr r, rd', s')" "ready C v d rd' s'"
    and c: "calm C v d (snd rs) s'" by auto
  show ?case
  proof (cases r)
    case None
    then show ?thesis using rr c by (simp add: ReadAll.simps [of C acc rs])
  next
    case (Some b)
    from 1(1) [OF rr(1) [symmetric] refl Some 1(2)] rr(2)
    obtain bs st' where "ReadAll C (acc @ b) (rd', s') = (Inr bs, st')" "calm C v d s' st'" by auto
    then show ?thesis using rr Some calm_trans [OF c] by (simp add: ReadAll.simps [of C acc rs])
  qed
qed

lemma framing_ok_grows:
  assumes "\<forall>i s. bl i = Some s \<longrightarrow> bl' i = Some s" and "framing_ok C bl d fs"
  shows "framing_ok C bl' d fs"
  using assms unfolding framing_ok_def by blast

lemma store_ok_keeps:
  assumes "keeps (plain_pack C) C v d st st'" and "store_ok C (v (st_blobs st)) d st"
  shows "store_ok C (v (st_blobs st')) d st'"
  using assms framing_ok_grows [of "v (st_blobs st)" "v (st_blobs st')" C d "st_framing st"] by (auto simp: keeps_def store_ok_def)

lemma store_ok_up: "store_ok C bl d st \<Longrightarrow> store_ok C bl d (st\<lparr>st_up := u\<rparr>)"
  by (simp add: store_ok_def)

lemma stores_plain: "plain_config C \<Longrightarrow> stores (plain_pack C) C (codecFor C meta) L"
  by (auto simp: stores_def plain_config_def codecFor_def storePackBlob_def plain_pack_def pack_of_def split: if_splits)

end
