(* ===== verification/Cas_Live.thy ===== *)
theory Cas_Live
  imports Cas_Demo Chunked_Live
begin

text \<open>
  Slices stay stored and readable: whatever writes and reads follow, and however the snapshot store fails in between, the
  packs hold a slice whose write was acknowledged, under every configuration; and where packs are not framed per chunk it
  reads back whole once the file system answers.
\<close>

section \<open>Live slices\<close>

definition cas_live ::
  "(chunkManifest local_state, 'b, 's) ChunkedStore \<Rightarrow> ('b \<Rightarrow> string \<Rightarrow> bytes option) \<Rightarrow> (chunkManifest local_state, 'b) cs_state \<Rightarrow> bool" where
  "cas_live C v st \<longleftrightarrow> cas_inv C st \<and> cs_index C = GlobalIndex \<and> slices_live (plain_pack C) C v st \<and>
     framing_ok C (v (st_blobs st)) (cs_dedupDomain C) (st_framing st)"

lemma cas_live_store: "cas_live C v st \<Longrightarrow> store_ok C (v (st_blobs st)) (cs_dedupDomain C) st"
  by (simp add: cas_live_def slices_live_def store_ok_def)

lemma cas_live_write:
  assumes lv: "cas_live C v st" and cfg: "live_config C v" and fr: "cas_fresh st i" and run: "CasStore_Write C i data cl st = (ok, st')"
  shows "cas_live C v st'"
proof -
  have inv: "cas_inv C st" and gi: "cs_index C = GlobalIndex" and sl: "slices_live (plain_pack C) C v st" using lv by (simp_all add: cas_live_def)
  have so: "storage_ok (cs_chunks C) v" and al: "stores (plain_pack C) C (codecFor C (metaForClass cl)) (length data)"
    using cfg stores_plain [of C] by (auto simp: live_config_def)
  note w = slices_live_write [OF sl inv gi so al fr run]
  have "store_ok C (v (st_blobs st')) (cs_dedupDomain C) st'" by (rule store_ok_keeps [OF w(2) cas_live_store [OF lv]])
  then show ?thesis using w(1) cas_write(1) [OF inv fr run] gi by (simp add: cas_live_def store_ok_def)
qed

text \<open>A manifest of a live store is read to its end.\<close>

lemma live_manifest_reads:
  assumes lv: "cas_live C v st" and cfg: "live_config C v" and lt: "local_latest (st_up st) (sliceKey i) = Some m"
  shows "\<exists>bs st'. ReadAll C [] (newChunkStreamReader m, st\<lparr>st_up := u\<rparr>) = (Inr bs, st') \<and> calm C v (cs_dedupDomain C) (st\<lparr>st_up := u\<rparr>) st'"
proof -
  let ?d = "cs_dedupDomain C"
  have m: "cm_Tenant m = ?d" "\<forall>ref \<in> set (cm_Chunks m). ref_live (plain_pack C) C (v (st_blobs st)) ?d ref"
    using lv lt unfolding cas_live_def slices_live_def by blast+
  have ph: "\<forall>ref \<in> set (cm_Chunks m). cr_PackHash ref \<noteq> []" using lv lt by (auto simp: cas_live_def cas_inv_def describes_def)
  have "store_ok C (v (st_blobs st)) ?d (st\<lparr>st_up := u\<rparr>)"
    by (rule store_ok_up [OF cas_live_store [OF lv]])
  then have "ready C v ?d (newChunkStreamReader m) (st\<lparr>st_up := u\<rparr>)"
    using m ph by (simp add: ready_def cache_right_def newChunkStreamReader_def rd_rest_def)
  then show ?thesis using ReadAll_serves [OF cfg, of ?d "(newChunkStreamReader m, st\<lparr>st_up := u\<rparr>)" "[]"] by simp
qed

lemma cas_live_read:
  assumes lv: "cas_live C v st" and cfg: "live_config C v" and run: "CasStore_Read C i st = (q, st')"
  shows "cas_live C v st'"
proof -
  let ?d = "cs_dedupDomain C"
  obtain blen where U: "cs_upstream C = LocalStore blen" using lv by (auto simp: cas_live_def cas_inv_def)
  obtain g u where g: "ss_GetLatest (LocalStore blen) (sliceKey i) (st_up st) = (g, u)" by (rule prod.exhaust)
  have ok: "store_ok C (v (st_blobs st)) ?d (st\<lparr>st_up := u\<rparr>)"
    by (rule store_ok_up [OF cas_live_store [OF lv]])
  have c: "calm C v ?d (st\<lparr>st_up := u\<rparr>) st'"
  proof (cases g)
    case (Inl e)
    then have "st' = st\<lparr>st_up := u\<rparr>" using run U g by (simp add: CasStore_Read_def ChunkedStore_GetLatest_def)
    then show ?thesis using ok by (simp add: calm_def)
  next
    case (Inr pm)
    obtain m md where pm: "pm = (m, md)" by (rule prod.exhaust)
    have lt: "local_latest (st_up st) (sliceKey i) = Some m"
      by (rule local_snaps.latest_ok [OF TrueI sliceKey_encoded g [unfolded Inr pm]])
    then have "openManifest m = Inr (newChunkStreamReader m)" using lv by (auto simp: cas_live_def slices_live_def openManifest_def manifestFormatV1_def manifestFormatV2_def)
    then show ?thesis using live_manifest_reads [OF lv cfg lt, of u] run U g Inr pm
      by (auto simp: CasStore_Read_def ChunkedStore_GetLatest_def)
  qed
  have inv: "cas_inv C st" and sl: "slices_live (plain_pack C) C v st" and so: "storage_ok (cs_chunks C) v"
    using lv cfg by (simp_all add: cas_live_def live_config_def)
  show ?thesis using lv cas_read(1) [OF inv run] slices_live_read(1) [OF sl inv so run] c by (auto simp: cas_live_def calm_def store_ok_def)
qed

lemma LocalStore_GetLatest_serves:
  assumes "local_latest s k = Some p" and "ls_os s = []"
  shows "\<exists>m. LocalStore_GetLatest k s = (Inr (p, m), s)"
  using assms
  by (auto simp: local_latest_def LocalStore_GetLatest_def next_os_def listVersionDirs_def os_fine_def split: list.splits sum.splits)

lemma cas_live_serves:
  assumes lv: "cas_live C v st" and cfg: "live_config C v" and os: "ls_os (st_up st) = []" and vw: "cas_view C st i = Some data"
  shows "\<exists>st'. CasStore_Read C i st = (Some data, st')"
proof -
  obtain blen where U: "cs_upstream C = LocalStore blen" using lv by (auto simp: cas_live_def cas_inv_def)
  have inv: "cas_inv C st" using lv by (simp add: cas_live_def)
  from vw obtain m where lt: "local_latest (st_up st) (sliceKey i) = Some m" by (auto simp: cas_view_def)
  then obtain md where g: "ss_GetLatest (LocalStore blen) (sliceKey i) (st_up st) = (Inr (m, md), st_up st)"
    using LocalStore_GetLatest_serves [OF lt os] by (auto simp: LocalStore_def)
  have "openManifest m = Inr (newChunkStreamReader m)"
    using lv lt by (auto simp: cas_live_def slices_live_def openManifest_def manifestFormatV1_def manifestFormatV2_def)
  then obtain bs st' where run: "CasStore_Read C i st = (Some bs, st')"
    using live_manifest_reads [OF lv cfg lt, of "st_up st"] U g by (auto simp: CasStore_Read_def ChunkedStore_GetLatest_def)
  have "cas_view C st i = Some bs" by (rule cas_read(4) [OF inv run refl])
  then show ?thesis using run vw by auto
qed

section \<open>Histories\<close>

text \<open>A history of writes of fresh slices of at most \<open>L\<close> bytes and of reads, with the acknowledged writes.\<close>

inductive cas_run ::
  "(chunkManifest local_state, 'b, 's) ChunkedStore \<Rightarrow> nat \<Rightarrow> (chunkManifest local_state, 'b) cs_state \<Rightarrow> (u64 \<times> bytes) list \<Rightarrow>
     (chunkManifest local_state, 'b) cs_state \<Rightarrow> bool" for C L st0 where
  run_start: "cas_run C L st0 [] st0"
| run_write: "cas_run C L st0 ws st \<Longrightarrow> cas_fresh st i \<Longrightarrow> length data \<le> L \<Longrightarrow> CasStore_Write C i data cl st = (True, st') \<Longrightarrow> cas_run C L st0 ((i, data) # ws) st'"
| run_failed: "cas_run C L st0 ws st \<Longrightarrow> cas_fresh st i \<Longrightarrow> length data \<le> L \<Longrightarrow> CasStore_Write C i data cl st = (False, st') \<Longrightarrow> cas_run C L st0 ws st'"
| run_read: "cas_run C L st0 ws st \<Longrightarrow> CasStore_Read C i st = (q, st') \<Longrightarrow> cas_run C L st0 ws st'"

lemma fresh_not_viewed: "cas_fresh st i \<Longrightarrow> cas_view C st i = None"
  by (simp add: cas_fresh_def cas_view_def local_snaps.unused_none [OF TrueI sliceKey_encoded])

lemma write_keeps_view:
  assumes "cas_inv C st" and "cas_fresh st i" and "CasStore_Write C i data cl st = (ok, st')" and "cas_view C st j = Some x"
  shows "cas_view C st' j = Some x"
proof -
  have "j \<noteq> i" using assms(4) fresh_not_viewed [OF assms(2), of C] by auto
  then show ?thesis using cas_write(2) [OF assms(1-3)] assms(4) by simp
qed

lemma cas_run_live:
  assumes "cas_run C L st0 ws st" and "cas_live C v st0" and cfg: "live_config C v"
  shows "cas_live C v st \<and> (\<forall>(i, data) \<in> set ws. cas_view C st i = Some data)"
  using assms(1,2)
proof (induction rule: cas_run.induct)
  case run_start
  then show ?case by simp
next
  case (run_write ws st i data cl st')
  then have lv: "cas_live C v st" and vw: "\<forall>(i, data) \<in> set ws. cas_view C st i = Some data" by blast+
  then have inv: "cas_inv C st" by (simp add: cas_live_def)
  have "cas_live C v st'" by (rule cas_live_write [OF lv cfg run_write(2,4)])
  moreover have "cas_view C st' i = Some data" by (rule cas_write(3) [OF inv run_write(2,4) TrueI])
  ultimately show ?case using vw write_keeps_view [OF inv run_write(2,4)] by auto
next
  case (run_failed ws st i data cl st')
  then have lv: "cas_live C v st" and vw: "\<forall>(i, data) \<in> set ws. cas_view C st i = Some data" by blast+
  then have inv: "cas_inv C st" by (simp add: cas_live_def)
  show ?case using cas_live_write [OF lv cfg run_failed(2,4)] vw write_keeps_view [OF inv run_failed(2,4)] by auto
next
  case (run_read ws st i q st')
  then have lv: "cas_live C v st" and vw: "\<forall>(i, data) \<in> set ws. cas_view C st i = Some data" by blast+
  then have inv: "cas_inv C st" by (simp add: cas_live_def)
  show ?case using cas_live_read [OF lv cfg run_read(2)] vw cas_read(2) [OF inv run_read(2)] by simp
qed

lemma cas_run_held:
  assumes "cas_run C L st0 ws st" and "cas_held C v st0" and L: "L \<le> 2 ^ 26"
  shows "cas_held C v st \<and> (\<forall>(i, data) \<in> set ws. cas_view C st i = Some data)"
  using assms(1,2)
proof (induction rule: cas_run.induct)
  case run_start
  then show ?case by simp
next
  case (run_write ws st i data cl st')
  then have h: "cas_held C v st" and vw: "\<forall>(i, data) \<in> set ws. cas_view C st i = Some data" by blast+
  then have inv: "cas_inv C st" by (simp add: cas_held_def)
  have "length data \<le> 2 ^ 26" using run_write(3) L by linarith
  then have "cas_held C v st'" by (rule cas_held_write [OF h run_write(2) _ run_write(4)])
  moreover have "cas_view C st' i = Some data" by (rule cas_write(3) [OF inv run_write(2,4) TrueI])
  ultimately show ?case using vw write_keeps_view [OF inv run_write(2,4)] by auto
next
  case (run_failed ws st i data cl st')
  then have h: "cas_held C v st" and vw: "\<forall>(i, data) \<in> set ws. cas_view C st i = Some data" by blast+
  then have inv: "cas_inv C st" by (simp add: cas_held_def)
  have "length data \<le> 2 ^ 26" using run_failed(3) L by linarith
  then show ?case using cas_held_write [OF h run_failed(2) _ run_failed(4)] vw write_keeps_view [OF inv run_failed(2,4)] by auto
next
  case (run_read ws st i q st')
  then have h: "cas_held C v st" and vw: "\<forall>(i, data) \<in> set ws. cas_view C st i = Some data" by blast+
  then have inv: "cas_inv C st" by (simp add: cas_held_def)
  show ?case using cas_held_read [OF h run_read(2)] vw cas_read(2) [OF inv run_read(2)] by simp
qed

section \<open>The properties\<close>

lemma demo_config: "live_config plain_demo id"
  using mem_storage_ok mem_reads_ok demo_sha [of PackCompressWholePack CompressNone]
  by (simp add: live_config_def plain_config_def packingDisabled_def) (simp add: demo_store_def codec_ok_def)

lemma demo_live: "cas_live plain_demo id demo_state"
proof -
  have "framing_ok plain_demo bl d (st_framing demo_state)" for bl d by (simp add: framing_ok_def demo_state_def)
  moreover have "cs_index plain_demo = GlobalIndex" by (simp add: demo_store_def)
  ultimately show ?thesis using demo_inv [of PackCompressWholePack CompressNone] demo_slices by (simp add: cas_live_def)
qed

text \<open>C21: A slice whose write was acknowledged can be read, where packs are not framed per chunk: after any history of writes of
  unused slice ids, failed ones included, and of reads, one call at a time, over a store that keeps packs plain or
  compresses them as a whole (\<open>live_config\<close>: not the default, per-chunk frames with a compressing policy, for which
  \<open>per_chunk_batch_unreadable\<close> shows the contrary), with a dedup index shared by all slices and a blob storage whose reads of
  stored blobs do not fail, reading the slice gives the bytes that were written, as soon as the file system of the
  manifests answers.\<close>

theorem acknowledged_slice_reads_back:
  assumes "cas_run C L st0 ws st" and "cas_live C v st0" and "live_config C v" and "ls_os (st_up st) = []" and "(i, data) \<in> set ws"
  shows "\<exists>st'. CasStore_Read C i st = (Some data, st')"
  using cas_run_live [OF assms(1-3)] cas_live_serves [OF _ assms(3,4)] assms(5) by blast

theorem acknowledged_slice_reads_back_witness:
  "\<exists>st'. CasStore_Read plain_demo 5 (snd (CasStore_Write plain_demo 5 [1, 2, 3] ClassDefault demo_state)) = (Some [1, 2, 3], st')"
proof -
  have w: "CasStore_Write plain_demo 5 [1, 2, 3] ClassDefault demo_state = (True, snd (CasStore_Write plain_demo 5 [1, 2, 3] ClassDefault demo_state))"
    using demo_write by (metis prod.collapse)
  have "ls_os (st_up (snd (CasStore_Write plain_demo 5 [1, 2, 3] ClassDefault demo_state))) = []" by code_simp
  from acknowledged_slice_reads_back [OF run_write [OF run_start demo_fresh order_refl w] demo_live demo_config this] show ?thesis by simp
qed

text \<open>C28: The packs hold what was acknowledged, under every configuration, the default included: after any history of writes of
  unused slice ids of at most 64 MiB, failed ones included, and of reads, one call at a time, decoding the stored packs
  that the latest manifest of a slice refers to gives the bytes of its acknowledged write.\<close>

theorem acknowledged_slice_is_stored:
  assumes "cas_run C L st0 ws st" and "cas_held C v st0" and "L \<le> 2 ^ 26" and "(i, data) \<in> set ws"
  shows "stored_view C v st i = Some data"
proof -
  note r = cas_run_held [OF assms(1-3)]
  then have "cas_view C st i = Some data" using assms(4) by blast
  then show ?thesis using r by (simp add: stored_view_eq)
qed

theorem acknowledged_slice_is_stored_witness:
  "stored_view (demo_store PackCompressPerChunk CompressGzip) id
     (snd (CasStore_Write (demo_store PackCompressPerChunk CompressGzip) 5 [1, 2, 3] ClassDefault demo_state)) 5 = Some [1, 2, 3]"
proof -
  let ?C = "demo_store PackCompressPerChunk CompressGzip"
  have "fst (CasStore_Write ?C 5 [1, 2, 3] ClassDefault demo_state) = True" by code_simp
  then have w: "CasStore_Write ?C 5 [1, 2, 3] ClassDefault demo_state = (True, snd (CasStore_Write ?C 5 [1, 2, 3] ClassDefault demo_state))"
    by (metis prod.collapse)
  from acknowledged_slice_is_stored [OF run_write [OF run_start demo_fresh order_refl w] demo_held] show ?thesis by simp
qed

end
