(* ===== verification/Spec2Isabelle.thy ===== *)
theory Spec2Isabelle
  imports Meta_Fs Meta_Perms Wal_Recovery Pack_Props Pack_Assoc Cas_Files Cas_Live
begin

text \<open>
  \<^bold>\<open>A verification of memorylayer-storage.\<close>  The program is a distributed file system, mlfs, over a content-addressed
  store, casstore.  Metadata (directory tree, slice table, locks, leases, change log) lives in PostgreSQL tables that any
  number of mounts share; file data is cut into slices of at most 64 MiB, and a slice is stored as a manifest that refers to
  chunks inside packs of a blob storage.  A mount logs the metadata of a write in a local write-ahead log before it commits
  it.  Reading a file resolves the overlapping slice rows of its chunks into segments and reads these from the slice store.

  \<^bold>\<open>Theories and sources\<close> (paths under src/).

  \<^item> \<open>Prelude\<close>: machine integers, errno values, tables as lists of rows and their lemmas.  \<open>Bytes\<close>: big-endian integers and
    CRC-32, as encoding/binary and hash/crc32 have them.

  \<^item> \<open>Sql_Tx\<close>, \<open>Meta_Db\<close>, \<open>Meta_Engine\<close>: mlfs/internal/meta/schema.go, types.go, engine.go.  A transaction is a function of
    the database and a schedule of statement failures; it commits or leaves the database as it was.  A \<open>sys\<close> is a database, the
    engine of one mount, the failures to come and the time.

  \<^item> \<open>Meta_Alloc\<close>: ids drawn from the shared counters (engine.go).  \<open>Meta_Owner\<close>: leases, scopes and the fence (ownership.go,
    sqlowner.go, scope.go, fence.go).  \<open>Meta_Perms\<close>: perms.go.  \<open>Meta_Ops\<close>: ops.go and open.go, one definition per call and
    one (\<open>..._tx\<close>) per transaction body.  \<open>Meta_Rename\<close>: rename.go.  \<open>Meta_Slices\<close>: slices.go and the slice calls of ops.go.
    \<open>Meta_Locks\<close>: locks.go.  \<open>Meta_Xattr\<close>: xattr.go, changelog.go.  \<open>Meta_Gc\<close>: gc.go.

  \<^item> \<open>Meta_Tree\<close>, \<open>Slice_Props\<close>, \<open>Meta_Fs\<close>: the invariant of the directory tree, the meaning of the slice table, and the
    states that several mounts reach by any operations.

  \<^item> \<open>Wal\<close>, \<open>Wal_Recovery\<close>: mlfs/internal/wal/wal.go on a disk that keeps any prefix of what was not synced.

  \<^item> \<open>Overlay\<close>, \<open>Slice_Store\<close>, \<open>File_Io\<close>, \<open>File_Props\<close>, \<open>File_Write\<close>: mlfs/internal/fileio/fileio.go and replay.go over the
    interface \<open>Store\<close> of mlfs/internal/chunkstore/chunkstore.go.

  \<^item> \<open>Pack_Format\<close>, \<open>Pack_Props\<close>: the stored form of packs, casstore/snapshot/store_compress.go.  \<open>Blob_Store\<close>: the storage
    interface and \<open>PutIfAbsent\<close> of casstore/blobstore.  \<open>Snapshot_Store\<close>, \<open>Local_Store\<close>: store.go, version.go, store_local.go.
    \<open>Dedup_Index\<close>, \<open>Pack_Assoc\<close>: dedupindex.go, packassoc.go.

  \<^item> \<open>Chunked_Store\<close>, \<open>Chunked_Read\<close>, \<open>Chunked_Put\<close>, \<open>Chunked_Held\<close>, \<open>Chunked_Live\<close>: writing and reading through packs,
    store_chunked.go.  \<open>Cas_Store\<close>: \<open>CasStore\<close> of chunkstore.go and store_register.go.  \<open>Cas_Held\<close>, \<open>Cas_Live\<close>, \<open>Cas_Files\<close>: the
    slice store as the data path sees it, with a concrete instance in \<open>Cas_Demo\<close>.

  \<^bold>\<open>Interfaces\<close> are locales, interpreted on the definitions of the model: \<open>batch_counter\<close> (inode and slice ids),
  \<open>fencing_tokens\<close> (leases with generations), \<open>db_invariant\<close> (what lease calls keep), \<open>lock_table\<close> (flocks and range locks), \<open>slice_reader\<close> and \<open>slice_store\<close>
  (the contract of \<open>Store\<close>, interpreted twice on \<open>CasStore\<close>: with the bytes that manifests name by hash, and with the bytes
  that decoding the stored packs gives), and \<open>snapshot_store\<close> with \<open>manifest_store\<close> over it (on \<open>LocalStore\<close>).

  \<^bold>\<open>What the theorems show.\<close>  Metadata: every reachable state has a well-formed tree; ids are never handed out twice; a
  writer whose scope was taken over cannot commit; an inode's scope is that of its first-level ancestor; locks exclude each
  other, and range splitting implements the byte-wise table; permission checks do not escalate; the reaper deletes exactly
  the orphans; attributes and the change log behave as documented.  Log: an acknowledged record is replayed until it is
  checkpointed.  Data: overlay resolution shows the newest slice; a write puts its bytes into the stored packs and changes
  nothing else; a read returns the window of the file or an error; truncation and hashing act on the whole contents.
  Store: packs decode to what was packed; an acknowledged slice is in the stored packs in every configuration, and reads back
  where packs are not framed per chunk; a pack that a context is associated with is not reclaimed.

  \<^bold>\<open>Assumptions.\<close>  Transactions run one at a time: PostgreSQL's READ COMMITTED, which the code uses, admits more, and
  \<open>Flock_read_committed_race\<close> is one consequence.  A failed COMMIT is one that was not applied.  In \<open>fs_reach\<close> a hard link is
  made of an inode that has a name, a rename goes into a directory that exists, and the reaper runs while no mount holds an
  unlinked open file; the engine checks none of these, and \<open>Link_unlinked_dangling\<close> and \<open>Rename_dangling\<close> show why they matter.
  In \<open>wal_reach\<close> the process restarts after an append failed while writing, and no checkpoint covers the last record while the
  newest of several segments is empty (\<open>short_write_loses_acknowledged\<close>, \<open>empty_segment_resets_sequence\<close>).  The digest has no
  collisions (\<open>sha_ok\<close>), decoding inverts encoding (\<open>codec_ok\<close>), and the blob storage keeps the laws \<open>storage_ok\<close>; splitter,
  codecs, digest and storage are arguments of the definitions.  Calls of the chunked store are serial.  The property on reading
  back (\<open>live_config\<close>) is for packs that are plain or compressed as a whole: with the default, per-chunk frames and a
  compressing policy, an acknowledged slice may be unreadable though its packs hold it (\<open>per_chunk_batch_unreadable\<close>).

  \<^bold>\<open>Bounds and recursion.\<close>  Words have the width of the code.  The inode counter is below \<open>2 ^ 48\<close>, where the code's
  prefix begins; record numbers stay below \<open>2 ^ 64\<close>; file offsets below \<open>2 ^ 57\<close>, the range of 32-bit chunk indices as SQL
  integers; lease generations and times are integers, as nobody steals a scope \<open>2 ^ 63\<close> times.  There is no fuel: loops are
  \<open>fun\<close> or \<open>function\<close> with a measure, and where a loop may not end (the scope walk on cyclic parents, the read and hash
  loops) \<open>partial_function (option)\<close> with theorems that it does.

  \<^bold>\<open>Not modelled.\<close>  The gateways (blobgw, blobgw-s3, blobgw-edge), the CSI driver, the FUSE bridge, coordination over NATS,
  commands, metrics and configuration: protocol and wiring around services outside the sources.  In casstore the S3 and
  caching snapshot stores, batch reads, pack collection and compaction (so stored slices are those of a store that is not
  being collected), \<open>CompressingStore\<close>, backfills and checkpoints of working directories; in mlfs the disk cache and its
  read-ahead, the collector of slices, and remote access.  Manifests, metadata files and lock records are values, not their
  JSON text.
\<close>

end
